(* ===== verification/Prelude.thy ===== *)
theory Prelude
  imports Main "HOL-Library.Word"
begin

text \<open>
  What every component of the development shares.

  \<^item> The machine integers of the Go source (\<open>u8\<close>, \<open>u16\<close>, \<open>u32\<close>, \<open>u64\<close>) and the clock:
    a \<open>time.Time\<close> or \<open>time.Duration\<close> is a number of nanoseconds.
  \<^item> Go run-time panics. A function that can panic returns a value of \<open>'a go\<close>,
    which is \<open>Inl p\<close> for a panic and \<open>Inr v\<close> for a normal return; \<open>bindG\<close>
    sequences two such computations, and \<open>go_nth\<close> is the indexing expression with
    its bounds check. \<open>OutOfFuel\<close> is no panic of the program: it marks a run of the
    model that has used up its bound, which the termination theorems exclude. A slice \<^verbatim>\<open>name[i:]\<close> at an index that the DNS library's
    \<open>Split\<close> returned for \<open>name\<close> is a plain \<open>drop\<close>: the library documents
    these indexes as the starts of the labels.
  \<^item> The generic list lemmas used by more than one component.
\<close>

section \<open>Machine integers and the clock\<close>

type_synonym u8 = "8 word"
type_synonym u16 = "16 word"
type_synonym u32 = "32 word"
type_synonym u64 = "64 word"

type_synonym gotime = int

definition Second :: int where
  "Second = 1000000000"

definition Unix :: "gotime \<Rightarrow> int" where
  "Unix t = t div Second"

text \<open>Go's integer division truncates towards zero.\<close>

definition go_div :: "int \<Rightarrow> int \<Rightarrow> int" where
  "go_div a b = sgn a * sgn b * (\<bar>a\<bar> div \<bar>b\<bar>)"

section \<open>Panics\<close>

datatype panic = IndexOutOfRange | NilDereference | DivideByZero | Panic string | OutOfFuel

type_synonym 'a go = "panic + 'a"

definition bindG :: "'a go \<Rightarrow> ('a \<Rightarrow> 'b go) \<Rightarrow> 'b go" where
  "bindG m f = (case m of Inl p \<Rightarrow> Inl p | Inr x \<Rightarrow> f x)"

definition returns :: "'a go \<Rightarrow> bool" where
  "returns m = (case m of Inl p \<Rightarrow> False | Inr x \<Rightarrow> True)"

definition go_nth :: "'a list \<Rightarrow> nat \<Rightarrow> 'a go" where
  "go_nth xs i = (if i < length xs then Inr (xs ! i) else Inl IndexOutOfRange)"

named_theorems go_simps \<open>evaluation of computations that may panic\<close>

lemma bindG_Inl [simp, go_simps]: "bindG (Inl p) f = Inl p"
  by (simp add: bindG_def)

lemma bindG_Inr [simp, go_simps]: "bindG (Inr x) f = f x"
  by (simp add: bindG_def)

lemma returns_simps [simp, go_simps]: "returns (Inr x)" "\<not> returns (Inl p)"
  by (simp_all add: returns_def)

lemma returns_iff: "returns m \<longleftrightarrow> (\<exists>x. m = Inr x)"
  by (cases m) (simp_all add: returns_def)

lemma bindG_eq_Inr_iff: "bindG m f = Inr y \<longleftrightarrow> (\<exists>x. m = Inr x \<and> f x = Inr y)"
  by (cases m) simp_all

lemma go_nth_in [simp, go_simps]: "i < length xs \<Longrightarrow> go_nth xs i = Inr (xs ! i)"
  by (simp add: go_nth_def)

text \<open>A computation that does not run out of fuel.\<close>

definition nofuel :: "'a go \<Rightarrow> bool" where
  "nofuel m \<longleftrightarrow> m \<noteq> Inl OutOfFuel"

named_theorems nofuel_intros \<open>computations that do not run out of fuel\<close>

lemma nofuel_Inr [simp, nofuel_intros]: "nofuel (Inr x)"
  by (simp add: nofuel_def)

lemma nofuel_Inl [simp]: "nofuel (Inl p) \<longleftrightarrow> p \<noteq> OutOfFuel"
  by (simp add: nofuel_def)

lemma nofuel_bindG [nofuel_intros]: "nofuel m \<Longrightarrow> (\<And>x. m = Inr x \<Longrightarrow> nofuel (f x)) \<Longrightarrow> nofuel (bindG m f)"
  by (cases m) simp_all

lemma nofuel_go_nth [simp, nofuel_intros]: "nofuel (go_nth xs i)"
  by (simp add: go_nth_def)

text \<open>
  Reasoning about outcomes: \<open>wpG X m Q\<close> holds when \<open>m\<close> panics only as \<open>X\<close> allows and
  otherwise returns a value with \<open>Q\<close>.
\<close>

definition wpG :: "(panic \<Rightarrow> bool) \<Rightarrow> 'a go \<Rightarrow> ('a \<Rightarrow> bool) \<Rightarrow> bool" where
  "wpG X m Q = (case m of Inl p \<Rightarrow> X p | Inr x \<Rightarrow> Q x)"

named_theorems wp_simps \<open>rewriting outcomes of computations\<close>

lemma wpG_simps [simp, wp_simps]: "wpG X (Inl p) Q = X p" "wpG X (Inr x) Q = Q x"
  by (simp_all add: wpG_def)

lemma wpG_bindG [wp_simps]: "wpG X (bindG m f) Q = wpG X m (\<lambda>x. wpG X (f x) Q)"
  by (cases m) simp_all

lemma wpG_go_nth [wp_simps]: "wpG X (go_nth xs i) Q = (if i < length xs then Q (xs ! i) else X IndexOutOfRange)"
  by (simp add: go_nth_def)

lemma wpG_mono: "wpG X m P \<Longrightarrow> (\<And>x. P x \<Longrightarrow> Q x) \<Longrightarrow> wpG X m Q"
  by (cases m) simp_all

lemma wpG_Inr: "wpG X m Q \<Longrightarrow> m = Inr x \<Longrightarrow> Q x"
  by simp

lemma wpG_nofuel: "nofuel m = wpG (\<lambda>p. p \<noteq> OutOfFuel) m (\<lambda>_. True)"
  by (cases m) simp_all

lemma wpG_I: "(\<And>x. m = Inr x \<Longrightarrow> Q x) \<Longrightarrow> (\<And>p. m = Inl p \<Longrightarrow> X p) \<Longrightarrow> wpG X m Q"
  by (cases m) simp_all

text \<open>\<open>mapG\<close> runs a computation that may panic on every element, from left to right.\<close>

fun mapG :: "('a \<Rightarrow> 'b go) \<Rightarrow> 'a list \<Rightarrow> 'b list go" where
  "mapG f [] = Inr []"
| "mapG f (x # xs) = bindG (f x) (\<lambda>y. bindG (mapG f xs) (\<lambda>ys. Inr (y # ys)))"

lemma mapG_Inr: "(\<And>x. x \<in> set xs \<Longrightarrow> f x = Inr (g x)) \<Longrightarrow> mapG f xs = Inr (map g xs)"
  by (induction xs) simp_all

section \<open>Lists\<close>

text \<open>The minimum fold that the TTL computations of the source use.\<close>

lemma fold_min_le_init: "fold (\<lambda>x m. min m (f x)) xs (a :: 'a :: linorder) \<le> a"
proof (induction xs arbitrary: a)
  case (Cons x xs)
  then have "fold (\<lambda>x m. min m (f x)) xs (min a (f x)) \<le> min a (f x)" .
  then show ?case by simp
qed simp

lemma fold_min_le_elem:
  "x \<in> set xs \<Longrightarrow> fold (\<lambda>x m. min m (f x)) xs (a :: 'a :: linorder) \<le> f x"
proof (induction xs arbitrary: a)
  case (Cons y ys)
  show ?case
  proof (cases "x = y")
    case True
    have "fold (\<lambda>x m. min m (f x)) ys (min a (f y)) \<le> min a (f y)"
      by (rule fold_min_le_init)
    with True show ?thesis by simp
  next
    case False
    with Cons show ?thesis by simp
  qed
qed simp

lemma fold_min_attained:
  "fold (\<lambda>x m. min m (f x)) xs (a :: 'a :: linorder) \<in> insert a (f ` set xs)"
proof (induction xs arbitrary: a)
  case (Cons y ys)
  from Cons [of "min a (f y)"] show ?case by (auto simp: min_def split: if_splits)
qed simp

lemma fold_min_eq_Min:
  "fold (\<lambda>x m. min m (f x)) xs (a :: 'a :: linorder) = Min (insert a (f ` set xs))"
proof (rule Min_eqI [symmetric])
  fix y
  assume "y \<in> insert a (f ` set xs)"
  then show "fold (\<lambda>x m. min m (f x)) xs a \<le> y"
    by (auto simp: fold_min_le_init fold_min_le_elem)
qed (use fold_min_attained [of f xs a] in auto)

end
