(* ===== verification/Errors.thy ===== *)
theory Errors
  imports Prelude
begin

text \<open>
  Error values. Each package of the source declares its sentinel errors with
  \<^verbatim>\<open>errors.New\<close>; they are the constructors of \<open>resolver_err\<close>
  (errors.go), \<open>dnssec_err\<close> (dnssec/errors.go) and \<open>cache_err\<close> (cache/cache.go).
  A value of Go's \<^verbatim>\<open>error\<close> interface is a \<open>goerr\<close>: a sentinel, the
  \<open>MissingDSRecordError\<close> of the dnssec package, an error of a library or of the
  network (\<open>ExtErr\<close>), an error made from a message only (\<open>MsgErr\<close>), or a
  \<^verbatim>\<open>fmt.Errorf\<close> that wraps other errors. The text of the messages is not
  kept; which errors are wrapped, and in which order, is. A nil error is \<open>None\<close> in
  \<open>goerr option\<close>.
\<close>

datatype resolver_err =
    ErrNotRecursionDesired
  | ErrNilMessageSentToExchange
  | ErrNoPoolConfiguredForZone
  | ErrFailedToGetDNSKEYs
  | ErrFailedCreatingZoneAndPool
  | ErrFailedEnrichingPool
  | ErrUnableToResolveAnswer
  | ErrNextNameserversNotFound
  | ErrEmptyResponse
  | ErrInternalError
  | ErrMaxQueriesPerRequestReached

datatype dnssec_err =
    ErrNoParentDSRecords
  | ErrUnableToFetchDSRecord
  | ErrKeysNotFound
  | ErrKeySigningKeysNotFound
  | ErrAuthSignerNameMismatch
  | ErrSignatureSetEmpty
  | ErrUnableToVerify
  | ErrVerifyFailed
  | ErrNoKeyFoundForSignature
  | ErrInvalidTime
  | ErrInvalidSignature
  | ErrInvalidLabelCount
  | ErrMultipleVaryingSignerNames
  | ErrNSRecordsHaveMismatchingOwners
  | ErrFailsafeResponse
  | ErrUnexpectedSignatureCount
  | ErrMultipleWildcardSignatures
  | ErrDSLookupLoop
  | ErrNotSubdomain
  | ErrSameName
  | ErrUnknown
  | ErrSignerNameNotParentOfQName
  | ErrNoResults
  | ErrBogusResultFound
  | ErrBogusDoeRecordsNotFound
  | ErrBogusWildcardDoeNotFound
  | ErrNotAllInputsProcessed
  | ErrDuplicateInputForZone

datatype cache_err =
    ErrEmptyQuestion
  | ErrCacheMiss
  | ErrCacheExpired
  | ErrCacheNoTruncated

datatype goerr =
    RErr resolver_err
  | DErr dnssec_err
  | CErr cache_err
  | MissingDSRecordError string
  | ExtErr string
  | MsgErr
  | Wrap "goerr list"

text \<open>\<^verbatim>\<open>errors.Is\<close>: the error itself or one that it wraps.\<close>

fun err_is :: "goerr \<Rightarrow> goerr \<Rightarrow> bool" where
  "err_is (Wrap es) t = (Wrap es = t \<or> (\<exists>e \<in> set es. err_is e t))"
| "err_is e t = (e = t)"

text \<open>\<^verbatim>\<open>MissingDSRecordError.RName\<close>.\<close>

fun RName :: "goerr \<Rightarrow> string option" where
  "RName (MissingDSRecordError n) = Some n"
| "RName _ = None"

lemma err_is_refl [simp]: "err_is e e"
  by (cases e) simp_all

lemma err_is_Wrap_mem: "e \<in> set es \<Longrightarrow> err_is e t \<Longrightarrow> err_is (Wrap es) t"
  by auto

end
