(* ===== verification/Dns_Types.thy ===== *)
theory Dns_Types
  imports Errors
begin

text \<open>
  The data and the functions of the DNS library \<^verbatim>\<open>github.com/mr-torgue/dns\<close>
  that the resolver uses. The library is not part of the repository.

  \<^item> Its record types appear with the fields the resolver reads or writes: \<open>rr\<close> has
    one constructor per record type that the source names in a type switch or a type
    assertion, \<open>OtherRR\<close> stands for every other record type. The header's type field
    and the constructor are independent, as they are in the library. An address is kept
    in the form \<^verbatim>\<open>net.IP.String\<close> gives it.
  \<^item> Its functions and methods are the fields of the record \<open>dnslib\<close>. Every
    definition of the development that calls the library takes one as an argument, so
    that the theorems hold for any implementation. Where a theorem rests on documented
    behaviour of the library, the behaviour is a named hypothesis.
\<close>

section \<open>Records and messages\<close>

record rr_hdr =
  Name :: string
  Rrtype :: u16
  Class :: u16
  Ttl :: u32

record ds =
  ds_Hdr :: rr_hdr
  ds_KeyTag :: u16
  ds_Algorithm :: u8
  DigestType :: u8
  Digest :: string

record dnskey =
  dk_Hdr :: rr_hdr
  dk_Flags :: u16
  dk_Protocol :: u8
  dk_Algorithm :: u8
  PublicKey :: string

record rrsig =
  sig_Hdr :: rr_hdr
  TypeCovered :: u16
  sig_Algorithm :: u8
  Labels :: u8
  OrigTtl :: u32
  Expiration :: u32
  Inception :: u32
  sig_KeyTag :: u16
  SignerName :: string
  Signature :: string

record nsec =
  nsec_Hdr :: rr_hdr
  NextDomain :: string
  nsec_TypeBitMap :: "u16 list"

record nsec3 =
  nsec3_Hdr :: rr_hdr
  Hash :: u8
  nsec3_Flags :: u8
  Iterations :: u16
  Salt :: string
  nsec3_NextDomain :: string
  nsec3_TypeBitMap :: "u16 list"

datatype rr =
    A rr_hdr string
  | AAAA rr_hdr string
  | NS rr_hdr string
  | CNAME rr_hdr string
  | SOA rr_hdr
  | DS ds
  | RRSIG rrsig
  | DNSKEY dnskey
  | NSEC nsec
  | NSEC3 nsec3
  | OPT rr_hdr
  | OtherRR rr_hdr string

fun Header :: "rr \<Rightarrow> rr_hdr" where
  "Header (A h _) = h"
| "Header (AAAA h _) = h"
| "Header (NS h _) = h"
| "Header (CNAME h _) = h"
| "Header (SOA h) = h"
| "Header (DS d) = ds_Hdr d"
| "Header (RRSIG s) = sig_Hdr s"
| "Header (DNSKEY k) = dk_Hdr k"
| "Header (NSEC n) = nsec_Hdr n"
| "Header (NSEC3 n) = nsec3_Hdr n"
| "Header (OPT h) = h"
| "Header (OtherRR h _) = h"

text \<open>Assigning to a field of the header, as in \<^verbatim>\<open>rr.Header().Ttl = t\<close>.\<close>

fun set_Header :: "rr_hdr \<Rightarrow> rr \<Rightarrow> rr" where
  "set_Header h (A _ a) = A h a"
| "set_Header h (AAAA _ a) = AAAA h a"
| "set_Header h (NS _ n) = NS h n"
| "set_Header h (CNAME _ t) = CNAME h t"
| "set_Header h (SOA _) = SOA h"
| "set_Header h (DS d) = DS (d\<lparr>ds_Hdr := h\<rparr>)"
| "set_Header h (RRSIG s) = RRSIG (s\<lparr>sig_Hdr := h\<rparr>)"
| "set_Header h (DNSKEY k) = DNSKEY (k\<lparr>dk_Hdr := h\<rparr>)"
| "set_Header h (NSEC n) = NSEC (n\<lparr>nsec_Hdr := h\<rparr>)"
| "set_Header h (NSEC3 n) = NSEC3 (n\<lparr>nsec3_Hdr := h\<rparr>)"
| "set_Header h (OPT _) = OPT h"
| "set_Header h (OtherRR _ x) = OtherRR h x"

lemma Header_set_Header [simp]: "Header (set_Header h r) = h"
  by (cases r) simp_all

abbreviation rr_name :: "rr \<Rightarrow> string" where
  "rr_name r \<equiv> Name (Header r)"

abbreviation rr_type :: "rr \<Rightarrow> u16" where
  "rr_type r \<equiv> Rrtype (Header r)"

abbreviation rr_ttl :: "rr \<Rightarrow> u32" where
  "rr_ttl r \<equiv> Ttl (Header r)"

record question =
  qName :: string
  Qtype :: u16
  Qclass :: u16

record msg =
  MsgId :: u16
  MsgResponse :: bool
  Opcode :: int
  Authoritative :: bool
  Truncated :: bool
  RecursionDesired :: bool
  RecursionAvailable :: bool
  AuthenticatedData :: bool
  CheckingDisabled :: bool
  Rcode :: int
  Question :: "question list"
  Answer :: "rr list"
  Ns :: "rr list"
  Extra :: "rr list"

text \<open>\<^verbatim>\<open>new(dns.Msg)\<close>: every field has its zero value.\<close>

definition new_Msg :: msg where
  "new_Msg = \<lparr>MsgId = 0, MsgResponse = False, Opcode = 0, Authoritative = False,
     Truncated = False, RecursionDesired = False, RecursionAvailable = False,
     AuthenticatedData = False, CheckingDisabled = False, Rcode = 0,
     Question = [], Answer = [], Ns = [], Extra = []\<rparr>"

section \<open>The assigned numbers the source names\<close>

abbreviation (input) TypeA :: u16 where "TypeA \<equiv> 1"
abbreviation (input) TypeNS :: u16 where "TypeNS \<equiv> 2"
abbreviation (input) TypeCNAME :: u16 where "TypeCNAME \<equiv> 5"
abbreviation (input) TypeSOA :: u16 where "TypeSOA \<equiv> 6"
abbreviation (input) TypeAAAA :: u16 where "TypeAAAA \<equiv> 28"
abbreviation (input) TypeDNAME :: u16 where "TypeDNAME \<equiv> 39"
abbreviation (input) TypeOPT :: u16 where "TypeOPT \<equiv> 41"
abbreviation (input) TypeDS :: u16 where "TypeDS \<equiv> 43"
abbreviation (input) TypeRRSIG :: u16 where "TypeRRSIG \<equiv> 46"
abbreviation (input) TypeNSEC :: u16 where "TypeNSEC \<equiv> 47"
abbreviation (input) TypeDNSKEY :: u16 where "TypeDNSKEY \<equiv> 48"
abbreviation (input) TypeNSEC3 :: u16 where "TypeNSEC3 \<equiv> 50"
abbreviation (input) TypeTSIG :: u16 where "TypeTSIG \<equiv> 250"
abbreviation (input) TypeIXFR :: u16 where "TypeIXFR \<equiv> 251"
abbreviation (input) TypeAXFR :: u16 where "TypeAXFR \<equiv> 252"
abbreviation (input) TypeMAILB :: u16 where "TypeMAILB \<equiv> 253"
abbreviation (input) TypeMAILA :: u16 where "TypeMAILA \<equiv> 254"
abbreviation (input) TypeANY :: u16 where "TypeANY \<equiv> 255"

abbreviation (input) ClassINET :: u16 where "ClassINET \<equiv> 1"

abbreviation (input) RcodeSuccess :: int where "RcodeSuccess \<equiv> 0"
abbreviation (input) RcodeServerFailure :: int where "RcodeServerFailure \<equiv> 2"
abbreviation (input) RcodeNameError :: int where "RcodeNameError \<equiv> 3"

abbreviation (input) HashSHA1 :: u8 where "HashSHA1 \<equiv> 1"
abbreviation (input) DigestSHA256 :: u8 where "DigestSHA256 \<equiv> 2"

section \<open>The library's functions\<close>

record dnslib =
  CanonicalName :: "string \<Rightarrow> string"
  Fqdn :: "string \<Rightarrow> string"
  Split :: "string \<Rightarrow> nat list"
  SplitDomainName :: "string \<Rightarrow> string list"
  CountLabel :: "string \<Rightarrow> nat"
  IsSubDomain :: "string \<Rightarrow> string \<Rightarrow> bool"
  TypeName :: "u16 \<Rightarrow> string"
  Dedup :: "rr list \<Rightarrow> rr list"
  KeyTag :: "dnskey \<Rightarrow> u16"
  ToDS :: "dnskey \<Rightarrow> u8 \<Rightarrow> ds option"
  SigVerify :: "rrsig \<Rightarrow> dnskey \<Rightarrow> rr list \<Rightarrow> goerr option"
  ValidityPeriod :: "rrsig \<Rightarrow> gotime \<Rightarrow> bool"
  Match :: "nsec3 \<Rightarrow> string \<Rightarrow> bool"
  Cover :: "nsec3 \<Rightarrow> string \<Rightarrow> bool"
  Do :: "rr_hdr \<Rightarrow> bool"
  UDPSize :: "rr_hdr \<Rightarrow> u16"
  SetQuestion :: "msg \<Rightarrow> string \<Rightarrow> u16 \<Rightarrow> msg"
  SetEdns0 :: "msg \<Rightarrow> u16 \<Rightarrow> bool \<Rightarrow> msg"
  SetReply :: "msg \<Rightarrow> msg \<Rightarrow> msg"
  IsEdns0 :: "msg \<Rightarrow> rr_hdr option"

text \<open>
  The type assertions \<^verbatim>\<open>rr.(*dns.T)\<close> of the source: \<open>Some\<close> when the record
  has that type.
\<close>

fun as_A :: "rr \<Rightarrow> (rr_hdr \<times> string) option" where
  "as_A (A h a) = Some (h, a)" | "as_A _ = None"

fun as_AAAA :: "rr \<Rightarrow> (rr_hdr \<times> string) option" where
  "as_AAAA (AAAA h a) = Some (h, a)" | "as_AAAA _ = None"

fun as_NS :: "rr \<Rightarrow> (rr_hdr \<times> string) option" where
  "as_NS (NS h n) = Some (h, n)" | "as_NS _ = None"

fun as_CNAME :: "rr \<Rightarrow> (rr_hdr \<times> string) option" where
  "as_CNAME (CNAME h t) = Some (h, t)" | "as_CNAME _ = None"

fun as_SOA :: "rr \<Rightarrow> rr_hdr option" where
  "as_SOA (SOA h) = Some h" | "as_SOA _ = None"

fun as_DS :: "rr \<Rightarrow> ds option" where
  "as_DS (DS d) = Some d" | "as_DS _ = None"

fun as_RRSIG :: "rr \<Rightarrow> rrsig option" where
  "as_RRSIG (RRSIG s) = Some s" | "as_RRSIG _ = None"

fun as_DNSKEY :: "rr \<Rightarrow> dnskey option" where
  "as_DNSKEY (DNSKEY k) = Some k" | "as_DNSKEY _ = None"

fun as_NSEC :: "rr \<Rightarrow> nsec option" where
  "as_NSEC (NSEC n) = Some n" | "as_NSEC _ = None"

fun as_NSEC3 :: "rr \<Rightarrow> nsec3 option" where
  "as_NSEC3 (NSEC3 n) = Some n" | "as_NSEC3 _ = None"

fun as_OPT :: "rr \<Rightarrow> rr_hdr option" where
  "as_OPT (OPT h) = Some h" | "as_OPT _ = None"

lemma as_RRSIG_Some [simp]: "as_RRSIG r = Some s \<longleftrightarrow> r = RRSIG s"
  by (cases r) auto

lemma as_DS_Some [simp]: "as_DS r = Some d \<longleftrightarrow> r = DS d"
  by (cases r) auto

lemma as_DNSKEY_Some [simp]: "as_DNSKEY r = Some k \<longleftrightarrow> r = DNSKEY k"
  by (cases r) auto

lemma as_NSEC_Some [simp]: "as_NSEC r = Some k \<longleftrightarrow> r = NSEC k"
  by (cases r) auto

lemma as_NSEC3_Some [simp]: "as_NSEC3 r = Some k \<longleftrightarrow> r = NSEC3 k"
  by (cases r) auto

lemma as_CNAME_Some [simp]: "as_CNAME r = Some (h, t) \<longleftrightarrow> r = CNAME h t"
  by (cases r) auto

end
