(* ===== verification/Dnssec_Types.thy ===== *)
theory Dnssec_Types
  imports Dns_Types
begin

text \<open>
  The data model of the dnssec package: dnssec/const.go, dnssec/types.go, the package
  variables of dnssec/config.go and the record helpers of dnssec/functions.go. The
  authentication results are ordered by severity, and \<open>Combine\<close> is the maximum of that
  order.
\<close>

section \<open>dnssec/const.go\<close>

definition year68 :: int where
  "year68 = 2 ^ 31"

datatype AuthenticationResult = Unknown | Insecure | Secure | Bogus

fun AuthenticationResult_String :: "AuthenticationResult \<Rightarrow> string" where
  "AuthenticationResult_String Unknown = ''Unknown''"
| "AuthenticationResult_String Insecure = ''Insecure''"
| "AuthenticationResult_String Secure = ''Secure''"
| "AuthenticationResult_String Bogus = ''Bogus''"

definition Combine :: "AuthenticationResult \<Rightarrow> AuthenticationResult \<Rightarrow> AuthenticationResult" where
  "Combine r r2 =
     (if r = Bogus \<or> r2 = Bogus then Bogus
      else if r = Unknown \<or> r2 = Unknown then Unknown
      else if r = Insecure \<or> r2 = Insecure then Insecure
      else if r = Secure \<and> r2 = Secure then Secure
      else Bogus)"

datatype DenialOfExistenceState =
    NotFound
  | NsecMissingDS | NsecNoData | NsecNxDomain | NsecWildcard
  | Nsec3MissingDS | Nsec3NoData | Nsec3NxDomain | Nsec3OptOut | Nsec3Wildcard

fun DenialOfExistenceState_String :: "DenialOfExistenceState \<Rightarrow> string" where
  "DenialOfExistenceState_String NotFound = ''NotFound''"
| "DenialOfExistenceState_String NsecMissingDS = ''NsecMissingDS''"
| "DenialOfExistenceState_String NsecNoData = ''NsecNoData''"
| "DenialOfExistenceState_String NsecNxDomain = ''NsecNxDomain''"
| "DenialOfExistenceState_String NsecWildcard = ''NsecWildcard''"
| "DenialOfExistenceState_String Nsec3MissingDS = ''Nsec3MissingDS''"
| "DenialOfExistenceState_String Nsec3NoData = ''Nsec3NoData''"
| "DenialOfExistenceState_String Nsec3NxDomain = ''Nsec3NxDomain''"
| "DenialOfExistenceState_String Nsec3OptOut = ''Nsec3OptOut''"
| "DenialOfExistenceState_String Nsec3Wildcard = ''Nsec3Wildcard''"

datatype sectionT = answerSection | authoritySection

section \<open>dnssec/config.go: the package variables\<close>

record dnssec_cfg =
  RootTrustAnchors :: "ds list"
  RequireAllSignaturesValid :: bool
  MaxAllowedTTL :: u32

definition DefaultMaxAllowedTTL :: u32 where
  "DefaultMaxAllowedTTL = 60 * 60 * 48"

definition default_dnssec_cfg :: dnssec_cfg where
  "default_dnssec_cfg = \<lparr>RootTrustAnchors = [], RequireAllSignaturesValid = False,
     MaxAllowedTTL = DefaultMaxAllowedTTL\<rparr>"

record KeyDigest =
  ValidFrom :: gotime
  ValidUntil :: "gotime option"
  kd_KeyTag :: u16
  kd_Algorithm :: u8
  kd_DigestType :: u8
  kd_Digest :: string

text \<open>
  The loop of \<^verbatim>\<open>LoadAnchors\<close> over the decoded key digests; a \<open>ValidUntil\<close>
  that is the zero time is \<open>None\<close>. \<open>now i\<close> is the clock reading of iteration
  \<open>i\<close>. Opening and decoding the file are left out.
\<close>

definition anchor_valid :: "gotime \<Rightarrow> KeyDigest \<Rightarrow> bool" where
  "anchor_valid t kd =
     (if t < ValidFrom kd then False
      else case ValidUntil kd of None \<Rightarrow> True | Some u \<Rightarrow> \<not> u < t)"

definition anchor_ds :: "KeyDigest \<Rightarrow> ds" where
  "anchor_ds kd = \<lparr>ds_Hdr = \<lparr>Name = ''.'', Rrtype = TypeDS, Class = ClassINET, Ttl = 86400\<rparr>,
     ds_KeyTag = kd_KeyTag kd, ds_Algorithm = kd_Algorithm kd,
     DigestType = kd_DigestType kd, Digest = kd_Digest kd\<rparr>"

fun LoadAnchors :: "(nat \<Rightarrow> gotime) \<Rightarrow> nat \<Rightarrow> KeyDigest list \<Rightarrow> ds list \<Rightarrow> ds list" where
  "LoadAnchors now i [] anchors = anchors"
| "LoadAnchors now i (kd # kds) anchors =
     LoadAnchors now (Suc i) kds
       (if anchor_valid (now i) kd then anchors @ [anchor_ds kd] else anchors)"

section \<open>dnssec/types.go\<close>

record signature =
  s_zone :: string
  s_name :: string
  rtype :: u16
  ttl :: u32
  key :: "dnskey option"
  s_rrsig :: rrsig
  rrset :: "rr list"
  wildcard :: bool
  verified :: bool
  s_err :: "goerr option"
  dsSha256 :: string

type_synonym signatures = "signature list"

text \<open>
  The interface \<open>Zone\<close>: a name and the outcome of \<open>GetDNSKEYRecords\<close>, which is
  either an error or the records.
\<close>

record Zone =
  zName :: string
  GetDNSKEYRecords :: "goerr + rr list"

record result =
  r_name :: string
  r_zone :: Zone
  r_msg :: msg
  r_keys :: signatures
  r_answer :: signatures
  r_authority :: signatures
  r_err :: "goerr option"
  dsRecords :: "ds list"
  r_state :: AuthenticationResult
  denialOfExistence :: DenialOfExistenceState

record input =
  in_zone :: Zone
  in_msg :: msg

section \<open>dnssec/functions.go\<close>

fun extractRecords :: "(rr \<Rightarrow> 'a option) \<Rightarrow> rr list \<Rightarrow> 'a list" where
  "extractRecords as_T [] = []"
| "extractRecords as_T (r # rs) =
     (case as_T r of Some t \<Rightarrow> t # extractRecords as_T rs | None \<Rightarrow> extractRecords as_T rs)"

fun extractRecordsOfType :: "rr list \<Rightarrow> u16 \<Rightarrow> rr list" where
  "extractRecordsOfType [] t = []"
| "extractRecordsOfType (r # rs) t =
     (if rr_type r = t then r # extractRecordsOfType rs t else extractRecordsOfType rs t)"

fun extractRecordsOfNameAndType :: "rr list \<Rightarrow> string \<Rightarrow> u16 \<Rightarrow> rr list" where
  "extractRecordsOfNameAndType [] n t = []"
| "extractRecordsOfNameAndType (r # rs) n t =
     (if rr_type r = t \<and> rr_name r = n then r # extractRecordsOfNameAndType rs n t
      else extractRecordsOfNameAndType rs n t)"

fun recordsOfTypeExist :: "rr list \<Rightarrow> u16 \<Rightarrow> bool" where
  "recordsOfTypeExist [] t = False"
| "recordsOfTypeExist (r # rs) t = (if rr_type r = t then True else recordsOfTypeExist rs t)"

fun recordsHaveTheSameOwner :: "rr list \<Rightarrow> bool" where
  "recordsHaveTheSameOwner [] = True"
| "recordsHaveTheSameOwner [r] = True"
| "recordsHaveTheSameOwner (r # rs) = list_all (\<lambda>x. rr_name x = rr_name r) rs"

definition wildcardName :: "dnslib \<Rightarrow> string \<Rightarrow> string" where
  "wildcardName L name =
     (let labelIndexes = Split L name in
      if length labelIndexes < 2 then ''*.'' else ''*.'' @ drop (labelIndexes ! 1) name)"

definition namesEqual :: "dnslib \<Rightarrow> string \<Rightarrow> string \<Rightarrow> bool" where
  "namesEqual L s1 s2 = (CanonicalName L s1 = CanonicalName L s2)"

definition getOwnerNameFromSet :: "rr list \<Rightarrow> string \<times> bool" where
  "getOwnerNameFromSet rrs = (case rrs of [] \<Rightarrow> ('''', False) | r # _ \<Rightarrow> (rr_name r, True))"

text \<open>Characteristic equations; the component proofs work with these.\<close>

lemma set_extractRecords: "t \<in> set (extractRecords as_T rs) \<longleftrightarrow> (\<exists>r \<in> set rs. as_T r = Some t)"
  by (induction rs) (auto split: option.splits)

lemma extractRecordsOfType_filter:
  "extractRecordsOfType rs t = filter (\<lambda>r. rr_type r = t) rs"
  by (induction rs) auto

lemma extractRecordsOfNameAndType_filter:
  "extractRecordsOfNameAndType rs n t = filter (\<lambda>r. rr_type r = t \<and> rr_name r = n) rs"
  by (induction rs) auto

lemma recordsOfTypeExist_iff: "recordsOfTypeExist rs t \<longleftrightarrow> (\<exists>r \<in> set rs. rr_type r = t)"
  by (induction rs) auto

lemma recordsHaveTheSameOwner_iff:
  "recordsHaveTheSameOwner rs \<longleftrightarrow> (\<forall>x \<in> set rs. \<forall>y \<in> set rs. rr_name x = rr_name y)"
  by (induction rs rule: recordsHaveTheSameOwner.induct) (auto simp: list_all_iff)

section \<open>The severity order\<close>

instantiation AuthenticationResult :: linorder
begin

fun severity :: "AuthenticationResult \<Rightarrow> nat" where
  "severity Secure = 0"
| "severity Insecure = 1"
| "severity Unknown = 2"
| "severity Bogus = 3"

definition less_eq_AuthenticationResult :: "AuthenticationResult \<Rightarrow> AuthenticationResult \<Rightarrow> bool" where
  "less_eq_AuthenticationResult r s = (severity r \<le> severity s)"

definition less_AuthenticationResult :: "AuthenticationResult \<Rightarrow> AuthenticationResult \<Rightarrow> bool" where
  "less_AuthenticationResult r s = (severity r < severity s)"

lemma severity_inject: "severity r = severity s \<Longrightarrow> r = s"
  by (cases r; cases s) simp_all

instance
proof
  fix x y z :: AuthenticationResult
  show "x < y \<longleftrightarrow> x \<le> y \<and> \<not> y \<le> x"
    by (auto simp: less_eq_AuthenticationResult_def less_AuthenticationResult_def)
  show "x \<le> x"
    by (simp add: less_eq_AuthenticationResult_def)
  show "x \<le> y \<Longrightarrow> y \<le> z \<Longrightarrow> x \<le> z"
    by (simp add: less_eq_AuthenticationResult_def)
  show "x \<le> y \<Longrightarrow> y \<le> x \<Longrightarrow> x = y"
    by (simp add: less_eq_AuthenticationResult_def severity_inject)
  show "x \<le> y \<or> y \<le> x"
    by (auto simp: less_eq_AuthenticationResult_def)
qed

end

lemma Combine_max: "Combine r s = max r s"
  by (cases r; cases s) (simp_all add: Combine_def max_def less_eq_AuthenticationResult_def)

lemma set_LoadAnchors:
  "set (LoadAnchors now i kds acc) =
     set acc \<union> {anchor_ds (kds ! j) | j. j < length kds \<and> anchor_valid (now (i + j)) (kds ! j)}"
proof (induction now i kds acc rule: LoadAnchors.induct)
  case (2 now i kd kds acc)
  have split: "{anchor_ds ((kd # kds) ! j) | j. j < length (kd # kds) \<and> anchor_valid (now (i + j)) ((kd # kds) ! j)}
      = (if anchor_valid (now i) kd then {anchor_ds kd} else {}) \<union>
        {anchor_ds (kds ! j) | j. j < length kds \<and> anchor_valid (now (Suc i + j)) (kds ! j)}"
    (is "?L = ?A \<union> ?B")
  proof (intro equalityI subsetI)
    fix x
    assume "x \<in> ?L"
    then obtain j where j: "j < Suc (length kds)" "anchor_valid (now (i + j)) ((kd # kds) ! j)"
      and x: "x = anchor_ds ((kd # kds) ! j)" by auto
    then show "x \<in> ?A \<union> ?B" by (cases j) auto
  next
    fix x
    assume "x \<in> ?A \<union> ?B"
    then consider "anchor_valid (now i) kd" "x = anchor_ds kd"
      | j where "j < length kds" "anchor_valid (now (Suc i + j)) (kds ! j)" "x = anchor_ds (kds ! j)"
      by (auto split: if_splits)
    then show "x \<in> ?L"
    proof cases
      case 1
      then have "0 < length (kd # kds) \<and> anchor_valid (now (i + 0)) ((kd # kds) ! 0)" by simp
      with 1 show ?thesis by force
    next
      case (2 j)
      then have "Suc j < length (kd # kds) \<and> anchor_valid (now (i + Suc j)) ((kd # kds) ! Suc j)"
        by simp
      with 2 show ?thesis by force
    qed
  qed
  show ?case
    using "2.IH" by (simp only: LoadAnchors.simps split) (auto split: if_splits)
qed simp

end
