(* ===== verification/Dnssec_Signatures.thy ===== *)
theory Dnssec_Signatures
  imports Dnssec_Types
begin

text \<open>
  dnssec/authenticate_rrset.go and dnssec/signatures.go: one \<open>signature\<close> per RRSIG of a
  section, the signature checks, the comparison of the number of RRsets with the number of
  signed name and type combinations, and the two local policies that decide if a set of
  signatures is accepted.

  \<open>authenticate\<close> reads the clock twice per RRSIG (once for the validity period, once
  for the remaining lifetime); \<open>clk i\<close> is the pair of readings for the \<open>i\<close>-th
  RRSIG. The only expression of the file that can panic is
  \<^verbatim>\<open>key.ToDS(dns.SHA256).Digest\<close>, where the library may return nil.
\<close>

section \<open>dnssec/authenticate_rrset.go\<close>

type_synonym sigclock = "nat \<Rightarrow> gotime \<times> gotime"

definition new_signature :: "string \<Rightarrow> rr list \<Rightarrow> rrsig \<Rightarrow> signature" where
  "new_signature zone rrsets s = \<lparr>s_zone = zone, s_name = Name (sig_Hdr s),
     rtype = TypeCovered s, ttl = min (Ttl (sig_Hdr s)) (OrigTtl s), key = None,
     s_rrsig = s, rrset = extractRecordsOfNameAndType rrsets (Name (sig_Hdr s)) (TypeCovered s),
     wildcard = False, verified = False, s_err = None, dsSha256 = ''''\<rparr>"

text \<open>
  The time left before the signature expires, in the 32-bit serial arithmetic of the
  source: \<^verbatim>\<open>uint32\<close> of an \<^verbatim>\<open>int64\<close> keeps the low 32 bits.
\<close>

definition ttl_delta :: "rrsig \<Rightarrow> gotime \<Rightarrow> u32" where
  "ttl_delta s now =
     (let utc = Unix now;
          mode = go_div (uint (Expiration s) - utc) year68;
          te = uint (Expiration s) + mode * year68
      in word_of_int (te - utc))"

definition key_matches :: "dnslib \<Rightarrow> rrsig \<Rightarrow> dnskey \<Rightarrow> bool" where
  "key_matches L s k \<longleftrightarrow>
     dk_Algorithm k = sig_Algorithm s \<and> KeyTag L k = sig_KeyTag s \<and>
     CanonicalName L (Name (dk_Hdr k)) = CanonicalName L (SignerName s)"

fun try_keys :: "dnslib \<Rightarrow> signature \<Rightarrow> dnskey list \<Rightarrow> signature go" where
  "try_keys L sig [] = Inr sig"
| "try_keys L sig (k # ks) =
     (if key_matches L (s_rrsig sig) k then
        (case SigVerify L (s_rrsig sig) k (rrset sig) of
           Some e \<Rightarrow> try_keys L (sig\<lparr>s_err := Some (Wrap [DErr ErrInvalidSignature, e])\<rparr>) ks
         | None \<Rightarrow>
             (case ToDS L k DigestSHA256 of
                None \<Rightarrow> Inl NilDereference
              | Some d \<Rightarrow> Inr (sig\<lparr>s_err := None, key := Some k, verified := True,
                                   dsSha256 := Digest d\<rparr>)))
      else try_keys L sig ks)"

text \<open>The wildcard mark and the TTL limits, set before the keys are tried.\<close>

definition limit_signature :: "dnslib \<Rightarrow> gotime \<Rightarrow> signature \<Rightarrow> signature" where
  "limit_signature L now sig =
     (let s = s_rrsig sig;
          sig = (if CountLabel L (Name (sig_Hdr s)) > unat (Labels s)
                 then sig\<lparr>wildcard := True\<rparr> else sig);
          sig = sig\<lparr>ttl := min (ttl sig) (ttl_delta s now)\<rparr>
      in sig\<lparr>ttl := fold (\<lambda>r m. min m (rr_ttl r)) (rrset sig) (ttl sig)\<rparr>)"

definition authenticate_one ::
  "dnslib \<Rightarrow> gotime \<times> gotime \<Rightarrow> string \<Rightarrow> rr list \<Rightarrow> dnskey list \<Rightarrow> rrsig \<Rightarrow> signature go" where
  "authenticate_one L t zone rrsets dnskeys s =
     (let sig = new_signature zone rrsets s in
      if CanonicalName L (s_zone sig) \<noteq> CanonicalName L (SignerName s) then
        Inr (sig\<lparr>s_err := Some (Wrap [DErr ErrAuthSignerNameMismatch])\<rparr>)
      else if CountLabel L (Name (sig_Hdr s)) < unat (Labels s) then
        Inr (sig\<lparr>s_err := Some (Wrap [DErr ErrInvalidLabelCount])\<rparr>)
      else if \<not> ValidityPeriod L s (fst t) then
        Inr (sig\<lparr>s_err := Some (Wrap [DErr ErrInvalidTime])\<rparr>)
      else
        bindG (try_keys L (limit_signature L (snd t) sig) dnskeys) (\<lambda>sig.
          if \<not> verified sig \<and> s_err sig = None
          then Inr (sig\<lparr>s_err := Some (DErr ErrNoKeyFoundForSignature)\<rparr>)
          else Inr sig))"

fun authenticate_all ::
  "dnslib \<Rightarrow> sigclock \<Rightarrow> nat \<Rightarrow> string \<Rightarrow> rr list \<Rightarrow> dnskey list \<Rightarrow> rrsig list \<Rightarrow> signatures go" where
  "authenticate_all L clk i zone rrsets dnskeys [] = Inr []"
| "authenticate_all L clk i zone rrsets dnskeys (s # ss) =
     bindG (authenticate_one L (clk i) zone rrsets dnskeys s) (\<lambda>sig.
     bindG (authenticate_all L clk (Suc i) zone rrsets dnskeys ss) (\<lambda>sigs. Inr (sig # sigs)))"

section \<open>dnssec/signatures.go\<close>

fun filterOnType :: "signatures \<Rightarrow> u16 \<Rightarrow> signatures" where
  "filterOnType [] t = []"
| "filterOnType (s # ss) t = (if rtype s = t then s # filterOnType ss t else filterOnType ss t)"

definition sig_combinations :: "signatures \<Rightarrow> (string \<times> u16) list" where
  "sig_combinations ss = remdups (map (\<lambda>s. (s_name s, rtype s)) ss)"

definition countNameTypeCombinations :: "signatures \<Rightarrow> nat" where
  "countNameTypeCombinations ss = length (sig_combinations ss)"

text \<open>The name and type combinations of a section that \<open>authenticate\<close> counts.\<close>

definition counted :: "sectionT \<Rightarrow> signatures \<Rightarrow> rr \<Rightarrow> bool" where
  "counted sect sigs r \<longleftrightarrow>
     rr_type r \<noteq> TypeRRSIG \<and>
     \<not> (sect = authoritySection \<and> rr_type r = TypeNS \<and> filterOnType sigs TypeNS = [])"

definition rrset_combinations :: "sectionT \<Rightarrow> signatures \<Rightarrow> rr list \<Rightarrow> (string \<times> u16) list" where
  "rrset_combinations sect sigs rrsets =
     remdups (map (\<lambda>r. (rr_name r, rr_type r)) (filter (counted sect sigs) rrsets))"

definition authenticate ::
  "dnslib \<Rightarrow> sigclock \<Rightarrow> string \<Rightarrow> rr list \<Rightarrow> dnskey list \<Rightarrow> sectionT \<Rightarrow>
     (signatures \<times> goerr option) go" where
  "authenticate L clk zone rrsets dnskeys sect =
     (let zone = CanonicalName L zone in
      bindG (authenticate_all L clk 0 zone rrsets dnskeys (extractRecords as_RRSIG rrsets)) (\<lambda>sigs.
        Inr (sigs,
          if length (rrset_combinations sect sigs rrsets) \<noteq> countNameTypeCombinations sigs
          then Some (Wrap [DErr ErrUnexpectedSignatureCount]) else None)))"

record rrsetState =
  verifiedSigSeen :: bool
  st_err :: "goerr option"

text \<open>
  The map from record types to their state, as an association list in the order in which
  the types are first seen. Go leaves the order of ranging over a map open; it decides only
  the order in which the errors are wrapped.
\<close>

definition sig_state_step :: "rrsetState \<Rightarrow> signature \<Rightarrow> rrsetState" where
  "sig_state_step st s =
     (let st = st\<lparr>verifiedSigSeen := verifiedSigSeen st \<or> verified s\<rparr>;
          e = (case s_err s of None \<Rightarrow> DErr ErrUnableToVerify | Some e \<Rightarrow> e)
      in if \<not> verified s then
           (case st_err st of
              None \<Rightarrow> st\<lparr>st_err := Some e\<rparr>
            | Some e0 \<Rightarrow> st\<lparr>st_err := Some (Wrap [e0, e])\<rparr>)
         else st)"

fun update_state :: "(u16 \<times> rrsetState) list \<Rightarrow> signature \<Rightarrow> (u16 \<times> rrsetState) list" where
  "update_state [] s = [(rtype s, sig_state_step \<lparr>verifiedSigSeen = False, st_err = None\<rparr> s)]"
| "update_state ((t, st) # sts) s =
     (if t = rtype s then (t, sig_state_step st s) # sts else (t, st) # update_state sts s)"

fun combine_states :: "(u16 \<times> rrsetState) list \<Rightarrow> goerr option \<Rightarrow> goerr option" where
  "combine_states [] err = err"
| "combine_states ((t, st) # sts) err =
     (if \<not> verifiedSigSeen st then
        let e = (case err of None \<Rightarrow> DErr ErrVerifyFailed | Some e \<Rightarrow> e);
            e' = (case st_err st of None \<Rightarrow> DErr ErrUnableToVerify | Some e' \<Rightarrow> e')
        in combine_states sts (Some (Wrap [e, e']))
      else combine_states sts err)"

definition verifyOneOrMoreRRSigPerRRSet :: "signatures \<Rightarrow> goerr option" where
  "verifyOneOrMoreRRSigPerRRSet ss =
     (case ss of
        [] \<Rightarrow> Some (DErr ErrSignatureSetEmpty)
      | [s] \<Rightarrow>
          (if verified s then None
           else case s_err s of
                  Some e \<Rightarrow> Some (Wrap [DErr ErrVerifyFailed, e])
                | None \<Rightarrow> Some (Wrap [DErr ErrVerifyFailed, DErr ErrUnableToVerify]))
      | _ \<Rightarrow> combine_states (fold (\<lambda>s sts. update_state sts s) ss []) None)"

fun verify_all_loop :: "signatures \<Rightarrow> goerr option \<Rightarrow> goerr option" where
  "verify_all_loop [] err = err"
| "verify_all_loop (s # ss) err =
     (if \<not> verified s then
        let e = (case err of None \<Rightarrow> DErr ErrVerifyFailed | Some e \<Rightarrow> e);
            e' = (case s_err s of None \<Rightarrow> DErr ErrUnableToVerify | Some e' \<Rightarrow> e')
        in verify_all_loop ss (Some (Wrap [e, e']))
      else verify_all_loop ss err)"

definition verifyAllRRSigsPerRRSet :: "signatures \<Rightarrow> goerr option" where
  "verifyAllRRSigsPerRRSet ss =
     (if length ss = 0 then Some (DErr ErrSignatureSetEmpty) else verify_all_loop ss None)"

definition signatures_Verify :: "dnssec_cfg \<Rightarrow> signatures \<Rightarrow> goerr option" where
  "signatures_Verify cfg ss =
     (if RequireAllSignaturesValid cfg then verifyAllRRSigsPerRRSet ss
      else verifyOneOrMoreRRSigPerRRSet ss)"

definition Valid :: "dnssec_cfg \<Rightarrow> signatures \<Rightarrow> bool" where
  "Valid cfg ss = (signatures_Verify cfg ss = None)"

definition extractDSRecords :: "signatures \<Rightarrow> ds list" where
  "extractDSRecords ss = concat (map (\<lambda>s. extractRecords as_DS (rrset s)) (filterOnType ss TypeDS))"

definition extractNSECRecords :: "signatures \<Rightarrow> nsec list" where
  "extractNSECRecords ss =
     concat (map (\<lambda>s. extractRecords as_NSEC (rrset s)) (filterOnType ss TypeNSEC))"

definition extractNSEC3Records :: "signatures \<Rightarrow> nsec3 list" where
  "extractNSEC3Records ss =
     concat (map (\<lambda>s. extractRecords as_NSEC3 (rrset s)) (filterOnType ss TypeNSEC3))"

section \<open>Specification vocabulary\<close>

definition sig_accepts :: "dnslib \<Rightarrow> signature \<Rightarrow> dnskey \<Rightarrow> bool" where
  "sig_accepts L sig k \<longleftrightarrow>
     key_matches L (s_rrsig sig) k \<and> SigVerify L (s_rrsig sig) k (rrset sig) = None"

definition same_signed_data :: "signature \<Rightarrow> signature \<Rightarrow> bool" where
  "same_signed_data s s' \<longleftrightarrow> s_zone s' = s_zone s \<and> s_name s' = s_name s \<and> rtype s' = rtype s \<and>
     ttl s' = ttl s \<and> s_rrsig s' = s_rrsig s \<and> rrset s' = rrset s \<and> wildcard s' = wildcard s"

definition sig_checks :: "dnslib \<Rightarrow> gotime \<Rightarrow> string \<Rightarrow> rrsig \<Rightarrow> bool" where
  "sig_checks L now zone s \<longleftrightarrow>
     CanonicalName L zone = CanonicalName L (SignerName s) \<and>
     unat (Labels s) \<le> CountLabel L (Name (sig_Hdr s)) \<and> ValidityPeriod L s now"

definition states_track :: "signatures \<Rightarrow> (u16 \<times> rrsetState) list \<Rightarrow> bool" where
  "states_track ss sts \<longleftrightarrow>
     distinct (map fst sts) \<and> fst ` set sts = rtype ` set ss \<and>
     (\<forall>(t, st) \<in> set sts. verifiedSigSeen st \<longleftrightarrow> (\<exists>s \<in> set ss. rtype s = t \<and> verified s))"

text \<open>
  What a validated section promises for a record: a verified signature over the RRset that
  the record belongs to, made with one of the given keys.
\<close>

definition covered :: "dnslib \<Rightarrow> dnskey list \<Rightarrow> signatures \<Rightarrow> rr \<Rightarrow> bool" where
  "covered L ks sigs r \<longleftrightarrow>
     (\<exists>s \<in> set sigs. verified s \<and> s_name s = rr_name r \<and> rtype s = rr_type r \<and> r \<in> set (rrset s) \<and>
        (\<exists>k \<in> set ks. key s = Some k \<and> sig_accepts L s k))"

text \<open>The library's \<^verbatim>\<open>RRSIG.Verify\<close> refuses an empty RRset.\<close>

definition verify_rejects_empty :: "dnslib \<Rightarrow> bool" where
  "verify_rejects_empty L \<longleftrightarrow> (\<forall>s k. SigVerify L s k [] \<noteq> None)"

definition verified_combinations :: "signatures \<Rightarrow> (string \<times> u16) set" where
  "verified_combinations sigs = (\<lambda>s. (s_name s, rtype s)) ` {s \<in> set sigs. verified s}"

section \<open>Signature checks\<close>

lemma filterOnType_filter: "filterOnType ss t = filter (\<lambda>s. rtype s = t) ss"
  by (induction ss) auto

lemma try_keys_spec:
  assumes "try_keys L sig ks = Inr sig'" and "\<not> verified sig"
  shows "same_signed_data sig sig' \<and>
    (verified sig' \<longleftrightarrow> (\<exists>k \<in> set ks. sig_accepts L sig k)) \<and>
    (verified sig' \<longrightarrow> (\<exists>k \<in> set ks. key sig' = Some k \<and> sig_accepts L sig k))"
  using assms
proof (induction ks arbitrary: sig)
  case Nil
  then show ?case by (simp add: same_signed_data_def)
next
  case (Cons k ks)
  show ?case
  proof (cases "key_matches L (s_rrsig sig) k")
    case False
    with Cons show ?thesis by (simp add: sig_accepts_def)
  next
    case match: True
    show ?thesis
    proof (cases "SigVerify L (s_rrsig sig) k (rrset sig)")
      case None
      with match Cons.prems obtain d where "ToDS L k DigestSHA256 = Some d"
        by (auto split: option.splits)
      with None match Cons.prems show ?thesis
        by (auto simp: sig_accepts_def same_signed_data_def)
    next
      case (Some e)
      let ?s = "sig\<lparr>s_err := Some (Wrap [DErr ErrInvalidSignature, e])\<rparr>"
      from Some match Cons.prems have "try_keys L ?s ks = Inr sig'" "\<not> verified ?s"
        by simp_all
      from Cons.IH [OF this] Some match show ?thesis
        by (auto simp: sig_accepts_def same_signed_data_def)
    qed
  qed
qed

lemma limit_signature_simps [simp]:
  "s_zone (limit_signature L now sig) = s_zone sig" "s_name (limit_signature L now sig) = s_name sig"
  "rtype (limit_signature L now sig) = rtype sig" "s_rrsig (limit_signature L now sig) = s_rrsig sig"
  "rrset (limit_signature L now sig) = rrset sig" "verified (limit_signature L now sig) = verified sig"
  "s_err (limit_signature L now sig) = s_err sig"
  by (simp_all add: limit_signature_def Let_def)

lemma new_signature_simps [simp]:
  "s_zone (new_signature zone rrs s) = zone" "s_name (new_signature zone rrs s) = Name (sig_Hdr s)"
  "rtype (new_signature zone rrs s) = TypeCovered s" "s_rrsig (new_signature zone rrs s) = s"
  "rrset (new_signature zone rrs s) = extractRecordsOfNameAndType rrs (Name (sig_Hdr s)) (TypeCovered s)"
  "\<not> verified (new_signature zone rrs s)" "\<not> wildcard (new_signature zone rrs s)"
  by (simp_all add: new_signature_def)

lemma authenticate_one_cases:
  assumes "authenticate_one L t zone rrs ks s = Inr sig"
  obtains (rejected) e where "\<not> sig_checks L (fst t) zone s"
      "sig = (new_signature zone rrs s)\<lparr>s_err := Some e\<rparr>"
  | (tried) sig1 where "sig_checks L (fst t) zone s"
      "try_keys L (limit_signature L (snd t) (new_signature zone rrs s)) ks = Inr sig1"
      "sig = (if \<not> verified sig1 \<and> s_err sig1 = None
              then sig1\<lparr>s_err := Some (DErr ErrNoKeyFoundForSignature)\<rparr> else sig1)"
proof (cases "sig_checks L (fst t) zone s")
  case True
  with assms obtain sig1 where
    "try_keys L (limit_signature L (snd t) (new_signature zone rrs s)) ks = Inr sig1"
    "(if \<not> verified sig1 \<and> s_err sig1 = None
      then Inr (sig1\<lparr>s_err := Some (DErr ErrNoKeyFoundForSignature)\<rparr>) else Inr sig1) = (Inr sig :: signature go)"
    by (auto simp: authenticate_one_def sig_checks_def Let_def bindG_eq_Inr_iff)
  with True show thesis by (intro tried) (auto split: if_splits)
next
  case False
  with assms have "\<exists>e. sig = (new_signature zone rrs s)\<lparr>s_err := Some e\<rparr>"
    by (auto simp: authenticate_one_def sig_checks_def Let_def not_le split: if_splits)
  then obtain e where "sig = (new_signature zone rrs s)\<lparr>s_err := Some e\<rparr>" by (rule exE)
  with False show thesis by (rule rejected)
qed

lemma authenticate_one_frame:
  assumes "authenticate_one L t zone rrs ks s = Inr sig"
  shows "s_zone sig = zone \<and> s_name sig = Name (sig_Hdr s) \<and> rtype sig = TypeCovered s \<and>
    s_rrsig sig = s \<and> rrset sig = extractRecordsOfNameAndType rrs (Name (sig_Hdr s)) (TypeCovered s)"
  using assms
proof (cases rule: authenticate_one_cases)
  case (tried sig1)
  from try_keys_spec [OF tried(2)] tried(3) show ?thesis by (simp add: same_signed_data_def)
qed simp

lemma authenticate_one_verified:
  assumes "authenticate_one L t zone rrs ks s = Inr sig"
  shows "verified sig \<longleftrightarrow> sig_checks L (fst t) zone s \<and> (\<exists>k \<in> set ks. sig_accepts L sig k)"
    and "verified sig \<Longrightarrow> \<exists>k \<in> set ks. key sig = Some k \<and> sig_accepts L sig k"
    and "\<not> verified sig \<Longrightarrow> s_err sig \<noteq> None"
proof -
  let ?s0 = "limit_signature L (snd t) (new_signature zone rrs s)"
  have "(verified sig \<longleftrightarrow> sig_checks L (fst t) zone s \<and> (\<exists>k \<in> set ks. sig_accepts L sig k)) \<and>
    (verified sig \<longrightarrow> (\<exists>k \<in> set ks. key sig = Some k \<and> sig_accepts L sig k)) \<and>
    (\<not> verified sig \<longrightarrow> s_err sig \<noteq> None)"
    using assms
  proof (cases rule: authenticate_one_cases)
    case (tried sig1)
    have "sig_accepts L ?s0 k = sig_accepts L sig k" for k
      using authenticate_one_frame [OF assms] by (simp add: sig_accepts_def)
    with try_keys_spec [OF tried(2)] tried(1,3) show ?thesis by auto
  qed simp
  then show "verified sig \<longleftrightarrow> sig_checks L (fst t) zone s \<and> (\<exists>k \<in> set ks. sig_accepts L sig k)"
    and "verified sig \<Longrightarrow> \<exists>k \<in> set ks. key sig = Some k \<and> sig_accepts L sig k"
    and "\<not> verified sig \<Longrightarrow> s_err sig \<noteq> None" by blast+
qed

lemma authenticate_one_ttl:
  assumes "authenticate_one L t zone rrs ks s = Inr sig" and "verified sig"
  shows "ttl sig = Min (insert (min (min (Ttl (sig_Hdr s)) (OrigTtl s)) (ttl_delta s (snd t)))
           (rr_ttl ` set (rrset sig)))"
  using assms(1)
proof (cases rule: authenticate_one_cases)
  case (tried sig1)
  have "ttl sig = ttl (limit_signature L (snd t) (new_signature zone rrs s))"
    using try_keys_spec [OF tried(2)] tried(3) by (simp add: same_signed_data_def)
  moreover have "rrset sig = rrset (new_signature zone rrs s)"
    using authenticate_one_frame [OF assms(1)] by simp
  ultimately show ?thesis
    by (simp add: limit_signature_def Let_def new_signature_def fold_min_eq_Min)
qed (use assms(2) in simp)

lemma ttl_delta_le:
  assumes "0 \<le> Unix now" and "Unix now \<le> uint (Expiration s)"
  shows "uint (ttl_delta s now) \<le> uint (Expiration s) - Unix now"
proof -
  define d where "d = uint (Expiration s) - Unix now"
  have d: "0 \<le> d" "d < 2 ^ 32"
    using assms uint_bounded [of "Expiration s"] by (simp_all add: d_def)
  have "uint (ttl_delta s now) = (d + go_div d year68 * year68) mod 2 ^ 32"
    unfolding ttl_delta_def Let_def by (subst uint_word_of_int) (simp add: d_def algebra_simps)
  also have "go_div d year68 = d div 2 ^ 31"
    using d by (cases "d = 0") (simp_all add: go_div_def year68_def)
  also have "(d + d div 2 ^ 31 * year68) mod 2 ^ 32 \<le> d"
  proof (cases "d < 2 ^ 31")
    case True
    with d show ?thesis by simp
  next
    case False
    with d have "d div 2 ^ 31 = 1" by (simp add: div_pos_geq)
    moreover have "(d + 2 ^ 31) mod 2 ^ 32 = d + 2 ^ 31 - 2 ^ 32"
      using False d by (subst mod_pos_geq) simp_all
    ultimately show ?thesis by (simp add: year68_def)
  qed
  finally show ?thesis by (simp add: d_def)
qed

lemma authenticate_all_nth:
  assumes "authenticate_all L clk i zone rrs ks ss = Inr sigs"
  shows "length sigs = length ss \<and>
    (\<forall>j < length ss. authenticate_one L (clk (i + j)) zone rrs ks (ss ! j) = Inr (sigs ! j))"
  using assms
proof (induction ss arbitrary: i sigs)
  case (Cons s ss)
  then obtain sig sigs' where
    one: "authenticate_one L (clk i) zone rrs ks s = Inr sig" and
    rest: "authenticate_all L clk (Suc i) zone rrs ks ss = Inr sigs'" and sigs: "sigs = sig # sigs'"
    by (auto simp: bindG_eq_Inr_iff)
  from Cons.IH [OF rest] have IH: "length sigs' = length ss"
    "\<And>j. j < length ss \<Longrightarrow> authenticate_one L (clk (Suc i + j)) zone rrs ks (ss ! j) = Inr (sigs' ! j)"
    by auto
  show ?case
  proof (intro conjI allI impI)
    fix j
    assume "j < length (s # ss)"
    then show "authenticate_one L (clk (i + j)) zone rrs ks ((s # ss) ! j) = Inr (sigs ! j)"
      using one IH(2) sigs by (cases j) simp_all
  qed (use IH sigs in simp)
qed simp

lemma authenticate_members:
  assumes "authenticate L clk zone rrs ks sect = Inr (sigs, e)" and "sig \<in> set sigs"
  obtains i s where "RRSIG s \<in> set rrs"
    "authenticate_one L (clk i) (CanonicalName L zone) rrs ks s = Inr sig"
proof -
  let ?ss = "extractRecords as_RRSIG rrs"
  from assms(1) have all: "authenticate_all L clk 0 (CanonicalName L zone) rrs ks ?ss = Inr sigs"
    by (auto simp: authenticate_def Let_def bindG_eq_Inr_iff)
  from assms(2) obtain j where "j < length sigs" "sigs ! j = sig"
    by (auto simp: in_set_conv_nth)
  with authenticate_all_nth [OF all]
  have "j < length ?ss" "authenticate_one L (clk j) (CanonicalName L zone) rrs ks (?ss ! j) = Inr sig"
    by auto
  moreover from this(1) have "RRSIG (?ss ! j) \<in> set rrs"
    using set_extractRecords [of "?ss ! j" as_RRSIG rrs] by auto
  ultimately show thesis using that by blast
qed

section \<open>The acceptance policies\<close>

lemma sig_state_step_seen [simp]:
  "verifiedSigSeen (sig_state_step st s) \<longleftrightarrow> verifiedSigSeen st \<or> verified s"
  by (auto simp: sig_state_step_def Let_def split: option.splits)

lemma map_fst_update_state:
  "set (map fst (update_state sts s)) = insert (rtype s) (set (map fst sts))"
  by (induction sts s rule: update_state.induct) auto

lemma distinct_update_state:
  "distinct (map fst sts) \<Longrightarrow> distinct (map fst (update_state sts s))"
  by (induction sts s rule: update_state.induct)
     (auto simp: map_fst_update_state simp del: set_map)

lemma update_state_mem:
  "distinct (map fst sts) \<Longrightarrow> (t, st) \<in> set (update_state sts s) \<Longrightarrow>
     (t \<noteq> rtype s \<and> (t, st) \<in> set sts) \<or>
     (t = rtype s \<and> (\<exists>st0. (t, st0) \<in> set sts \<and> st = sig_state_step st0 s)) \<or>
     (t = rtype s \<and> t \<notin> fst ` set sts \<and>
        st = sig_state_step \<lparr>verifiedSigSeen = False, st_err = None\<rparr> s)"
  by (induction sts s rule: update_state.induct) (force split: if_splits)+

lemma states_track_update: "states_track ss sts \<Longrightarrow> states_track (ss @ [s]) (update_state sts s)"
  unfolding states_track_def
proof (elim conjE, intro conjI)
  assume d: "distinct (map fst sts)" and dom: "fst ` set sts = rtype ` set ss"
    and tr: "\<forall>(t, st) \<in> set sts. verifiedSigSeen st \<longleftrightarrow> (\<exists>s \<in> set ss. rtype s = t \<and> verified s)"
  show "distinct (map fst (update_state sts s))" using d by (rule distinct_update_state)
  show "fst ` set (update_state sts s) = rtype ` set (ss @ [s])"
    using map_fst_update_state [of sts s] by (simp add: dom)
  show "\<forall>(t, st) \<in> set (update_state sts s).
      verifiedSigSeen st \<longleftrightarrow> (\<exists>s' \<in> set (ss @ [s]). rtype s' = t \<and> verified s')"
  proof clarify
    fix t st
    assume "(t, st) \<in> set (update_state sts s)"
    from update_state_mem [OF d this] tr dom
    show "verifiedSigSeen st \<longleftrightarrow> (\<exists>s' \<in> set (ss @ [s]). rtype s' = t \<and> verified s')"
      by (elim disjE) (auto, (metis imageI)+)
  qed
qed

lemma states_track_fold: "states_track ss (fold (\<lambda>s sts. update_state sts s) ss [])"
  by (induction ss rule: rev_induct)
     (simp_all add: states_track_update, simp add: states_track_def)

lemma combine_states_Some: "combine_states sts (Some e) \<noteq> None"
proof (induction sts arbitrary: e)
  case (Cons p sts)
  then show ?case by (cases p) (simp add: Let_def)
qed simp

lemma combine_states_None_iff:
  "combine_states sts None = None \<longleftrightarrow> (\<forall>(t, st) \<in> set sts. verifiedSigSeen st)"
proof (induction sts)
  case (Cons p sts)
  then show ?case by (cases p) (simp add: Let_def combine_states_Some)
qed simp

lemma verifyOneOrMore_shape:
  obtains "ss = []" | s where "ss = [s]" | s s' rest where "ss = s # s' # rest"
  by (cases ss rule: list.exhaust; cases "tl ss") auto

lemma combine_states_fold_None_iff:
  "combine_states (fold (\<lambda>s sts. update_state sts s) ss []) None = None \<longleftrightarrow>
     (\<forall>s \<in> set ss. \<exists>s' \<in> set ss. rtype s' = rtype s \<and> verified s')"
proof -
  let ?sts = "fold (\<lambda>s sts. update_state sts s) ss []"
  have dom: "fst ` set ?sts = rtype ` set ss"
    and tr: "\<And>t st. (t, st) \<in> set ?sts \<Longrightarrow>
      verifiedSigSeen st \<longleftrightarrow> (\<exists>s \<in> set ss. rtype s = t \<and> verified s)"
    using states_track_fold [of ss] unfolding states_track_def by auto
  have "(\<forall>(t, st) \<in> set ?sts. verifiedSigSeen st) \<longleftrightarrow>
      (\<forall>t \<in> fst ` set ?sts. \<exists>s \<in> set ss. rtype s = t \<and> verified s)"
    using tr by fastforce
  then show ?thesis by (simp add: combine_states_None_iff dom)
qed

lemma verifyOneOrMore_iff:
  "verifyOneOrMoreRRSigPerRRSet ss = None \<longleftrightarrow>
     ss \<noteq> [] \<and> (\<forall>s \<in> set ss. \<exists>s' \<in> set ss. rtype s' = rtype s \<and> verified s')"
proof (cases ss rule: verifyOneOrMore_shape)
  case (3 s s' rest)
  then show ?thesis
    using combine_states_fold_None_iff [of ss] by (simp add: verifyOneOrMoreRRSigPerRRSet_def)
qed (simp_all add: verifyOneOrMoreRRSigPerRRSet_def split: option.splits)

lemma verify_all_loop_Some: "verify_all_loop ss (Some e) \<noteq> None"
  by (induction ss arbitrary: e) (simp_all add: Let_def)

lemma verifyAll_iff:
  "verifyAllRRSigsPerRRSet ss = None \<longleftrightarrow> ss \<noteq> [] \<and> (\<forall>s \<in> set ss. verified s)"
proof -
  have "verify_all_loop ss None = None \<longleftrightarrow> (\<forall>s \<in> set ss. verified s)"
    by (induction ss) (auto simp: Let_def verify_all_loop_Some)
  then show ?thesis by (simp add: verifyAllRRSigsPerRRSet_def)
qed

section \<open>Which RRsets an accepted section covers\<close>

lemma authenticate_ok_counts:
  assumes "authenticate L clk zone rrs ks sect = Inr (sigs, None)"
  shows "card ((\<lambda>s. (s_name s, rtype s)) ` set sigs) =
    card ((\<lambda>r. (rr_name r, rr_type r)) ` {r \<in> set rrs. counted sect sigs r})"
  using assms
  by (auto simp: authenticate_def Let_def bindG_eq_Inr_iff countNameTypeCombinations_def
      sig_combinations_def rrset_combinations_def length_remdups_card_conv split: if_splits)

lemma verified_rrset_nonempty:
  assumes "authenticate L clk zone rrs ks sect = Inr (sigs, e)" "verify_rejects_empty L"
    and "s \<in> set sigs" "verified s"
  shows "rrset s \<noteq> []" and "\<exists>k \<in> set ks. key s = Some k \<and> sig_accepts L s k"
    and "rrset s = extractRecordsOfNameAndType rrs (s_name s) (rtype s)"
proof -
  from assms(1,3) obtain i r where
    one: "authenticate_one L (clk i) (CanonicalName L zone) rrs ks r = Inr s"
    by (rule authenticate_members)
  from authenticate_one_verified(2) [OF one assms(4)]
  show acc: "\<exists>k \<in> set ks. key s = Some k \<and> sig_accepts L s k" .
  with assms(2) show "rrset s \<noteq> []" unfolding sig_accepts_def verify_rejects_empty_def by metis
  show "rrset s = extractRecordsOfNameAndType rrs (s_name s) (rtype s)"
    using authenticate_one_frame [OF one] by simp
qed

text \<open>
  A signature whose RRset holds a record not of type RRSIG is of a counted combination: in
  the authority section an NS record is counted as soon as any NS signature is present.
\<close>

lemma verified_combinations_counted:
  assumes "authenticate L clk zone rrs ks sect = Inr (sigs, e)" "verify_rejects_empty L"
    and no_rrsig: "\<forall>s \<in> set sigs. rtype s \<noteq> TypeRRSIG"
  shows "verified_combinations sigs \<subseteq>
    (\<lambda>r. (rr_name r, rr_type r)) ` {r \<in> set rrs. counted sect sigs r}"
proof
  fix c
  assume "c \<in> verified_combinations sigs"
  then obtain s where s: "s \<in> set sigs" "verified s" and c: "c = (s_name s, rtype s)"
    by (auto simp: verified_combinations_def)
  from verified_rrset_nonempty [OF assms(1,2) s] obtain r where
    "r \<in> set (extractRecordsOfNameAndType rrs (s_name s) (rtype s))"
    by (metis last_in_set)
  then have r: "r \<in> set rrs" "rr_type r = rtype s" "rr_name r = s_name s"
    by (auto simp: extractRecordsOfNameAndType_filter)
  with s no_rrsig have "counted sect sigs r"
    by (auto simp: counted_def filterOnType_filter filter_empty_conv)
  with r c show "c \<in> (\<lambda>r. (rr_name r, rr_type r)) ` {r \<in> set rrs. counted sect sigs r}" by force
qed

lemma covered_if_combination_verified:
  assumes "authenticate L clk zone rrs ks sect = Inr (sigs, e)" "verify_rejects_empty L"
    and "r \<in> set rrs" "(rr_name r, rr_type r) \<in> verified_combinations sigs"
  shows "covered L ks sigs r"
proof -
  from assms(4) obtain s where s: "s \<in> set sigs" "verified s" "s_name s = rr_name r" "rtype s = rr_type r"
    by (auto simp: verified_combinations_def)
  note ok = verified_rrset_nonempty [OF assms(1,2) s(1,2)]
  from ok(3) s assms(3) have "r \<in> set (rrset s)"
    by (simp add: extractRecordsOfNameAndType_filter)
  with s ok(2) show ?thesis by (auto simp: covered_def)
qed

lemma covered_if_all_combinations_verified:
  assumes auth: "authenticate L clk zone rrs ks sect = Inr (sigs, None)" "verify_rejects_empty L"
    and "\<forall>s \<in> set sigs. rtype s \<noteq> TypeRRSIG"
    and all: "(\<lambda>s. (s_name s, rtype s)) ` set sigs = verified_combinations sigs"
    and r: "r \<in> set rrs" "counted sect sigs r"
  shows "covered L ks sigs r"
proof -
  let ?R = "(\<lambda>r. (rr_name r, rr_type r)) ` {r \<in> set rrs. counted sect sigs r}"
  have "verified_combinations sigs = ?R"
  proof (rule card_subset_eq)
    show "verified_combinations sigs \<subseteq> ?R"
      using auth assms(3) by (rule verified_combinations_counted)
    show "card (verified_combinations sigs) = card ?R"
      using authenticate_ok_counts [OF auth(1)] all by simp
  qed simp
  moreover from r have "(rr_name r, rr_type r) \<in> ?R" by blast
  ultimately show ?thesis
    using auth r(1) by (intro covered_if_combination_verified) simp_all
qed

lemma strict_policy_covers:
  assumes "authenticate L clk zone rrs ks sect = Inr (sigs, None)" "verify_rejects_empty L"
    and "\<forall>s \<in> set sigs. rtype s \<noteq> TypeRRSIG"
    and "verifyAllRRSigsPerRRSet sigs = None" "r \<in> set rrs" "counted sect sigs r"
  shows "covered L ks sigs r"
  using assms
  by (intro covered_if_all_combinations_verified)
     (auto simp: verifyAll_iff verified_combinations_def)

lemma default_policy_covers:
  assumes "authenticate L clk zone rrs ks sect = Inr (sigs, None)" "verify_rejects_empty L"
    and "\<forall>s \<in> set sigs. rtype s \<noteq> TypeRRSIG"
    and "verifyOneOrMoreRRSigPerRRSet sigs = None"
    and inj: "\<forall>s \<in> set sigs. \<forall>s' \<in> set sigs. rtype s = rtype s' \<longrightarrow> s_name s = s_name s'"
    and "r \<in> set rrs" "counted sect sigs r"
  shows "covered L ks sigs r"
proof -
  have "\<And>s. s \<in> set sigs \<Longrightarrow> \<exists>s' \<in> set sigs. verified s' \<and> rtype s' = rtype s \<and> s_name s' = s_name s"
    using assms(4) inj unfolding verifyOneOrMore_iff by metis
  then have "\<And>s. s \<in> set sigs \<Longrightarrow> (s_name s, rtype s) \<in> verified_combinations sigs"
    unfolding verified_combinations_def by (metis (mono_tags, lifting) image_iff mem_Collect_eq)
  then have "(\<lambda>s. (s_name s, rtype s)) ` set sigs = verified_combinations sigs"
    unfolding verified_combinations_def by auto
  with assms show ?thesis by (intro covered_if_all_combinations_verified)
qed

end
