(* ===== verification/Doe_Order.thy ===== *)
theory Doe_Order
  imports Dnssec_Types "HOL-Library.Char_ord" "HOL-Library.List_Lexorder"
begin

text \<open>
  dnssec/doe/functions.go: the canonical DNS name order that the NSEC proofs use.
  \<open>canonicalCmp\<close> compares the labels from the right, decoding escaped octets where a label
  has a backslash. The theory shows that this is the lexicographic order of the reversed,
  decoded label lists, and interprets the interface \<open>name_order\<close>, the laws of a
  three-way comparison, on it.
\<close>

section \<open>dnssec/doe/functions.go\<close>

definition doe_wildcardName :: "dnslib \<Rightarrow> string \<Rightarrow> string" where
  "doe_wildcardName L name =
     (let labelIndexes = Split L name in
      if length labelIndexes < 2 then ''*.'' else ''*.'' @ drop (labelIndexes ! 1) name)"

definition canonicalIsDigit :: "char \<Rightarrow> bool" where
  "canonicalIsDigit b \<longleftrightarrow> CHR ''0'' \<le> b \<and> b \<le> CHR ''9''"

text \<open>
  Go's conversion \<^verbatim>\<open>string(rune(n))\<close>: the UTF-8 encoding of a code point. Three
  digits and a byte are both below 2048, so one or two bytes are enough.
\<close>

definition utf8 :: "nat \<Rightarrow> string" where
  "utf8 n = (if n < 128 then [char_of n] else [char_of (192 + n div 64), char_of (128 + n mod 64)])"

definition digit_value :: "char \<Rightarrow> nat" where
  "digit_value c = of_char c - 48"

fun canonicalDecodeEscaped :: "string \<Rightarrow> string" where
  "canonicalDecodeEscaped [] = []"
| "canonicalDecodeEscaped (c # cs) =
     (if c = CHR 0x5C \<and> 3 \<le> length cs \<and> canonicalIsDigit (cs ! 0) \<and> canonicalIsDigit (cs ! 1) \<and>
         canonicalIsDigit (cs ! 2)
      then utf8 (100 * digit_value (cs ! 0) + 10 * digit_value (cs ! 1) + digit_value (cs ! 2)) @
           canonicalDecodeEscaped (drop 3 cs)
      else utf8 (of_char c) @ canonicalDecodeEscaped cs)"

definition decode_label :: "string \<Rightarrow> string" where
  "decode_label l = (if CHR 0x5C \<in> set l then canonicalDecodeEscaped l else l)"

text \<open>
  The loop over \<open>i = 1, 2, \<dots>, minLength\<close> reads label \<open>len - i\<close> of each name,
  so it runs over the reversed label lists; \<open>None\<close> when it ends without a difference.
\<close>

fun cmp_labels :: "string list \<Rightarrow> string list \<Rightarrow> int option" where
  "cmp_labels (a # as) (b # bs) =
     (let labelA = decode_label a; labelB = decode_label b in
      if labelA \<noteq> labelB then Some (if labelA < labelB then -1 else 1) else cmp_labels as bs)"
| "cmp_labels _ _ = None"

definition canonicalCmp :: "dnslib \<Rightarrow> string \<Rightarrow> string \<Rightarrow> int" where
  "canonicalCmp L a b =
     (let labelsA = SplitDomainName L (CanonicalName L a);
          labelsB = SplitDomainName L (CanonicalName L b)
      in case cmp_labels (rev labelsA) (rev labelsB) of
           Some c \<Rightarrow> c
         | None \<Rightarrow> if length labelsA < length labelsB then -1
                   else if length labelsA > length labelsB then 1 else 0)"

section \<open>The reference order\<close>

definition order_key :: "dnslib \<Rightarrow> string \<Rightarrow> string list" where
  "order_key L a = map decode_label (rev (SplitDomainName L (CanonicalName L a)))"

lemma cmp_labels_key:
  "(case cmp_labels xs ys of
      Some c \<Rightarrow> c
    | None \<Rightarrow> if length xs < length ys then -1 else if length xs > length ys then 1 else 0) =
   (if map decode_label xs < map decode_label ys then -1
    else if map decode_label xs = map decode_label ys then 0 else 1)"
proof (induction xs ys rule: cmp_labels.induct)
  case (1 a as b bs)
  show ?case
  proof (cases "decode_label a = decode_label b")
    case True
    with "1" [OF refl refl] show ?thesis by (cases "cmp_labels as bs") (simp_all split: if_splits)
  next
    case False
    then show ?thesis by (simp add: Let_def)
  qed
next
  case "2_1"
  show ?case by (auto simp: neq_Nil_conv)
next
  case "2_2"
  show ?case by (simp add: neq_Nil_conv split: list.split)
qed

lemma canonicalCmp_key:
  "canonicalCmp L a b =
     (if order_key L a < order_key L b then -1 else if order_key L a = order_key L b then 0 else 1)"
  unfolding canonicalCmp_def order_key_def Let_def
  using cmp_labels_key [of "rev (SplitDomainName L (CanonicalName L a))"
      "rev (SplitDomainName L (CanonicalName L b))"]
  unfolding length_rev .

section \<open>The interface of a three-way comparison\<close>

locale name_order =
  fixes cmp :: "'a \<Rightarrow> 'a \<Rightarrow> int"
  assumes cmp_swap: "cmp a b < 0 \<longleftrightarrow> 0 < cmp b a"
    and cmp_trans: "cmp a b < 0 \<Longrightarrow> cmp b c < 0 \<Longrightarrow> cmp a c < 0"
    and cmp_eq_cong: "cmp a b = 0 \<Longrightarrow> cmp c a = cmp c b"
begin

lemma cmp_self: "cmp a a = 0"
  using cmp_swap [of a a] by linarith

lemma cmp_zero_sym: "cmp a b = 0 \<Longrightarrow> cmp b a = 0"
  using cmp_swap [of a b] cmp_swap [of b a] by linarith

lemma cmp_eq_cong_left: "cmp a b = 0 \<Longrightarrow> cmp a c < 0 \<longleftrightarrow> cmp b c < 0"
  using cmp_swap [of a c] cmp_swap [of b c] cmp_eq_cong [of a b c] by simp

lemma cmp_irrefl: "\<not> cmp a a < 0"
  by (simp add: cmp_self)

lemma cmp_asym: "cmp a b < 0 \<Longrightarrow> \<not> cmp b a < 0"
  using cmp_swap [of a b] by linarith

text \<open>A name strictly between two others is neither of them.\<close>

lemma between_distinct:
  "cmp a q < 0 \<Longrightarrow> cmp q b < 0 \<Longrightarrow> cmp q a \<noteq> 0 \<and> cmp q b \<noteq> 0 \<and> cmp a b < 0"
  using cmp_swap [of a q] cmp_trans [of a q b] by auto

text \<open>In a strictly sorted list no element lies strictly between two neighbours.\<close>

lemma sorted_no_between:
  assumes s: "sorted_wrt (\<lambda>x y. cmp x y < 0) ns" and i: "Suc i < length ns" and j: "j < length ns"
  shows "\<not> (cmp (ns ! i) (ns ! j) < 0 \<and> cmp (ns ! j) (ns ! Suc i) < 0)"
proof (cases "j \<le> i")
  case True
  then have "j = i \<or> cmp (ns ! j) (ns ! i) < 0"
    using sorted_wrt_nth_less [OF s, of j i] i by (cases "j = i") auto
  then show ?thesis using cmp_irrefl cmp_asym by blast
next
  case False
  then have "j = Suc i \<or> cmp (ns ! Suc i) (ns ! j) < 0"
    using sorted_wrt_nth_less [OF s, of "Suc i" j] j by (cases "j = Suc i") auto
  then show ?thesis using cmp_irrefl cmp_asym by blast
qed

lemma sorted_none_above_last:
  assumes s: "sorted_wrt (\<lambda>x y. cmp x y < 0) ns" and j: "j < length ns"
  shows "\<not> cmp (ns ! (length ns - 1)) (ns ! j) < 0"
proof (cases "j = length ns - 1")
  case True
  then show ?thesis by (simp add: cmp_irrefl)
next
  case False
  with j have "cmp (ns ! j) (ns ! (length ns - 1)) < 0"
    using sorted_wrt_nth_less [OF s, of j "length ns - 1"] by simp
  then show ?thesis by (rule cmp_asym)
qed

end

interpretation canon: name_order "canonicalCmp L" for L
proof
  show "canonicalCmp L a b < 0 \<longleftrightarrow> 0 < canonicalCmp L b a" for a b
    by (auto simp: canonicalCmp_key)
  show "canonicalCmp L a b < 0 \<Longrightarrow> canonicalCmp L b c < 0 \<Longrightarrow> canonicalCmp L a c < 0" for a b c
    by (auto simp: canonicalCmp_key split: if_splits)
  show "canonicalCmp L a b = 0 \<Longrightarrow> canonicalCmp L c a = canonicalCmp L c b" for a b c
    by (auto simp: canonicalCmp_key split: if_splits)
qed

text \<open>Names with the same canonical form are equal in the order.\<close>

lemma canonicalCmp_same_canonical: "CanonicalName L a = CanonicalName L b \<Longrightarrow> canonicalCmp L a b = 0"
  by (simp add: canonicalCmp_key order_key_def)

end
