(* ===== verification/Doe_Nsec.thy ===== *)
theory Doe_Nsec
  imports Doe_Order
begin

text \<open>
  dnssec/doe/doe.go and dnssec/doe/nsec.go: denial of existence with NSEC records. The type
  bit map lookup is shared in shape by the NSEC and the NSEC3 code; \<open>bitmap_lookup\<close> is
  its contract, interpreted here for NSEC and in \<open>Doe_Nsec3\<close> for NSEC3. The soundness
  lemmas speak of a zone with the names \<open>ns\<close> and its NSEC chain.
\<close>

section \<open>dnssec/doe/doe.go\<close>

record DenialOfExistenceNSEC =
  nsec_zone :: string
  nsec_records :: "nsec list"

record DenialOfExistenceNSEC3 =
  nsec3_zone :: string
  nsec3_records :: "nsec3 list"

definition NewDenialOfExistenceNSEC :: "string \<Rightarrow> nsec list \<Rightarrow> DenialOfExistenceNSEC" where
  "NewDenialOfExistenceNSEC zone records = \<lparr>nsec_zone = zone, nsec_records = records\<rparr>"

text \<open>\<^verbatim>\<open>r.Flags < 0\<close> cannot hold of an unsigned byte.\<close>

definition NewDenialOfExistenceNSEC3 :: "string \<Rightarrow> nsec3 list \<Rightarrow> DenialOfExistenceNSEC3" where
  "NewDenialOfExistenceNSEC3 zone records =
     \<lparr>nsec3_zone = zone,
      nsec3_records = filter (\<lambda>r. \<not> Hash r \<noteq> HashSHA1 \<and> \<not> (nsec3_Flags r < 0 \<or> nsec3_Flags r > 1)) records\<rparr>"

definition nsec_Empty :: "DenialOfExistenceNSEC \<Rightarrow> bool" where
  "nsec_Empty doe \<longleftrightarrow> length (nsec_records doe) = 0"

definition nsec3_Empty :: "DenialOfExistenceNSEC3 \<Rightarrow> bool" where
  "nsec3_Empty doe \<longleftrightarrow> length (nsec3_records doe) = 0"

section \<open>dnssec/doe/nsec.go\<close>

text \<open>The condition under which one NSEC record covers a name.\<close>

definition nsec_covers :: "dnslib \<Rightarrow> string \<Rightarrow> nsec \<Rightarrow> string \<Rightarrow> bool" where
  "nsec_covers L zone n name \<longleftrightarrow>
     canonicalCmp L (Name (nsec_Hdr n)) name < 0 \<and>
     (CanonicalName L (NextDomain n) = zone \<or> canonicalCmp L name (NextDomain n) < 0)"

fun any_covers :: "dnslib \<Rightarrow> string \<Rightarrow> nsec list \<Rightarrow> string \<Rightarrow> bool" where
  "any_covers L zone [] name = False"
| "any_covers L zone (n # ns) name = (if nsec_covers L zone n name then True else any_covers L zone ns name)"

definition nsec_verifyQNameCovered :: "dnslib \<Rightarrow> DenialOfExistenceNSEC \<Rightarrow> string \<Rightarrow> bool" where
  "nsec_verifyQNameCovered L doe qname =
     any_covers L (nsec_zone doe) (nsec_records doe) (CanonicalName L qname)"

definition nsec_verifyWildcardCovered :: "dnslib \<Rightarrow> DenialOfExistenceNSEC \<Rightarrow> string \<Rightarrow> bool" where
  "nsec_verifyWildcardCovered L doe qname =
     any_covers L (nsec_zone doe) (nsec_records doe) (doe_wildcardName L (CanonicalName L qname))"

definition PerformQNameDoesNotExistProof :: "dnslib \<Rightarrow> DenialOfExistenceNSEC \<Rightarrow> string \<Rightarrow> bool" where
  "PerformQNameDoesNotExistProof L doe qname \<longleftrightarrow>
     \<not> nsec_Empty doe \<and> (nsec_verifyQNameCovered L doe qname \<and> nsec_verifyWildcardCovered L doe qname)"

definition nsec_PerformExpandedWildcardProof :: "dnslib \<Rightarrow> DenialOfExistenceNSEC \<Rightarrow> string \<Rightarrow> bool" where
  "nsec_PerformExpandedWildcardProof L doe qname \<longleftrightarrow>
     \<not> nsec_Empty doe \<and> (nsec_verifyQNameCovered L doe qname \<and> \<not> nsec_verifyWildcardCovered L doe qname)"

fun nsec_bitmap_loop :: "dnslib \<Rightarrow> nsec list \<Rightarrow> string \<Rightarrow> u16 list \<Rightarrow> bool \<Rightarrow> bool \<times> bool" where
  "nsec_bitmap_loop L [] name types nameSeen = (nameSeen, False)"
| "nsec_bitmap_loop L (n # ns) name types nameSeen =
     (if name \<noteq> CanonicalName L (Name (nsec_Hdr n)) then nsec_bitmap_loop L ns name types nameSeen
      else if list_ex (\<lambda>t. t \<in> set (nsec_TypeBitMap n)) types then (True, True)
      else nsec_bitmap_loop L ns name types True)"

definition nsec_TypeBitMapContainsAnyOf ::
  "dnslib \<Rightarrow> DenialOfExistenceNSEC \<Rightarrow> string \<Rightarrow> u16 list \<Rightarrow> bool \<times> bool" where
  "nsec_TypeBitMapContainsAnyOf L doe name types = nsec_bitmap_loop L (nsec_records doe) name types False"

section \<open>Specification vocabulary\<close>

text \<open>
  The NSEC chain of a zone: \<open>ns\<close> lists the owner names in canonical order with the apex
  first, and each record points from one name to the next, the last one back to the apex.
\<close>

definition zone_names :: "dnslib \<Rightarrow> string \<Rightarrow> string list \<Rightarrow> bool" where
  "zone_names L zone ns \<longleftrightarrow>
     ns \<noteq> [] \<and> CanonicalName L (hd ns) = zone \<and> sorted_wrt (\<lambda>x y. canonicalCmp L x y < 0) ns"

definition in_nsec_chain :: "string list \<Rightarrow> nsec \<Rightarrow> bool" where
  "in_nsec_chain ns n \<longleftrightarrow>
     (\<exists>i < length ns. Name (nsec_Hdr n) = ns ! i \<and>
        NextDomain n = (if Suc i < length ns then ns ! Suc i else hd ns))"

section \<open>Coverage\<close>

lemma any_covers_iff: "any_covers L zone ns name \<longleftrightarrow> (\<exists>n \<in> set ns. nsec_covers L zone n name)"
  by (induction ns) auto

lemma nsec_covers_cong:
  assumes "canonicalCmp L a b = 0"
  shows "nsec_covers L zone n a \<longleftrightarrow> nsec_covers L zone n b"
  unfolding nsec_covers_def canon.cmp_eq_cong [OF assms] canon.cmp_eq_cong_left [OF assms] ..

text \<open>A record of the chain covers none of the zone's names.\<close>

lemma chain_covers_no_zone_name:
  assumes z: "zone_names L zone ns" and n: "in_nsec_chain ns n" and j: "j < length ns"
  shows "\<not> nsec_covers L zone n (ns ! j)"
proof -
  from z have sorted: "sorted_wrt (\<lambda>x y. canonicalCmp L x y < 0) ns" and ne: "ns \<noteq> []"
    and apex: "CanonicalName L (ns ! 0) = zone" by (auto simp: zone_names_def hd_conv_nth)
  from n obtain i where i: "i < length ns" "Name (nsec_Hdr n) = ns ! i"
    and nxt: "NextDomain n = (if Suc i < length ns then ns ! Suc i else hd ns)"
    by (auto simp: in_nsec_chain_def)
  show ?thesis
  proof (cases "Suc i < length ns")
    case True
    have "CanonicalName L (ns ! Suc i) \<noteq> zone"
    proof
      assume "CanonicalName L (ns ! Suc i) = zone"
      with apex have "canonicalCmp L (ns ! 0) (ns ! Suc i) = 0"
        by (intro canonicalCmp_same_canonical) simp
      with sorted_wrt_nth_less [OF sorted, of 0 "Suc i"] True show False by simp
    qed
    with canon.sorted_no_between [OF sorted True j] i nxt True show ?thesis
      by (auto simp: nsec_covers_def)
  next
    case False
    with i have "i = length ns - 1" by simp
    with canon.sorted_none_above_last [OF sorted j] i show ?thesis by (simp add: nsec_covers_def)
  qed
qed

lemma covered_not_in_zone:
  assumes "zone_names L zone ns" "\<forall>n \<in> set recs. in_nsec_chain ns n" "any_covers L zone recs q"
    and "z \<in> set ns"
  shows "canonicalCmp L z q \<noteq> 0"
proof
  assume eq: "canonicalCmp L z q = 0"
  from assms(3) obtain n where n: "n \<in> set recs" "nsec_covers L zone n q"
    by (auto simp: any_covers_iff)
  then have "nsec_covers L zone n z" by (simp add: nsec_covers_cong [OF eq])
  with chain_covers_no_zone_name [OF assms(1)] n(1) assms(2,4) show False
    by (metis in_set_conv_nth)
qed

section \<open>The contract of the type bit map lookup\<close>

locale bitmap_lookup =
  fixes recs :: "'r list"
    and matches :: "'r \<Rightarrow> string \<Rightarrow> bool"
    and bitmap :: "'r \<Rightarrow> u16 list"
    and lookup :: "string \<Rightarrow> u16 list \<Rightarrow> bool \<times> bool"
  assumes name_seen: "fst (lookup name types) \<longleftrightarrow> (\<exists>r \<in> set recs. matches r name)"
    and type_seen: "snd (lookup name types) \<longleftrightarrow>
      (\<exists>r \<in> set recs. matches r name \<and> (\<exists>t \<in> set types. t \<in> set (bitmap r)))"
begin

text \<open>A name that was seen without the types: some record matches it and no record that
  matches it has any of the types.\<close>

lemma no_data:
  "lookup name types = (True, False) \<longleftrightarrow>
     (\<exists>r \<in> set recs. matches r name) \<and>
     (\<forall>r \<in> set recs. matches r name \<longrightarrow> (\<forall>t \<in> set types. t \<notin> set (bitmap r)))"
  using name_seen [of name types] type_seen [of name types] by (cases "lookup name types") auto

lemma type_seen_name_seen: "snd (lookup name types) \<Longrightarrow> fst (lookup name types)"
  using name_seen [of name types] type_seen [of name types] by auto

lemma lookup_mono: "set types \<subseteq> set types' \<Longrightarrow> snd (lookup name types) \<Longrightarrow> snd (lookup name types')"
  using type_seen [of name types] type_seen [of name types'] by blast

end

lemma nsec_bitmap_loop_spec:
  "fst (nsec_bitmap_loop L ns name types seen) \<longleftrightarrow>
     seen \<or> (\<exists>n \<in> set ns. name = CanonicalName L (Name (nsec_Hdr n)))"
  "snd (nsec_bitmap_loop L ns name types seen) \<longleftrightarrow>
     (\<exists>n \<in> set ns. name = CanonicalName L (Name (nsec_Hdr n)) \<and>
        (\<exists>t \<in> set types. t \<in> set (nsec_TypeBitMap n)))"
  by (induction ns arbitrary: seen) (auto simp: list_ex_iff)

interpretation nsec_bits: bitmap_lookup "nsec_records doe" "\<lambda>n name. name = CanonicalName L (Name (nsec_Hdr n))"
  nsec_TypeBitMap "nsec_TypeBitMapContainsAnyOf L doe" for L doe
  by unfold_locales (simp_all add: nsec_TypeBitMapContainsAnyOf_def nsec_bitmap_loop_spec)

end
