(* ===== verification/Dns_Names.thy ===== *)
theory Dns_Names
  imports Dns_Types
begin

text \<open>
  The documented behaviour of the library's name functions, as the hypothesis
  \<open>dns_names L valid\<close>, and what follows from it. \<open>valid\<close> holds of the syntactically
  valid domain names: the library documents \<open>Split\<close>, \<open>CountLabel\<close> and
  \<open>IsSubDomain\<close> for those only. The consequence that the components use is the list
  \<open>ancestors L s\<close> of a canonical name \<open>s\<close>: the name itself, its parent, and so on up
  to the root.
\<close>

definition canonical :: "dnslib \<Rightarrow> (string \<Rightarrow> bool) \<Rightarrow> string \<Rightarrow> bool" where
  "canonical L valid s \<longleftrightarrow> valid s \<and> CanonicalName L s = s"

definition ancestors :: "dnslib \<Rightarrow> string \<Rightarrow> string list" where
  "ancestors L s = map (\<lambda>i. drop i s) (Split L s @ [length s - 1])"

text \<open>
  The laws: canonical names are fully qualified and \<open>CanonicalName\<close> is idempotent;
  \<open>Split\<close> lists the starts of the labels in order and the root has none; a suffix that
  starts at a label is again a name, with the remaining labels; \<open>CountLabel\<close> is their
  number; \<open>IsSubDomain parent child\<close> compares label-wise from the right, without regard
  to case.
\<close>

definition dns_names :: "dnslib \<Rightarrow> (string \<Rightarrow> bool) \<Rightarrow> bool" where
  "dns_names L valid \<longleftrightarrow>
     canonical L valid ''.'' \<and> Split L ''.'' = [] \<and>
     (\<forall>s. valid s \<longrightarrow> canonical L valid (CanonicalName L s)) \<and>
     (\<forall>s. valid s \<longrightarrow> CountLabel L s = length (Split L (CanonicalName L s))) \<and>
     (\<forall>s. canonical L valid s \<longrightarrow> s \<noteq> [] \<and> last s = CHR ''.'' \<and>
        sorted_wrt (<) (Split L s) \<and> (\<forall>i \<in> set (Split L s). i < length s - 1) \<and>
        (s \<noteq> ''.'' \<longrightarrow> Split L s \<noteq> [] \<and> hd (Split L s) = 0)) \<and>
     (\<forall>s i. canonical L valid s \<longrightarrow> i < length (Split L s) \<longrightarrow>
        canonical L valid (drop (Split L s ! i) s) \<and>
        Split L (drop (Split L s ! i) s) = map (\<lambda>j. j - Split L s ! i) (drop i (Split L s))) \<and>
     (\<forall>p c. valid p \<longrightarrow> valid c \<longrightarrow>
        IsSubDomain L p c = (CanonicalName L p \<in> set (ancestors L (CanonicalName L c))))"

section \<open>Consequences of the laws\<close>

lemma dns_namesD:
  assumes "dns_names L valid"
  shows canonical_root: "canonical L valid ''.''"
    and Split_root: "Split L ''.'' = []"
    and canonical_CanonicalName: "valid s \<Longrightarrow> canonical L valid (CanonicalName L s)"
    and CountLabel_valid: "valid s \<Longrightarrow> CountLabel L s = length (Split L (CanonicalName L s))"
    and canonical_nonempty: "canonical L valid s \<Longrightarrow> s \<noteq> []"
    and canonical_last: "canonical L valid s \<Longrightarrow> last s = CHR ''.''"
    and Split_sorted: "canonical L valid s \<Longrightarrow> sorted_wrt (<) (Split L s)"
    and Split_bound: "canonical L valid s \<Longrightarrow> i \<in> set (Split L s) \<Longrightarrow> i < length s - 1"
    and Split_hd: "canonical L valid s \<Longrightarrow> s \<noteq> ''.'' \<Longrightarrow> Split L s \<noteq> [] \<and> hd (Split L s) = 0"
    and canonical_drop: "canonical L valid s \<Longrightarrow> j < length (Split L s) \<Longrightarrow>
      canonical L valid (drop (Split L s ! j) s)"
    and Split_drop: "canonical L valid s \<Longrightarrow> j < length (Split L s) \<Longrightarrow>
      Split L (drop (Split L s ! j) s) = map (\<lambda>k. k - Split L s ! j) (drop j (Split L s))"
    and IsSubDomain_valid: "valid p \<Longrightarrow> valid c \<Longrightarrow>
      IsSubDomain L p c = (CanonicalName L p \<in> set (ancestors L (CanonicalName L c)))"
  using assms unfolding dns_names_def by blast+

lemma canonical_eq: "canonical L valid s \<Longrightarrow> CanonicalName L s = s"
  by (simp add: canonical_def)

lemma canonical_valid: "canonical L valid s \<Longrightarrow> valid s"
  by (simp add: canonical_def)

lemma CountLabel_canonical:
  "dns_names L valid \<Longrightarrow> canonical L valid s \<Longrightarrow> CountLabel L s = length (Split L s)"
  by (simp add: CountLabel_valid canonical_valid canonical_eq)

lemma length_ancestors: "length (ancestors L s) = Suc (length (Split L s))"
  by (simp add: ancestors_def)

lemma drop_to_root:
  assumes "dns_names L valid" "canonical L valid s"
  shows "drop (length s - 1) s = ''.''"
  using canonical_nonempty [OF assms] canonical_last [OF assms]
  by (cases s rule: rev_cases) simp_all

lemma ancestors_nth:
  "i < length (Split L s) \<Longrightarrow> ancestors L s ! i = drop (Split L s ! i) s"
  by (simp add: ancestors_def nth_append)

lemma ancestors_last:
  assumes "dns_names L valid" "canonical L valid s"
  shows "ancestors L s ! length (Split L s) = ''.''"
  using drop_to_root [OF assms] by (simp add: ancestors_def nth_append)

lemma canonical_ancestor:
  assumes "dns_names L valid" "canonical L valid s" "i \<le> length (Split L s)"
  shows "canonical L valid (ancestors L s ! i)"
proof (cases "i < length (Split L s)")
  case True
  then show ?thesis by (simp add: ancestors_nth canonical_drop [OF assms(1,2)])
next
  case False
  with assms(3) have "i = length (Split L s)" by simp
  then show ?thesis by (simp add: ancestors_last [OF assms(1,2)] canonical_root [OF assms(1)])
qed

text \<open>The ancestors of an ancestor are the rest of the list.\<close>

lemma ancestors_drop:
  assumes "dns_names L valid" "canonical L valid s" "i \<le> length (Split L s)"
  shows "ancestors L (ancestors L s ! i) = drop i (ancestors L s)"
proof (cases "i < length (Split L s)")
  case True
  let ?k = "Split L s ! i"
  have bound: "?k < length s - 1" using Split_bound [OF assms(1,2), of ?k] True by simp
  have le: "\<And>j. j \<in> set (drop i (Split L s)) \<Longrightarrow> ?k \<le> j"
  proof -
    fix j
    assume "j \<in> set (drop i (Split L s))"
    then obtain m where "m < length (drop i (Split L s))" "j = drop i (Split L s) ! m"
      by (auto simp: in_set_conv_nth)
    then have "i + m < length (Split L s)" "j = Split L s ! (i + m)" by simp_all
    then show "?k \<le> j"
      using sorted_wrt_nth_less [OF Split_sorted [OF assms(1,2)], of i "i + m"]
      by (cases m) auto
  qed
  have "ancestors L (drop ?k s) =
      map (\<lambda>j. drop j (drop ?k s)) (map (\<lambda>j. j - ?k) (drop i (Split L s)) @ [length (drop ?k s) - 1])"
    by (simp add: ancestors_def Split_drop [OF assms(1,2) True])
  also have "\<dots> = map (\<lambda>j. drop j s) (drop i (Split L s) @ [length s - 1])"
    using le bound by simp
  also have "\<dots> = drop i (ancestors L s)"
    using True by (simp add: ancestors_def drop_map)
  finally show ?thesis by (simp add: ancestors_nth True)
next
  case False
  with assms(3) have i: "i = length (Split L s)" by simp
  have "ancestors L ''.'' = [''.'']" by (simp add: ancestors_def Split_root [OF assms(1)])
  moreover have "drop i (ancestors L s) = [''.'']"
    using drop_to_root [OF assms(1,2)] by (simp add: ancestors_def i)
  ultimately show ?thesis by (simp add: ancestors_last [OF assms(1,2)] i)
qed

lemma CountLabel_ancestor:
  assumes "dns_names L valid" "canonical L valid s" "i \<le> length (Split L s)"
  shows "CountLabel L (ancestors L s ! i) = length (Split L s) - i"
proof -
  have "Suc (length (Split L (ancestors L s ! i))) = length (drop i (ancestors L s))"
    unfolding ancestors_drop [OF assms, symmetric] by (simp add: length_ancestors)
  with assms show ?thesis
    by (simp add: CountLabel_canonical [OF assms(1) canonical_ancestor [OF assms]] length_ancestors)
qed

lemma ancestors_self:
  assumes "dns_names L valid" "canonical L valid s"
  shows "ancestors L s ! 0 = s"
proof (cases "s = ''.''")
  case True
  then show ?thesis by (simp add: ancestors_def Split_root [OF assms(1)])
next
  case False
  with Split_hd [OF assms] have "0 < length (Split L s)" "Split L s ! 0 = 0"
    using hd_conv_nth [of "Split L s"] by auto
  then show ?thesis by (simp add: ancestors_nth)
qed

lemma distinct_ancestors:
  assumes "dns_names L valid" "canonical L valid s"
  shows "distinct (ancestors L s)"
  unfolding distinct_conv_nth
proof (intro allI impI)
  fix i j
  assume "i < length (ancestors L s)" "j < length (ancestors L s)" "i \<noteq> j"
  then show "ancestors L s ! i \<noteq> ancestors L s ! j"
    using CountLabel_ancestor [OF assms, of i] CountLabel_ancestor [OF assms, of j]
    by (auto simp: length_ancestors)
qed

section \<open>The subdomain order\<close>

lemma IsSubDomain_canonical:
  assumes "dns_names L valid" "canonical L valid p" "canonical L valid c"
  shows "IsSubDomain L p c \<longleftrightarrow> p \<in> set (ancestors L c)"
  using assms by (simp add: IsSubDomain_valid canonical_valid canonical_eq)

lemma IsSubDomain_CountLabel:
  assumes "dns_names L valid" "valid p" "valid c" "IsSubDomain L p c"
  shows "CountLabel L p \<le> CountLabel L c"
proof -
  let ?c = "CanonicalName L c"
  have c: "canonical L valid ?c" using assms by (simp add: canonical_CanonicalName)
  from assms obtain i where i: "i < length (ancestors L ?c)" "CanonicalName L p = ancestors L ?c ! i"
    by (auto simp: IsSubDomain_valid in_set_conv_nth)
  have "CountLabel L p = CountLabel L (CanonicalName L p)"
    using canonical_CanonicalName [OF assms(1,2)] assms(1,2)
    by (simp add: CountLabel_valid [OF assms(1)] CountLabel_canonical)
  with i CountLabel_ancestor [OF assms(1) c, of i] show ?thesis
    using CountLabel_valid [OF assms(1,3)] by (simp add: length_ancestors)
qed

text \<open>Two ancestors of one name with equally many labels are the same name.\<close>

lemma ancestor_by_CountLabel:
  assumes "dns_names L valid" "canonical L valid c" "p \<in> set (ancestors L c)"
  shows "p = ancestors L c ! (length (Split L c) - CountLabel L p)" and "CountLabel L p \<le> length (Split L c)"
proof -
  from assms(3) obtain i where "i < length (ancestors L c)" "p = ancestors L c ! i"
    by (auto simp: in_set_conv_nth)
  then have i: "i \<le> length (Split L c)" "p = ancestors L c ! i"
    by (simp_all add: length_ancestors)
  with CountLabel_ancestor [OF assms(1,2) i(1)]
  show "p = ancestors L c ! (length (Split L c) - CountLabel L p)" "CountLabel L p \<le> length (Split L c)"
    by simp_all
qed

end
