(* ===== verification/Doe_Nsec3.thy ===== *)
theory Doe_Nsec3
  imports Doe_Nsec Dns_Names
begin

text \<open>
  dnssec/doe/nsec3.go: denial of existence with NSEC3 records. Whether a record matches or
  covers a (hashed) name is the library's \<open>Match\<close> and \<open>Cover\<close>. The soundness lemma
  takes a set \<open>Z\<close> of existing names, closed under ancestors within the zone, that the
  records speak truthfully of.
\<close>

section \<open>dnssec/doe/nsec3.go\<close>

fun wildcard_cover_loop :: "dnslib \<Rightarrow> nsec3 list \<Rightarrow> string \<Rightarrow> bool \<Rightarrow> bool" where
  "wildcard_cover_loop L [] w wildcardProof = wildcardProof"
| "wildcard_cover_loop L (n # ns) w wildcardProof =
     (if Match L n w then False
      else wildcard_cover_loop L ns w (if Cover L n w then True else wildcardProof))"

definition nsec3_verifyWildcardCovered :: "dnslib \<Rightarrow> DenialOfExistenceNSEC3 \<Rightarrow> string \<Rightarrow> bool" where
  "nsec3_verifyWildcardCovered L doe closestEncloser =
     wildcard_cover_loop L (nsec3_records doe) (''*.'' @ closestEncloser) False"

definition verifyWildcardMatched :: "dnslib \<Rightarrow> DenialOfExistenceNSEC3 \<Rightarrow> string \<Rightarrow> bool" where
  "verifyWildcardMatched L doe closestEncloser =
     list_ex (\<lambda>n. Match L n (''*.'' @ closestEncloser)) (nsec3_records doe)"

fun next_closer_loop :: "dnslib \<Rightarrow> nsec3 list \<Rightarrow> string \<Rightarrow> bool \<Rightarrow> bool \<Rightarrow> bool \<times> bool" where
  "next_closer_loop L [] ncn optedOut nextCloserNameProof = (optedOut, nextCloserNameProof)"
| "next_closer_loop L (n # ns) ncn optedOut nextCloserNameProof =
     (if Match L n ncn then (False, False)
      else if Cover L n ncn then next_closer_loop L ns ncn (optedOut \<or> nsec3_Flags n = 1) True
      else next_closer_loop L ns ncn optedOut nextCloserNameProof)"

definition verifyNextCloserNameCovered :: "dnslib \<Rightarrow> DenialOfExistenceNSEC3 \<Rightarrow> string \<Rightarrow> bool \<times> bool" where
  "verifyNextCloserNameCovered L doe ncn = next_closer_loop L (nsec3_records doe) ncn False False"

fun nsec3_bitmap_loop :: "dnslib \<Rightarrow> nsec3 list \<Rightarrow> string \<Rightarrow> u16 list \<Rightarrow> bool \<Rightarrow> bool \<times> bool" where
  "nsec3_bitmap_loop L [] name types nameSeen = (nameSeen, False)"
| "nsec3_bitmap_loop L (n # ns) name types nameSeen =
     (if \<not> Match L n name then nsec3_bitmap_loop L ns name types nameSeen
      else if list_ex (\<lambda>t. t \<in> set (nsec3_TypeBitMap n)) types then (True, True)
      else nsec3_bitmap_loop L ns name types True)"

definition nsec3_TypeBitMapContainsAnyOf ::
  "dnslib \<Rightarrow> DenialOfExistenceNSEC3 \<Rightarrow> string \<Rightarrow> u16 list \<Rightarrow> bool \<times> bool" where
  "nsec3_TypeBitMapContainsAnyOf L doe name types = nsec3_bitmap_loop L (nsec3_records doe) name types False"

text \<open>
  The inner loop of \<open>FindClosestEncloser\<close>, over the label starts of the query name, for one
  NSEC3 record. A record that matches but is not eligible skips the assignment to
  \<open>last\<close> (here \<open>prev\<close>), as the source's \<^verbatim>\<open>continue\<close> does.
\<close>

definition eligible_encloser :: "nsec3 \<Rightarrow> bool" where
  "eligible_encloser n \<longleftrightarrow>
     \<not> TypeDNAME \<in> set (nsec3_TypeBitMap n) \<and>
     \<not> (TypeNS \<in> set (nsec3_TypeBitMap n) \<and> \<not> TypeSOA \<in> set (nsec3_TypeBitMap n))"

fun encloser_scan ::
  "dnslib \<Rightarrow> string \<Rightarrow> nsec3 \<Rightarrow> string \<Rightarrow> nat \<Rightarrow> nat list \<Rightarrow> (string \<times> string) option" where
  "encloser_scan L zone n qname prev [] = None"
| "encloser_scan L zone n qname prev (i # is) =
     (let name = drop i qname in
      if \<not> IsSubDomain L zone name then None
      else if Match L n name then
        (if \<not> eligible_encloser n then encloser_scan L zone n qname prev is
         else Some (name, drop prev qname))
      else encloser_scan L zone n qname i is)"

fun contenders :: "dnslib \<Rightarrow> string \<Rightarrow> nsec3 list \<Rightarrow> string \<Rightarrow> (string \<times> string) list" where
  "contenders L zone [] qname = []"
| "contenders L zone (n # ns) qname =
     (case encloser_scan L zone n qname 0 (Split L qname) of
        Some p \<Rightarrow> p # contenders L zone ns qname
      | None \<Rightarrow> contenders L zone ns qname)"

definition longer_encloser :: "string \<times> string \<Rightarrow> string \<times> string \<Rightarrow> string \<times> string" where
  "longer_encloser d contender = (if length (fst d) > length (fst contender) then d else contender)"

definition FindClosestEncloser :: "dnslib \<Rightarrow> DenialOfExistenceNSEC3 \<Rightarrow> string \<Rightarrow> (string \<times> string) option" where
  "FindClosestEncloser L doe qname =
     (case contenders L (nsec3_zone doe) (nsec3_records doe) qname of
        [] \<Rightarrow> None
      | c # cs \<Rightarrow> Some (fold longer_encloser cs c))"

definition PerformClosestEncloserProof ::
  "dnslib \<Rightarrow> DenialOfExistenceNSEC3 \<Rightarrow> string \<Rightarrow> bool \<times> bool \<times> bool \<times> bool" where
  "PerformClosestEncloserProof L doe name =
     (if nsec3_Empty doe then (False, False, False, False)
      else case FindClosestEncloser L doe name of
             None \<Rightarrow> (False, False, False, False)
           | Some (closestEncloser, nextCloserName) \<Rightarrow>
               (let wildcardProof = nsec3_verifyWildcardCovered L doe closestEncloser;
                    (optedOut, nextCloserNameProof) = verifyNextCloserNameCovered L doe nextCloserName
                in (optedOut, True, nextCloserNameProof, wildcardProof)))"

text \<open>
  \<open>labels\<close> is the Labels field of the RRSIG. The index \<^verbatim>\<open>len - labels\<close> is an
  \<^verbatim>\<open>int\<close> and may be out of range at either end.
\<close>

definition go_nth_int :: "'a list \<Rightarrow> int \<Rightarrow> 'a go" where
  "go_nth_int xs i = (if 0 \<le> i then go_nth xs (nat i) else Inl IndexOutOfRange)"

definition nsec3_PerformExpandedWildcardProof ::
  "dnslib \<Rightarrow> DenialOfExistenceNSEC3 \<Rightarrow> string \<Rightarrow> u8 \<Rightarrow> bool go" where
  "nsec3_PerformExpandedWildcardProof L doe sigName labels =
     (let labelIndexs = Split L sigName;
          closestEncloserIndex = int (length labelIndexs) - uint labels
      in bindG (go_nth_int labelIndexs closestEncloserIndex) (\<lambda>i.
         bindG (go_nth_int labelIndexs (closestEncloserIndex - 1)) (\<lambda>j.
           let closestEncloser = drop i sigName;
               nextCloserName = drop j sigName;
               wildcardProof = nsec3_verifyWildcardCovered L doe closestEncloser \<or>
                               verifyWildcardMatched L doe closestEncloser;
               nextCloserNameProof = snd (verifyNextCloserNameCovered L doe nextCloserName)
           in Inr (\<not> wildcardProof \<and> nextCloserNameProof))))"

section \<open>Specification vocabulary\<close>

text \<open>
  The records are truthful about the set \<open>Z\<close> of names that exist in the zone: a record
  that matches a name of the zone proves that it exists, a record that covers it proves that
  it does not. A name exists when a name below it does.
\<close>

definition nsec3_truthful :: "dnslib \<Rightarrow> string \<Rightarrow> string set \<Rightarrow> nsec3 list \<Rightarrow> bool" where
  "nsec3_truthful L zone Z recs \<longleftrightarrow>
     (\<forall>n \<in> set recs. \<forall>s. IsSubDomain L zone s \<longrightarrow>
        (Match L n s \<longrightarrow> s \<in> Z) \<and> (Cover L n s \<longrightarrow> s \<notin> Z)) \<and>
     (\<forall>z \<in> Z. \<forall>a \<in> set (ancestors L z). IsSubDomain L zone a \<longrightarrow> a \<in> Z)"

section \<open>The loops\<close>

lemma wildcard_cover_loop_iff:
  "wildcard_cover_loop L ns w acc \<longleftrightarrow>
     (\<forall>n \<in> set ns. \<not> Match L n w) \<and> (acc \<or> (\<exists>n \<in> set ns. Cover L n w))"
  by (induction ns arbitrary: acc) auto

lemma next_closer_loop_eq:
  "next_closer_loop L ns ncn oo p =
     (if \<exists>n \<in> set ns. Match L n ncn then (False, False)
      else (oo \<or> (\<exists>n \<in> set ns. Cover L n ncn \<and> nsec3_Flags n = 1), p \<or> (\<exists>n \<in> set ns. Cover L n ncn)))"
  by (induction ns arbitrary: oo p) auto

lemma nsec3_bitmap_loop_spec:
  "fst (nsec3_bitmap_loop L ns name types seen) \<longleftrightarrow> seen \<or> (\<exists>n \<in> set ns. Match L n name)"
  "snd (nsec3_bitmap_loop L ns name types seen) \<longleftrightarrow>
     (\<exists>n \<in> set ns. Match L n name \<and> (\<exists>t \<in> set types. t \<in> set (nsec3_TypeBitMap n)))"
  by (induction ns arbitrary: seen) (auto simp: list_ex_iff)

interpretation nsec3_bits: bitmap_lookup "nsec3_records doe" "Match L" nsec3_TypeBitMap
  "nsec3_TypeBitMapContainsAnyOf L doe" for L doe
  by unfold_locales (simp_all add: nsec3_TypeBitMapContainsAnyOf_def nsec3_bitmap_loop_spec)

section \<open>The closest encloser\<close>

lemma encloser_scan_spec:
  assumes "encloser_scan L zone n qname prev is = Some (ce, ncn)"
  shows "\<exists>k < length is. ce = drop (is ! k) qname \<and> Match L n ce \<and> eligible_encloser n \<and>
    (\<forall>j \<le> k. IsSubDomain L zone (drop (is ! j) qname)) \<and>
    (\<exists>l \<in> insert prev (set (take k is)). ncn = drop l qname) \<and>
    (0 < k \<and> \<not> Match L n (drop (is ! (k - 1)) qname) \<longrightarrow> ncn = drop (is ! (k - 1)) qname) \<and>
    (k = 0 \<longrightarrow> ncn = drop prev qname)"
  using assms
proof (induction "is" arbitrary: prev)
  case (Cons i "is")
  let ?name = "drop i qname"
  from Cons.prems have sub: "IsSubDomain L zone ?name" by (auto simp: Let_def split: if_splits)
  show ?case
  proof (cases "Match L n ?name \<and> eligible_encloser n")
    case True
    with Cons.prems sub have "ce = ?name" "ncn = drop prev qname" by (auto simp: Let_def)
    with True sub show ?thesis by (intro exI [of _ 0]) simp
  next
    case False
    define prev' where "prev' = (if Match L n ?name then prev else i)"
    from False Cons.prems sub have "encloser_scan L zone n qname prev' is = Some (ce, ncn)"
      by (auto simp: Let_def prev'_def split: if_splits)
    from Cons.IH [OF this] obtain k where k: "k < length is" "ce = drop (is ! k) qname"
      "Match L n ce" "eligible_encloser n" "\<forall>j \<le> k. IsSubDomain L zone (drop (is ! j) qname)"
      "\<exists>l \<in> insert prev' (set (take k is)). ncn = drop l qname"
      "0 < k \<and> \<not> Match L n (drop (is ! (k - 1)) qname) \<longrightarrow> ncn = drop (is ! (k - 1)) qname"
      "k = 0 \<longrightarrow> ncn = drop prev' qname" by blast
    have "\<exists>l \<in> insert prev (set (take (Suc k) (i # is))). ncn = drop l qname"
      using k(6) by (auto simp: prev'_def split: if_splits)
    moreover have "\<forall>j \<le> Suc k. IsSubDomain L zone (drop ((i # is) ! j) qname)"
      using k(5) sub by (simp add: nth_Cons split: nat.splits)
    moreover have "\<not> Match L n (drop ((i # is) ! k) qname) \<longrightarrow> ncn = drop ((i # is) ! k) qname"
      using k(7,8) by (cases k) (auto simp: prev'_def)
    ultimately show ?thesis using k(1-4) by (intro exI [of _ "Suc k"]) auto
  qed
qed simp

lemma contenders_mem:
  "p \<in> set (contenders L zone ns qname) \<longleftrightarrow>
     (\<exists>n \<in> set ns. encloser_scan L zone n qname 0 (Split L qname) = Some p)"
  by (induction ns) (auto split: option.splits)

lemma fold_longest:
  "fold longer_encloser cs c \<in> insert c (set cs) \<and>
     (\<forall>d \<in> insert c (set cs). length (fst d) \<le> length (fst (fold longer_encloser cs c)))"
proof (induction cs arbitrary: c)
  case (Cons d cs)
  let ?c = "longer_encloser d c"
  have "length (fst c) \<le> length (fst ?c)" "length (fst d) \<le> length (fst ?c)" "?c \<in> {c, d}"
    by (auto simp: longer_encloser_def)
  with Cons [of ?c] show ?case by (auto intro: le_trans)
qed simp

lemma FindClosestEncloser_Some:
  assumes "FindClosestEncloser L doe qname = Some (ce, ncn)"
  shows "(ce, ncn) \<in> set (contenders L (nsec3_zone doe) (nsec3_records doe) qname)"
    and "\<forall>d \<in> set (contenders L (nsec3_zone doe) (nsec3_records doe) qname). length (fst d) \<le> length ce"
proof -
  from assms obtain c cs where
    c: "contenders L (nsec3_zone doe) (nsec3_records doe) qname = c # cs"
    and p: "fold longer_encloser cs c = (ce, ncn)"
    by (auto simp: FindClosestEncloser_def split: list.splits)
  from fold_longest [of cs c] show "(ce, ncn) \<in> set (contenders L (nsec3_zone doe) (nsec3_records doe) qname)"
    and "\<forall>d \<in> set (contenders L (nsec3_zone doe) (nsec3_records doe) qname). length (fst d) \<le> length ce"
    unfolding p c by auto
qed

lemma FindClosestEncloser_None:
  "FindClosestEncloser L doe qname = None \<longleftrightarrow>
     contenders L (nsec3_zone doe) (nsec3_records doe) qname = []"
  by (auto simp: FindClosestEncloser_def split: list.splits)

text \<open>The closest encloser and the next closer name are ancestors of the query name.\<close>

lemma closest_encloser_ancestors:
  assumes names: "dns_names L valid" and q: "canonical L valid qname"
    and f: "FindClosestEncloser L doe qname = Some (ce, ncn)"
  obtains n where "n \<in> set (nsec3_records doe)" "Match L n ce" "eligible_encloser n"
    "ce \<in> set (ancestors L qname)" "ncn \<in> set (ancestors L qname)"
    "IsSubDomain L (nsec3_zone doe) ce" "IsSubDomain L (nsec3_zone doe) ncn"
proof -
  from FindClosestEncloser_Some(1) [OF f] obtain n where n: "n \<in> set (nsec3_records doe)"
    and scan: "encloser_scan L (nsec3_zone doe) n qname 0 (Split L qname) = Some (ce, ncn)"
    by (auto simp: contenders_mem)
  from encloser_scan_spec [OF scan] obtain k l where k: "k < length (Split L qname)"
    "ce = drop (Split L qname ! k) qname" "Match L n ce" "eligible_encloser n"
    "\<forall>j \<le> k. IsSubDomain L (nsec3_zone doe) (drop (Split L qname ! j) qname)"
    and l: "l \<in> insert 0 (set (take k (Split L qname)))" "ncn = drop l qname" by blast
  from k(1) have "qname \<noteq> ''.''" using Split_root [OF names] by auto
  then have "Split L qname ! 0 = 0"
    using Split_hd [OF names q] by (metis hd_conv_nth)
  with l(1) k(1) obtain j where j: "j \<le> k" "l = Split L qname ! j"
    by (auto simp: in_set_conv_nth) (metis le0, metis less_imp_le)
  have "ce \<in> set (ancestors L qname)" "ncn \<in> set (ancestors L qname)"
    using k(1,2) j l(2) by (auto simp: ancestors_def)
  with n k j l(2) that show thesis by blast
qed

lemma closest_encloser_sound:
  assumes names: "dns_names L valid" and q: "canonical L valid qname"
    and t: "nsec3_truthful L (nsec3_zone doe) Z (nsec3_records doe)"
    and p: "PerformClosestEncloserProof L doe qname = (oo, True, True, wc)"
  obtains ce ncn where "FindClosestEncloser L doe qname = Some (ce, ncn)"
    "ce \<in> Z" "ncn \<notin> Z" "qname \<notin> Z"
    "wc \<Longrightarrow> IsSubDomain L (nsec3_zone doe) (''*.'' @ ce) \<Longrightarrow> ''*.'' @ ce \<notin> Z"
proof -
  from p obtain ce ncn where f: "FindClosestEncloser L doe qname = Some (ce, ncn)"
    and wc: "wc = nsec3_verifyWildcardCovered L doe ce"
    and nc: "snd (verifyNextCloserNameCovered L doe ncn)"
    by (auto simp: PerformClosestEncloserProof_def Let_def split: if_splits option.splits prod.splits)
  from closest_encloser_ancestors [OF names q f] obtain n where
    n: "n \<in> set (nsec3_records doe)" "Match L n ce" and anc: "ncn \<in> set (ancestors L qname)"
    and sub: "IsSubDomain L (nsec3_zone doe) ce" "IsSubDomain L (nsec3_zone doe) ncn" by metis
  from t n sub(1) have ce: "ce \<in> Z" by (auto simp: nsec3_truthful_def)
  from nc obtain m where "m \<in> set (nsec3_records doe)" "Cover L m ncn"
    by (auto simp: verifyNextCloserNameCovered_def next_closer_loop_eq split: if_splits)
  with t sub(2) have ncn: "ncn \<notin> Z" by (auto simp: nsec3_truthful_def)
  with t anc sub(2) have "qname \<notin> Z" unfolding nsec3_truthful_def by blast
  moreover have "''*.'' @ ce \<notin> Z" if "wc" "IsSubDomain L (nsec3_zone doe) (''*.'' @ ce)"
    using that t wc by (auto simp: nsec3_verifyWildcardCovered_def wildcard_cover_loop_iff nsec3_truthful_def)
  ultimately show thesis using that f ce ncn by blast
qed

text \<open>Where the wildcard proof's indexes are in range.\<close>

lemma expanded_wildcard_returns:
  "returns (nsec3_PerformExpandedWildcardProof L doe name labels) \<longleftrightarrow>
     0 < labels \<and> unat labels < length (Split L name)"
proof -
  have nonneg: "0 \<le> uint labels" by simp
  have unat: "int (unat labels) = uint labels" by simp
  have lt: "unat labels < length (Split L name) \<longleftrightarrow> uint labels < int (length (Split L name))"
    by (simp only: unat [symmetric] of_nat_less_iff)
  have pos: "0 < labels \<longleftrightarrow> 0 < uint labels" by (simp add: word_less_def)
  show ?thesis
    unfolding nsec3_PerformExpandedWildcardProof_def go_nth_int_def go_nth_def Let_def pos lt
    using nonneg by (auto simp: returns_def split: if_splits)
qed

end
