(* ===== verification/Dnssec_Verify.thy ===== *)
theory Dnssec_Verify
  imports Dnssec_Signatures Doe_Nsec3
begin

text \<open>
  dnssec/verify.go, verify_dnskey.go, verify_rrset.go, verify_delegating.go,
  verify_positive.go and verify_negative.go: the verification of one response of one zone
  against the DS records of its parent. The functions of the source mutate the \<open>result\<close>
  they are given; here they return it. The \<open>verifier\<close> struct of the source holds the
  five verification functions so that tests can replace them; \<open>verify\<close> calls the real
  ones. \<open>clk\<close> gives the clock readings of the three \<open>authenticate\<close> calls.
\<close>

section \<open>dnssec/verify_dnskey.go\<close>

text \<open>\<^verbatim>\<open>strings.EqualFold\<close> on the ASCII strings that digests are.\<close>

definition ascii_lower :: "char \<Rightarrow> char" where
  "ascii_lower c = (if CHR ''A'' \<le> c \<and> c \<le> CHR ''Z'' then char_of (of_char c + 32 :: nat) else c)"

definition EqualFold :: "string \<Rightarrow> string \<Rightarrow> bool" where
  "EqualFold s t \<longleftrightarrow> map ascii_lower s = map ascii_lower t"

definition ds_matches :: "dnslib \<Rightarrow> ds \<Rightarrow> dnskey \<Rightarrow> bool go" where
  "ds_matches L d k =
     (if ds_Algorithm d = dk_Algorithm k \<and> ds_KeyTag d = KeyTag L k then
        (case ToDS L k (DigestType d) of
           None \<Rightarrow> Inl NilDereference
         | Some x \<Rightarrow> Inr (EqualFold (Digest d) (Digest x)))
      else Inr False)"

fun find_key :: "dnslib \<Rightarrow> ds \<Rightarrow> dnskey list \<Rightarrow> dnskey option go" where
  "find_key L d [] = Inr None"
| "find_key L d (k # ks) =
     bindG (ds_matches L d k) (\<lambda>m. if m then Inr (Some k) else find_key L d ks)"

fun keySigningKeys :: "dnslib \<Rightarrow> ds list \<Rightarrow> dnskey list \<Rightarrow> dnskey list go" where
  "keySigningKeys L [] zoneKeys = Inr []"
| "keySigningKeys L (d # ds) zoneKeys =
     bindG (find_key L d zoneKeys) (\<lambda>ko.
     bindG (keySigningKeys L ds zoneKeys) (\<lambda>ks.
       Inr (case ko of Some k \<Rightarrow> k # ks | None \<Rightarrow> ks)))"

type_synonym step_result = "(AuthenticationResult \<times> goerr option \<times> result) go"

definition verifyDNSKEYs ::
  "dnslib \<Rightarrow> dnssec_cfg \<Rightarrow> sigclock \<Rightarrow> result \<Rightarrow> rr list \<Rightarrow> ds list \<Rightarrow> step_result" where
  "verifyDNSKEYs L cfg clk r keys dsRecordsFromParent =
     (let zoneKeys = extractRecords as_DNSKEY keys in
      if length zoneKeys = 0 then Inr (Insecure, Some (DErr ErrKeysNotFound), r)
      else
        bindG (keySigningKeys L dsRecordsFromParent zoneKeys) (\<lambda>ksks.
          if length ksks = 0 then Inr (Insecure, Some (DErr ErrKeysNotFound), r)
          else
            bindG (authenticate L clk (zName (r_zone r)) keys ksks answerSection) (\<lambda>(keySignatures, err).
              case err of
                Some e \<Rightarrow> Inr (Bogus, Some (Wrap [DErr ErrBogusResultFound, e]), r)
              | None \<Rightarrow>
                  let r = r\<lparr>r_keys := keySignatures\<rparr> in
                  (case signatures_Verify cfg keySignatures of
                     Some e \<Rightarrow> Inr (Bogus, Some (Wrap [DErr ErrBogusResultFound, e]), r)
                   | None \<Rightarrow> Inr (Unknown, None, r)))))"

section \<open>dnssec/verify_rrset.go\<close>

definition verifyRRSETs ::
  "dnslib \<Rightarrow> dnssec_cfg \<Rightarrow> sigclock \<Rightarrow> sigclock \<Rightarrow> result \<Rightarrow> dnskey list \<Rightarrow> step_result" where
  "verifyRRSETs L cfg clk_an clk_ns r keys =
     bindG (authenticate L clk_an (zName (r_zone r)) (Answer (r_msg r)) keys answerSection) (\<lambda>(answerSignatures, err).
       case err of
         Some e \<Rightarrow> Inr (Bogus, Some (Wrap [DErr ErrBogusResultFound, e]), r)
       | None \<Rightarrow>
           bindG (authenticate L clk_ns (zName (r_zone r)) (Ns (r_msg r)) keys authoritySection) (\<lambda>(authoritySignatures, err).
             case err of
               Some e \<Rightarrow> Inr (Bogus, Some (Wrap [DErr ErrBogusResultFound, e]), r)
             | None \<Rightarrow>
                 (case signatures_Verify cfg (answerSignatures @ authoritySignatures) of
                    Some e \<Rightarrow> Inr (Bogus, Some (Wrap [DErr ErrBogusResultFound, e]), r)
                  | None \<Rightarrow>
                      Inr (Unknown, None,
                           r\<lparr>r_answer := answerSignatures, r_authority := authoritySignatures\<rparr>))))"

section \<open>dnssec/verify_delegating.go\<close>

text \<open>
  Both \<open>validateDelegatingResponse\<close> and \<open>validateNegativeResponse\<close> record the first denial
  of existence they find and return Secure, or return Bogus when there is none.
\<close>

definition conclude_doe ::
  "DenialOfExistenceState option \<Rightarrow> result \<Rightarrow> AuthenticationResult \<times> goerr option \<times> result" where
  "conclude_doe doe r =
     (case doe of
        Some d \<Rightarrow> (Secure, None, r\<lparr>denialOfExistence := d\<rparr>)
      | None \<Rightarrow> (Bogus, Some (DErr ErrBogusDoeRecordsNotFound), r))"

text \<open>The checks of the NSEC and the NSEC3 records, in the source's order.\<close>

definition delegation_doe ::
  "dnslib \<Rightarrow> DenialOfExistenceNSEC \<Rightarrow> DenialOfExistenceNSEC3 \<Rightarrow> string \<Rightarrow> DenialOfExistenceState option" where
  "delegation_doe L nsec nsec3 delegationName =
     (if \<not> nsec_Empty nsec \<and>
         nsec_TypeBitMapContainsAnyOf L nsec delegationName [TypeNS] = (True, True) \<and>
         nsec_TypeBitMapContainsAnyOf L nsec delegationName [TypeCNAME, TypeDS, TypeSOA] = (True, False)
      then Some NsecMissingDS
      else if \<not> nsec3_Empty nsec3 \<and>
         nsec3_TypeBitMapContainsAnyOf L nsec3 delegationName [TypeNS] = (True, True) \<and>
         nsec3_TypeBitMapContainsAnyOf L nsec3 delegationName [TypeCNAME, TypeDS, TypeSOA] = (True, False)
      then Some Nsec3MissingDS
      else if \<not> nsec3_Empty nsec3 \<and> fst (PerformClosestEncloserProof L nsec3 delegationName)
      then Some Nsec3OptOut
      else None)"

definition validateDelegatingResponse :: "dnslib \<Rightarrow> result \<Rightarrow> step_result" where
  "validateDelegatingResponse L r =
     (let r = r\<lparr>dsRecords := extractDSRecords (r_authority r)\<rparr> in
      if length (dsRecords r) > 0 then Inr (Secure, None, r)
      else
        let nsRecords = extractRecordsOfType (Ns (r_msg r)) TypeNS in
        if \<not> recordsHaveTheSameOwner nsRecords then
          Inr (Bogus, Some (Wrap [DErr ErrNSRecordsHaveMismatchingOwners]), r)
        else
          bindG (go_nth nsRecords 0) (\<lambda>ns0.
            let delegationName = rr_name ns0;
                nsec = NewDenialOfExistenceNSEC (zName (r_zone r)) (extractNSECRecords (r_authority r));
                nsec3 = NewDenialOfExistenceNSEC3 (zName (r_zone r)) (extractNSEC3Records (r_authority r))
            in Inr (conclude_doe (delegation_doe L nsec nsec3 delegationName) r)))"

section \<open>dnssec/verify_positive.go\<close>

text \<open>The two proofs that are tried for one wildcard signature.\<close>

definition nsec_wildcard :: "dnslib \<Rightarrow> DenialOfExistenceNSEC \<Rightarrow> result \<Rightarrow> bool go" where
  "nsec_wildcard L nsec r =
     (if \<not> nsec_Empty nsec then
        bindG (go_nth (Question (r_msg r)) 0) (\<lambda>q.
          Inr (nsec_PerformExpandedWildcardProof L nsec (qName q)))
      else Inr False)"

definition nsec3_wildcard :: "dnslib \<Rightarrow> DenialOfExistenceNSEC3 \<Rightarrow> signature \<Rightarrow> bool go" where
  "nsec3_wildcard L nsec3 sig =
     (if \<not> nsec3_Empty nsec3 then
        nsec3_PerformExpandedWildcardProof L nsec3 (s_name sig) (Labels (s_rrsig sig))
      else Inr False)"

definition mark :: "bool \<Rightarrow> DenialOfExistenceState \<Rightarrow> result \<Rightarrow> result" where
  "mark b d r = (if b then r\<lparr>denialOfExistence := d\<rparr> else r)"

text \<open>
  The loop over the answer signatures. Its state is the result, and whether a wildcard
  signature was seen and verified; \<open>Inr (Inl _)\<close> is the early return.
\<close>

fun positive_loop ::
  "dnslib \<Rightarrow> DenialOfExistenceNSEC \<Rightarrow> DenialOfExistenceNSEC3 \<Rightarrow> signatures \<Rightarrow> result \<Rightarrow> bool \<Rightarrow> bool \<Rightarrow>
     ((AuthenticationResult \<times> goerr option \<times> result) + (result \<times> bool \<times> bool)) go" where
  "positive_loop L nsec nsec3 [] r seen ver = Inr (Inr (r, seen, ver))"
| "positive_loop L nsec nsec3 (sig # sigs) r seen ver =
     (if \<not> wildcard sig then positive_loop L nsec nsec3 sigs r seen ver
      else if seen then Inr (Inl (Bogus, Some (DErr ErrMultipleWildcardSignatures), r))
      else
        bindG (nsec_wildcard L nsec r) (\<lambda>nsecVerified.
        bindG (nsec3_wildcard L nsec3 sig) (\<lambda>nsec3Verified.
          positive_loop L nsec nsec3 sigs
            (mark nsec3Verified Nsec3Wildcard (mark nsecVerified NsecWildcard r))
            True (ver \<or> nsecVerified \<or> nsec3Verified))))"

fun conclude_positive ::
  "(AuthenticationResult \<times> goerr option \<times> result) + (result \<times> bool \<times> bool) \<Rightarrow>
     AuthenticationResult \<times> goerr option \<times> result" where
  "conclude_positive (Inl ret) = ret"
| "conclude_positive (Inr (r, seen, ver)) =
     (if \<not> seen \<or> ver then (Secure, None, r)
      else (Bogus, Some (DErr ErrBogusWildcardDoeNotFound), r))"

definition validatePositiveResponse :: "dnslib \<Rightarrow> result \<Rightarrow> step_result" where
  "validatePositiveResponse L r =
     (let r = r\<lparr>dsRecords := extractDSRecords (r_answer r)\<rparr>;
          nsec = NewDenialOfExistenceNSEC (zName (r_zone r)) (extractNSECRecords (r_authority r));
          nsec3 = NewDenialOfExistenceNSEC3 (zName (r_zone r)) (extractNSEC3Records (r_authority r))
      in bindG (positive_loop L nsec nsec3 (r_answer r) r False False)
           (\<lambda>out. Inr (conclude_positive out)))"

section \<open>dnssec/verify_negative.go\<close>

text \<open>The part of \<open>validateNegativeResponse\<close> that uses the NSEC3 records.\<close>

definition negative_nsec3 :: "dnslib \<Rightarrow> DenialOfExistenceNSEC3 \<Rightarrow> string \<Rightarrow> u16 \<Rightarrow> DenialOfExistenceState option" where
  "negative_nsec3 L nsec3 qname qtype =
     (if nsec3_TypeBitMapContainsAnyOf L nsec3 qname [TypeCNAME, qtype] = (True, False)
      then Some Nsec3NoData
      else
        let (optout, closestEncloserProof, nextCloserNameProof, wildcardProof) =
              PerformClosestEncloserProof L nsec3 qname
        in if optout \<and> qtype = TypeDS then Some Nsec3OptOut
           else
             let wildcardProof =
                   (if closestEncloserProof \<and> nextCloserNameProof \<and> \<not> wildcardProof then
                      (case FindClosestEncloser L nsec3 qname of
                         Some (closestEncloser, _) \<Rightarrow>
                           (if nsec3_TypeBitMapContainsAnyOf L nsec3 (''*.'' @ closestEncloser)
                                 [TypeCNAME, qtype] = (True, False)
                            then True else wildcardProof)
                       | None \<Rightarrow> wildcardProof)
                    else wildcardProof)
             in if closestEncloserProof \<and> nextCloserNameProof \<and> wildcardProof then Some Nsec3NxDomain
                else None)"

definition negative_doe ::
  "dnslib \<Rightarrow> DenialOfExistenceNSEC \<Rightarrow> DenialOfExistenceNSEC3 \<Rightarrow> string \<Rightarrow> u16 \<Rightarrow> DenialOfExistenceState option" where
  "negative_doe L nsec nsec3 qname qtype =
     (if \<not> nsec_Empty nsec \<and> nsec_TypeBitMapContainsAnyOf L nsec qname [TypeCNAME, qtype] = (True, False)
      then Some NsecNoData
      else if \<not> nsec_Empty nsec \<and> PerformQNameDoesNotExistProof L nsec qname
      then Some NsecNxDomain
      else if \<not> nsec3_Empty nsec3 then negative_nsec3 L nsec3 qname qtype
      else None)"

definition validateNegativeResponse :: "dnslib \<Rightarrow> result \<Rightarrow> step_result" where
  "validateNegativeResponse L r =
     bindG (go_nth (Question (r_msg r)) 0) (\<lambda>q.
       let qname = qName q;
           qtype = Qtype q;
           nsec = NewDenialOfExistenceNSEC (zName (r_zone r)) (extractNSECRecords (r_authority r));
           nsec3 = NewDenialOfExistenceNSEC3 (zName (r_zone r)) (extractNSEC3Records (r_authority r))
       in Inr (conclude_doe (negative_doe L nsec nsec3 qname qtype) r))"

section \<open>dnssec/verify.go\<close>

type_synonym verdict = "(AuthenticationResult \<times> result option \<times> goerr option) go"

definition new_result :: "Zone \<Rightarrow> msg \<Rightarrow> result" where
  "new_result zone m = \<lparr>r_name = zName zone, r_zone = zone, r_msg = m, r_keys = [], r_answer = [],
     r_authority = [], r_err = None, dsRecords = [], r_state = Unknown, denialOfExistence = NotFound\<rparr>"

definition return_step :: "step_result \<Rightarrow> verdict" where
  "return_step s = bindG s (\<lambda>(status, err, r). Inr (status, Some r, err))"

definition classify_response :: "dnslib \<Rightarrow> result \<Rightarrow> verdict" where
  "classify_response L r =
     (let soaFoundInAuthority = recordsOfTypeExist (Ns (r_msg r)) TypeSOA in
      if \<not> soaFoundInAuthority \<and> length (Answer (r_msg r)) = 0 \<and> recordsOfTypeExist (Ns (r_msg r)) TypeNS
      then return_step (validateDelegatingResponse L r)
      else if \<not> soaFoundInAuthority \<and> length (Answer (r_msg r)) > 0
      then return_step (validatePositiveResponse L r)
      else if soaFoundInAuthority
      then return_step (validateNegativeResponse L r)
      else Inr (Bogus, Some r, Some (DErr ErrFailsafeResponse)))"

definition verify ::
  "dnslib \<Rightarrow> dnssec_cfg \<Rightarrow> (nat \<Rightarrow> sigclock) \<Rightarrow> Zone \<Rightarrow> msg \<Rightarrow> ds list \<Rightarrow> verdict" where
  "verify L cfg clk zone m dsRecordsFromParent =
     (let r = new_result zone m in
      if length dsRecordsFromParent = 0 then Inr (Insecure, Some r, None)
      else
        case GetDNSKEYRecords zone of
          Inl e \<Rightarrow> Inr (Bogus, Some r, Some e)
        | Inr keys \<Rightarrow>
            bindG (verifyDNSKEYs L cfg (clk 0) r keys dsRecordsFromParent) (\<lambda>(status, err, r).
              if status \<noteq> Unknown \<or> err \<noteq> None then Inr (status, Some r, err)
              else
                bindG (verifyRRSETs L cfg (clk 1) (clk 2) r (extractRecords as_DNSKEY keys)) (\<lambda>(status, err, r).
                  if status \<noteq> Unknown \<or> err \<noteq> None then Inr (status, Some r, err)
                  else classify_response L r)))"

section \<open>Specification vocabulary\<close>

text \<open>A key of the zone that a DS record of the parent vouches for.\<close>

definition trusted_key :: "dnslib \<Rightarrow> ds list \<Rightarrow> rr list \<Rightarrow> dnskey \<Rightarrow> bool" where
  "trusted_key L dss keys k \<longleftrightarrow> DNSKEY k \<in> set keys \<and>
     (\<exists>d \<in> set dss. ds_Algorithm d = dk_Algorithm k \<and> ds_KeyTag d = KeyTag L k \<and>
        (\<exists>x. ToDS L k (DigestType d) = Some x \<and> EqualFold (Digest d) (Digest x)))"

text \<open>
  One link of the chain of trust: the zone's keys are signed by a key that the parent's DS
  records vouch for, and for every record type that is signed in the response there is a
  signature over an RRset of that type that verifies with one of the zone's keys.
\<close>

definition secure_link :: "dnslib \<Rightarrow> ds list \<Rightarrow> result \<Rightarrow> bool" where
  "secure_link L dss r \<longleftrightarrow>
     (\<exists>keys. GetDNSKEYRecords (r_zone r) = Inr keys \<and>
        (\<exists>s \<in> set (r_keys r). \<exists>k. verified s \<and> key s = Some k \<and> trusted_key L dss keys k \<and> sig_accepts L s k) \<and>
        (\<forall>s \<in> set (r_answer r @ r_authority r).
           \<exists>s' \<in> set (r_answer r @ r_authority r). \<exists>k. rtype s' = rtype s \<and> verified s' \<and>
             key s' = Some k \<and> DNSKEY k \<in> set keys \<and> sig_accepts L s' k))"

text \<open>The classification sets the DS records and the denial of existence state only.\<close>

definition only_doe_changed :: "result \<Rightarrow> result \<Rightarrow> bool" where
  "only_doe_changed r r' \<longleftrightarrow> r_name r' = r_name r \<and> r_zone r' = r_zone r \<and> r_msg r' = r_msg r \<and>
     r_keys r' = r_keys r \<and> r_answer r' = r_answer r \<and> r_authority r' = r_authority r \<and>
     r_err r' = r_err r \<and> r_state r' = r_state r"

text \<open>What the denial of existence state and the DS records say about the kind of response.\<close>

definition delegating :: "msg \<Rightarrow> bool" where
  "delegating m \<longleftrightarrow> \<not> recordsOfTypeExist (Ns m) TypeSOA \<and> Answer m = [] \<and> recordsOfTypeExist (Ns m) TypeNS"

definition positive :: "msg \<Rightarrow> bool" where
  "positive m \<longleftrightarrow> \<not> recordsOfTypeExist (Ns m) TypeSOA \<and> Answer m \<noteq> []"

definition negative :: "msg \<Rightarrow> bool" where
  "negative m \<longleftrightarrow> recordsOfTypeExist (Ns m) TypeSOA"

definition doe_agrees :: "result \<Rightarrow> bool" where
  "doe_agrees r \<longleftrightarrow>
     (delegating (r_msg r) \<and>
        (if dsRecords r = [] then denialOfExistence r \<in> {NsecMissingDS, Nsec3MissingDS, Nsec3OptOut}
         else denialOfExistence r = NotFound)) \<or>
     (positive (r_msg r) \<and> denialOfExistence r \<in> {NotFound, NsecWildcard, Nsec3Wildcard}) \<or>
     (negative (r_msg r) \<and> dsRecords r = [] \<and>
        denialOfExistence r \<in> {NsecNoData, NsecNxDomain, Nsec3NoData, Nsec3NxDomain, Nsec3OptOut})"

definition step_ok :: "(DenialOfExistenceState \<Rightarrow> ds list \<Rightarrow> bool) \<Rightarrow> result \<Rightarrow>
    AuthenticationResult \<times> goerr option \<times> result \<Rightarrow> bool" where
  "step_ok P r out = (case out of (st, e, r') \<Rightarrow> only_doe_changed r r' \<and>
     (st = Secure \<and> e = None \<and> P (denialOfExistence r') (dsRecords r') \<or> st = Bogus \<and> e \<noteq> None))"

definition loop_ok :: "result \<Rightarrow> (AuthenticationResult \<times> goerr option \<times> result) + (result \<times> bool \<times> bool) \<Rightarrow> bool" where
  "loop_ok r out = (case out of
      Inl (st, e, r') \<Rightarrow> st = Bogus \<and> e \<noteq> None \<and> only_doe_changed r r'
    | Inr (r', seen', ver') \<Rightarrow> only_doe_changed r r' \<and>
        denialOfExistence r' \<in> {NotFound, NsecWildcard, Nsec3Wildcard})"

section \<open>The DNSKEY step\<close>

lemma ds_matches_True:
  "ds_matches L d k = Inr True \<longleftrightarrow>
     ds_Algorithm d = dk_Algorithm k \<and> ds_KeyTag d = KeyTag L k \<and>
     (\<exists>x. ToDS L k (DigestType d) = Some x \<and> EqualFold (Digest d) (Digest x))"
  by (auto simp: ds_matches_def split: option.splits)

lemma find_key_Some: "find_key L d ks = Inr (Some k) \<Longrightarrow> k \<in> set ks \<and> ds_matches L d k = Inr True"
  by (induction ks) (auto simp: bindG_eq_Inr_iff split: if_splits)

lemma keySigningKeys_mem:
  "keySigningKeys L ds zks = Inr ks \<Longrightarrow> k \<in> set ks \<Longrightarrow>
     k \<in> set zks \<and> (\<exists>d \<in> set ds. ds_matches L d k = Inr True)"
  by (induction ds arbitrary: ks)
     (auto simp: bindG_eq_Inr_iff split: option.splits dest: find_key_Some)

lemma keySigningKeys_trusted:
  assumes "keySigningKeys L dss (extractRecords as_DNSKEY keys) = Inr ks" and "k \<in> set ks"
  shows "trusted_key L dss keys k"
  using keySigningKeys_mem [OF assms] by (auto simp: trusted_key_def set_extractRecords ds_matches_True)

lemma verifyDNSKEYs_cases:
  assumes "verifyDNSKEYs L cfg clk r keys dss = Inr (st, e, r')"
  obtains (no_keys) "st = Insecure" "e = Some (DErr ErrKeysNotFound)" "r' = r"
  | (bogus) e' sigs where "st = Bogus" "e = Some (Wrap [DErr ErrBogusResultFound, e'])"
      "r' = r\<lparr>r_keys := sigs\<rparr>"
  | (ok) ksks sigs where "st = Unknown" "e = None" "r' = r\<lparr>r_keys := sigs\<rparr>"
      "\<forall>k \<in> set ksks. trusted_key L dss keys k"
      "authenticate L clk (zName (r_zone r)) keys ksks answerSection = Inr (sigs, None)"
      "signatures_Verify cfg sigs = None"
proof (cases "extractRecords as_DNSKEY keys = []")
  case True
  with assms show thesis by (intro no_keys) (simp_all add: verifyDNSKEYs_def)
next
  case False
  with assms obtain ksks where ks: "keySigningKeys L dss (extractRecords as_DNSKEY keys) = Inr ksks"
    by (auto simp: verifyDNSKEYs_def bindG_eq_Inr_iff)
  have trusted: "\<forall>k \<in> set ksks. trusted_key L dss keys k"
    using keySigningKeys_trusted [OF ks] by blast
  show thesis
  proof (cases "ksks = []")
    case True
    with assms False ks show thesis by (intro no_keys) (simp_all add: verifyDNSKEYs_def)
  next
    case ne: False
    with assms False ks obtain sigs err where
      au: "authenticate L clk (zName (r_zone r)) keys ksks answerSection = Inr (sigs, err)"
      by (auto simp: verifyDNSKEYs_def bindG_eq_Inr_iff)
    show thesis
    proof (cases err)
      case (Some e')
      with assms False ks ne au show thesis
        by (intro bogus [of e' "r_keys r"]) (simp_all add: verifyDNSKEYs_def)
    next
      case None
      show thesis
      proof (cases "signatures_Verify cfg sigs")
        case none: None
        with assms False ks ne au None trusted show thesis
          by (intro ok [of sigs ksks]) (auto simp: verifyDNSKEYs_def)
      next
        case (Some e')
        with assms False ks ne au None show thesis
          by (intro bogus [of e' sigs]) (auto simp: verifyDNSKEYs_def)
      qed
    qed
  qed
qed

lemma verifyRRSETs_cases:
  assumes "verifyRRSETs L cfg c1 c2 r ks = Inr (st, e, r')"
  obtains (bogus) e' where "st = Bogus" "e = Some (Wrap [DErr ErrBogusResultFound, e'])" "r' = r"
  | (ok) sa sn where "st = Unknown" "e = None" "r' = r\<lparr>r_answer := sa, r_authority := sn\<rparr>"
      "authenticate L c1 (zName (r_zone r)) (Answer (r_msg r)) ks answerSection = Inr (sa, None)"
      "authenticate L c2 (zName (r_zone r)) (Ns (r_msg r)) ks authoritySection = Inr (sn, None)"
      "signatures_Verify cfg (sa @ sn) = None"
  using assms
  by (auto simp: verifyRRSETs_def Let_def bindG_eq_Inr_iff split: if_splits option.splits)

section \<open>The classification of the response\<close>

lemma delegation_doe_range:
  "delegation_doe L n n3 name = Some d \<Longrightarrow> d \<in> {NsecMissingDS, Nsec3MissingDS, Nsec3OptOut}"
  by (auto simp: delegation_doe_def split: if_split_asm)

lemma step_ok_conclude_doe:
  assumes "only_doe_changed r r'" "\<And>d. doe = Some d \<Longrightarrow> P d (dsRecords r')"
  shows "step_ok P r (conclude_doe doe r')"
  using assms by (auto simp: conclude_doe_def step_ok_def only_doe_changed_def split: option.split)

lemma validateDelegatingResponse_ok:
  assumes "validateDelegatingResponse L r = Inr out" and "denialOfExistence r = NotFound"
  shows "step_ok (\<lambda>d dss. if dss = [] then d \<in> {NsecMissingDS, Nsec3MissingDS, Nsec3OptOut} else d = NotFound) r out"
proof -
  let ?r = "r\<lparr>dsRecords := extractDSRecords (r_authority r)\<rparr>"
  have fr: "only_doe_changed r ?r" by (simp add: only_doe_changed_def)
  show ?thesis
  proof (cases "extractDSRecords (r_authority r) = [] \<and>
      recordsHaveTheSameOwner (extractRecordsOfType (Ns (r_msg r)) TypeNS)")
    case False
    with assms fr show ?thesis
      by (cases "extractDSRecords (r_authority r) = []")
         (auto simp: validateDelegatingResponse_def Let_def step_ok_def only_doe_changed_def)
  next
    case True
    with assms(1) obtain n n3 name where "out = conclude_doe (delegation_doe L n n3 name) ?r"
      by (auto simp: validateDelegatingResponse_def Let_def bindG_eq_Inr_iff)
    with True fr show ?thesis
      by (auto intro!: step_ok_conclude_doe dest: delegation_doe_range)
  qed
qed

lemma negative_nsec3_range:
  "negative_nsec3 L n3 q t = Some d \<Longrightarrow> d \<in> {Nsec3NoData, Nsec3NxDomain, Nsec3OptOut}"
  by (auto simp: negative_nsec3_def Let_def split: if_split_asm prod.split_asm)

lemma negative_doe_range:
  assumes "negative_doe L n n3 q t = Some d"
  shows "d \<in> {NsecNoData, NsecNxDomain, Nsec3NoData, Nsec3NxDomain, Nsec3OptOut}"
  using assms negative_nsec3_range [of L n3 q t d]
  by (auto simp: negative_doe_def split: if_split_asm)

lemma validateNegativeResponse_ok:
  assumes "validateNegativeResponse L r = Inr out" and "dsRecords r = []"
  shows "step_ok (\<lambda>d dss. dss = [] \<and>
      d \<in> {NsecNoData, NsecNxDomain, Nsec3NoData, Nsec3NxDomain, Nsec3OptOut}) r out"
proof -
  from assms(1) obtain n n3 q t where "out = conclude_doe (negative_doe L n n3 q t) r"
    by (auto simp: validateNegativeResponse_def Let_def bindG_eq_Inr_iff)
  with assms(2) show ?thesis
    by (auto intro!: step_ok_conclude_doe simp: only_doe_changed_def dest!: negative_doe_range)
qed

lemma mark_simps [simp]:
  "only_doe_changed r' (mark b d r) = only_doe_changed r' r" "dsRecords (mark b d r) = dsRecords r"
  "denialOfExistence (mark b d r) = (if b then d else denialOfExistence r)"
  "only_doe_changed (mark b d r) r' = only_doe_changed r r'"
  by (simp_all add: mark_def only_doe_changed_def)

lemma positive_loop_ok:
  assumes "positive_loop L n n3 sigs r seen ver = Inr out"
    and "denialOfExistence r \<in> {NotFound, NsecWildcard, Nsec3Wildcard}"
  shows "loop_ok r out"
  using assms
proof (induction L n n3 sigs r seen ver rule: positive_loop.induct)
  case (1 L n n3 r seen ver)
  then show ?case by (auto simp: loop_ok_def only_doe_changed_def)
next
  case (2 L n n3 sig sigs r seen ver)
  show ?case
  proof (cases "wildcard sig \<and> \<not> seen")
    case False
    with 2 show ?thesis by (auto simp: loop_ok_def only_doe_changed_def split: if_split_asm)
  next
    case True
    with "2.prems"(1) obtain v1 v2 where "nsec_wildcard L n r = Inr v1" "nsec3_wildcard L n3 sig = Inr v2"
      and loop: "positive_loop L n n3 sigs (mark v2 Nsec3Wildcard (mark v1 NsecWildcard r)) True (ver \<or> v1 \<or> v2)
        = Inr out"
      by (auto simp: bindG_eq_Inr_iff)
    with "2.IH"(2) [OF _ _ loop] True "2.prems"(2)
    have "loop_ok (mark v2 Nsec3Wildcard (mark v1 NsecWildcard r)) out" by auto
    then show ?thesis by (auto simp: loop_ok_def split: sum.splits)
  qed
qed

lemma validatePositiveResponse_ok:
  assumes "validatePositiveResponse L r = Inr out" and "denialOfExistence r = NotFound"
  shows "step_ok (\<lambda>d dss. d \<in> {NotFound, NsecWildcard, Nsec3Wildcard}) r out"
proof -
  let ?r = "r\<lparr>dsRecords := extractDSRecords (r_answer r)\<rparr>"
  from assms(1) obtain o1 n n3 where
    loop: "positive_loop L n n3 (r_answer r) ?r False False = Inr o1" and out: "out = conclude_positive o1"
    by (auto simp: validatePositiveResponse_def Let_def bindG_eq_Inr_iff)
  from positive_loop_ok [OF loop] assms(2) have "loop_ok ?r o1" by simp
  with out show ?thesis
    by (cases o1 rule: conclude_positive.cases) (auto simp: loop_ok_def step_ok_def only_doe_changed_def)
qed

section \<open>The verdict on a response\<close>

lemma return_step_eq: "return_step s = Inr (st, ro, e) \<longleftrightarrow> (\<exists>r. ro = Some r \<and> s = Inr (st, e, r))"
  by (auto simp: return_step_def bindG_eq_Inr_iff)

lemma classify_response_ok:
  assumes "classify_response L r = Inr (st, ro, e)" "denialOfExistence r = NotFound" "dsRecords r = []"
  obtains r' where "ro = Some r'" "only_doe_changed r r'"
    "(st = Secure \<and> e = None \<and> doe_agrees r') \<or> (st = Bogus \<and> e \<noteq> None)"
proof -
  let ?m = "r_msg r"
  consider (del) "delegating ?m" | (pos) "\<not> delegating ?m" "positive ?m" | (neg) "negative ?m"
    | (fail) "\<not> delegating ?m" "\<not> positive ?m" "\<not> negative ?m" by blast
  then have "\<exists>r'. ro = Some r' \<and> only_doe_changed r r' \<and>
    ((st = Secure \<and> e = None \<and> doe_agrees r') \<or> (st = Bogus \<and> e \<noteq> None))"
  proof cases
    case del
    with assms(1) obtain r' where r': "ro = Some r'" "validateDelegatingResponse L r = Inr (st, e, r')"
      by (auto simp: classify_response_def delegating_def return_step_eq)
    from validateDelegatingResponse_ok [OF r'(2) assms(2)] del r'(1) show ?thesis
      by (auto simp: step_ok_def doe_agrees_def only_doe_changed_def)
  next
    case pos
    with assms(1) obtain r' where r': "ro = Some r'" "validatePositiveResponse L r = Inr (st, e, r')"
      by (auto simp: classify_response_def positive_def return_step_eq)
    from validatePositiveResponse_ok [OF r'(2) assms(2)] pos r'(1) show ?thesis
      by (auto simp: step_ok_def doe_agrees_def only_doe_changed_def)
  next
    case neg
    with assms(1) obtain r' where r': "ro = Some r'" "validateNegativeResponse L r = Inr (st, e, r')"
      by (auto simp: classify_response_def negative_def return_step_eq)
    from validateNegativeResponse_ok [OF r'(2) assms(3)] neg r'(1) show ?thesis
      by (auto simp: step_ok_def doe_agrees_def only_doe_changed_def)
  next
    case fail
    with assms(1) show ?thesis
      by (auto simp: classify_response_def delegating_def positive_def negative_def only_doe_changed_def)
  qed
  with that show thesis by blast
qed

lemma new_result_simps [simp]:
  "r_zone (new_result zone m) = zone" "r_msg (new_result zone m) = m" "r_name (new_result zone m) = zName zone"
  "dsRecords (new_result zone m) = []" "denialOfExistence (new_result zone m) = NotFound"
  "r_err (new_result zone m) = None"
  by (simp_all add: new_result_def)

text \<open>The ways in which \<open>verify\<close> returns, first once the keys have been accepted.\<close>

lemma verify_after_keys:
  assumes v: "verify L cfg clk zone m dss = Inr (st, ro, e)" "dss \<noteq> []" "GetDNSKEYRecords zone = Inr keys"
    and k: "verifyDNSKEYs L cfg (clk 0) (new_result zone m) keys dss = Inr (Unknown, None, r0)"
    and r0: "r_zone r0 = zone" "r_msg r0 = m" "denialOfExistence r0 = NotFound" "dsRecords r0 = []"
  obtains (bogus) r where "st = Bogus" "ro = Some r" "e \<noteq> None" "r_zone r = zone" "r_msg r = m"
  | (classified) r1 r where
      "verifyRRSETs L cfg (clk 1) (clk 2) r0 (extractRecords as_DNSKEY keys) = Inr (Unknown, None, r1)"
      "ro = Some r" "only_doe_changed r1 r" "st = Secure" "e = None" "doe_agrees r"
proof -
  from v k obtain st1 e1 r1 where
    s: "verifyRRSETs L cfg (clk 1) (clk 2) r0 (extractRecords as_DNSKEY keys) = Inr (st1, e1, r1)"
    by (auto simp: verify_def bindG_eq_Inr_iff)
  then show thesis
  proof (cases rule: verifyRRSETs_cases)
    case (bogus e')
    with v k s r0 show thesis by (intro that(1) [of r0]) (auto simp: verify_def)
  next
    case rr: (ok sa sn)
    from v k s rr(1,2) have cl: "classify_response L r1 = Inr (st, ro, e)" by (simp add: verify_def)
    have r1: "r_zone r1 = zone" "r_msg r1 = m" "denialOfExistence r1 = NotFound" "dsRecords r1 = []"
      using rr(3) r0 by simp_all
    from classify_response_ok [OF cl r1(3,4)] obtain r where r: "ro = Some r" "only_doe_changed r1 r"
      and "(st = Secure \<and> e = None \<and> doe_agrees r) \<or> (st = Bogus \<and> e \<noteq> None)" by metis
    then consider (s) "st = Secure" "e = None" "doe_agrees r" | (b) "st = Bogus" "e \<noteq> None" by blast
    then show thesis
    proof cases
      case s': s
      with s rr(1,2) r show thesis by (intro that(2) [of r1 r]) simp_all
    next
      case b
      with r r1 show thesis by (intro that(1) [of r]) (simp_all add: only_doe_changed_def)
    qed
  qed
qed

lemma verify_cases:
  assumes "verify L cfg clk zone m dss = Inr (st, ro, e)"
  obtains (no_ds) "dss = []" "st = Insecure" "ro = Some (new_result zone m)" "e = None"
  | (no_keys) r where "dss \<noteq> []" "st = Insecure" "ro = Some r" "e = Some (DErr ErrKeysNotFound)"
      "r = new_result zone m"
  | (bogus) r where "dss \<noteq> []" "st = Bogus" "ro = Some r" "e \<noteq> None" "r_zone r = zone" "r_msg r = m"
  | (classified) keys r0 r1 r where "dss \<noteq> []" "GetDNSKEYRecords zone = Inr keys"
      "verifyDNSKEYs L cfg (clk 0) (new_result zone m) keys dss = Inr (Unknown, None, r0)"
      "verifyRRSETs L cfg (clk 1) (clk 2) r0 (extractRecords as_DNSKEY keys) = Inr (Unknown, None, r1)"
      "ro = Some r" "only_doe_changed r1 r" "st = Secure" "e = None" "doe_agrees r"
proof (cases "dss = []")
  case True
  with assms show thesis by (intro no_ds) (simp_all add: verify_def)
next
  case ne: False
  show thesis
  proof (cases "GetDNSKEYRecords zone")
    case (Inl e')
    with assms ne show thesis by (intro bogus [of "new_result zone m"]) (auto simp: verify_def)
  next
    case (Inr keys)
    with assms ne obtain st0 e0 r0 where
      k: "verifyDNSKEYs L cfg (clk 0) (new_result zone m) keys dss = Inr (st0, e0, r0)"
      by (auto simp: verify_def bindG_eq_Inr_iff)
    then show thesis
    proof (cases rule: verifyDNSKEYs_cases)
      case no_keys
      with assms ne Inr k show thesis
        by (intro that(2) [of "new_result zone m"]) (auto simp: verify_def)
    next
      case (bogus e' sigs)
      with assms ne Inr k show thesis
        by (intro that(3) [of r0]) (auto simp: verify_def)
    next
      case (ok ksks sigs)
      then have r0: "r_zone r0 = zone" "r_msg r0 = m" "denialOfExistence r0 = NotFound" "dsRecords r0 = []"
        by simp_all
      from k ok(1,2) have "verifyDNSKEYs L cfg (clk 0) (new_result zone m) keys dss = Inr (Unknown, None, r0)" by simp
      from assms ne Inr this r0 show thesis
      proof (cases rule: verify_after_keys)
        case (bogus r)
        with ne show thesis by (intro that(3))
      next
        case (classified r1 r)
        with ne Inr k ok(1,2) show thesis by (intro that(4) [of keys r0 r1 r]) auto
      qed
    qed
  qed
qed

lemma signatures_Verify_None:
  assumes "signatures_Verify cfg ss = None"
  shows "ss \<noteq> []" and "s \<in> set ss \<Longrightarrow> \<exists>s' \<in> set ss. rtype s' = rtype s \<and> verified s'"
  using assms by (auto simp: signatures_Verify_def verifyOneOrMore_iff verifyAll_iff split: if_split_asm)

lemma authenticate_verified_key:
  assumes "authenticate L clk zone rrs ks sect = Inr (sigs, e)" "s \<in> set sigs" "verified s"
  shows "\<exists>k \<in> set ks. key s = Some k \<and> sig_accepts L s k"
  using assms by (metis authenticate_members authenticate_one_verified(2))

lemma verifyDNSKEYs_link:
  assumes "verifyDNSKEYs L cfg clk r keys dss = Inr (Unknown, None, r')"
  shows "\<exists>s \<in> set (r_keys r'). \<exists>k. verified s \<and> key s = Some k \<and> trusted_key L dss keys k \<and> sig_accepts L s k"
  using assms
proof (cases rule: verifyDNSKEYs_cases)
  case (ok ksks sigs)
  from signatures_Verify_None [OF ok(6)] obtain s where s: "s \<in> set sigs" "verified s"
    by (metis last_in_set)
  from authenticate_verified_key [OF ok(5) s] obtain k where
    "k \<in> set ksks" "key s = Some k" "sig_accepts L s k" by blast
  with s ok(3,4) show ?thesis by auto
qed simp_all

lemma verifyRRSETs_link:
  assumes "verifyRRSETs L cfg c1 c2 r ks = Inr (Unknown, None, r')"
    and "s \<in> set (r_answer r' @ r_authority r')"
  shows "\<exists>s' \<in> set (r_answer r' @ r_authority r'). \<exists>k \<in> set ks. rtype s' = rtype s \<and> verified s' \<and>
             key s' = Some k \<and> sig_accepts L s' k"
  using assms(1)
proof (cases rule: verifyRRSETs_cases)
  case (ok sa sn)
  with assms(2) obtain s' where s': "s' \<in> set (sa @ sn)" "rtype s' = rtype s" "verified s'"
    using signatures_Verify_None(2) [OF ok(6), of s] by auto
  then have "\<exists>k \<in> set ks. key s' = Some k \<and> sig_accepts L s' k"
    using authenticate_verified_key [OF ok(4), of s'] authenticate_verified_key [OF ok(5), of s'] by auto
  with s' ok(3) show ?thesis by auto
qed simp_all

lemma verify_secure_link:
  assumes "verify L cfg clk zone m dss = Inr (Secure, ro, e)"
  obtains r where "ro = Some r" "e = None" "r_zone r = zone" "r_msg r = m" "dss \<noteq> []" "r_err r = None"
    "secure_link L dss r" "doe_agrees r"
  using assms
proof (cases rule: verify_cases)
  case (classified keys r0 r1 r)
  have r0: "r_zone r0 = zone \<and> r_msg r0 = m \<and> r_err r0 = None" using classified(3)
    by (cases rule: verifyDNSKEYs_cases) simp_all
  have r1: "r_zone r1 = zone \<and> r_msg r1 = m \<and> r_keys r1 = r_keys r0 \<and> r_err r1 = None" using classified(4)
    by (cases rule: verifyRRSETs_cases) (use r0 in simp_all)
  have same: "r_keys r = r_keys r0" "r_answer r = r_answer r1" "r_authority r = r_authority r1"
    "r_zone r = zone" "r_msg r = m" "r_err r = None"
    using classified(6) r1 by (simp_all add: only_doe_changed_def)
  have "secure_link L dss r"
    unfolding secure_link_def same
  proof (intro exI [of _ keys] conjI ballI)
    show "GetDNSKEYRecords zone = Inr keys" by fact
    show "\<exists>s \<in> set (r_keys r0). \<exists>k. verified s \<and> key s = Some k \<and> trusted_key L dss keys k \<and> sig_accepts L s k"
      by (rule verifyDNSKEYs_link) fact
    fix s
    assume "s \<in> set (r_answer r1 @ r_authority r1)"
    from verifyRRSETs_link [OF classified(4) this]
    show "\<exists>s' \<in> set (r_answer r1 @ r_authority r1). \<exists>k. rtype s' = rtype s \<and> verified s' \<and>
             key s' = Some k \<and> DNSKEY k \<in> set keys \<and> sig_accepts L s' k"
      unfolding Bex_def set_extractRecords as_DNSKEY_Some by blast
  qed
  with classified same that show thesis by simp
qed simp_all

text \<open>Every verdict carries the result of the zone and the message it was asked about, and is not Unknown.\<close>

lemma verify_returns_result:
  assumes "verify L cfg clk zone m dss = Inr (st, ro, e)"
  obtains r where "ro = Some r" "r_zone r = zone" "r_msg r = m" "st \<noteq> Unknown"
    "st = Bogus \<Longrightarrow> e \<noteq> None" "st = Secure \<Longrightarrow> e = None"
proof (cases "st = Secure")
  case True
  with assms obtain r where "ro = Some r" "e = None" "r_zone r = zone" "r_msg r = m"
    by (metis verify_secure_link)
  with True that show thesis by auto
next
  case False
  with assms that show thesis by (cases rule: verify_cases) auto
qed

lemma verify_insecure:
  assumes "verify L cfg clk zone m dss = Inr (Insecure, ro, e)"
  shows "ro = Some (new_result zone m) \<and> (if dss = [] then e = None else e = Some (DErr ErrKeysNotFound))"
  using assms by (cases rule: verify_cases) auto

end
