(* ===== verification/Dnssec_Authenticator.thy ===== *)
theory Dnssec_Authenticator
  imports Dnssec_Verify Dns_Names "HOL-Library.Multiset"
begin

text \<open>
  dnssec/authenticator.go and dnssec/result.go: the \<open>Authenticator\<close> buffers one response
  per zone at the index of the zone's number of labels, verifies the responses from the root
  down, each against the DS records that its predecessor left, and \<open>Result\<close> condenses
  the chain of results into one verdict.

  The functions of the source that mutate the authenticator return the new one. The function
  field \<open>verify\<close> of the source is \<open>a_verify\<close>; its first argument numbers the calls,
  since \<open>verify\<close> reads the clock.
\<close>

section \<open>dnssec/authenticator.go\<close>

record Authenticator =
  a_question :: question
  inputBuffer :: "input option list"
  inputBufferIdx :: nat
  results :: "result list"
  a_verify :: "nat \<Rightarrow> Zone \<Rightarrow> msg \<Rightarrow> ds list \<Rightarrow> verdict"

definition NewAuth :: "dnslib \<Rightarrow> dnssec_cfg \<Rightarrow> (nat \<Rightarrow> nat \<Rightarrow> sigclock) \<Rightarrow> question \<Rightarrow> Authenticator" where
  "NewAuth L cfg clk q =
     (let maxExpectedItems = CountLabel L (qName q) + 1 in
      \<lparr>a_question = q, inputBuffer = replicate maxExpectedItems None, inputBufferIdx = 0,
       results = [], a_verify = (\<lambda>n. verify L cfg (clk n))\<rparr>)"

text \<open>The DS records that the next response is verified against.\<close>

definition last_dsRecords :: "dnssec_cfg \<Rightarrow> Authenticator \<Rightarrow> ds list" where
  "last_dsRecords cfg a =
     (if length (results a) = 0 then RootTrustAnchors cfg else dsRecords (last (results a)))"

text \<open>The checks that \<open>processResponse\<close> makes before it calls \<open>verify\<close>.\<close>

definition chain_guard :: "dnslib \<Rightarrow> Authenticator \<Rightarrow> Zone \<Rightarrow> goerr option" where
  "chain_guard L a zone =
     (if length (results a) = 0 then None
      else
        let lastZone = zName (r_zone (last (results a))) in
        if \<not> IsSubDomain L lastZone (zName zone) then Some (Wrap [DErr ErrNotSubdomain])
        else if namesEqual L lastZone (zName zone) then Some (Wrap [DErr ErrSameName])
        else None)"

definition signer_guard :: "dnslib \<Rightarrow> dnssec_cfg \<Rightarrow> Authenticator \<Rightarrow> msg \<Rightarrow> goerr option" where
  "signer_guard L cfg a m =
     (case (extractRecords as_RRSIG (Answer m @ Ns m), last_dsRecords cfg a) of
        (s # _, d # _) \<Rightarrow>
          (let signerName = CanonicalName L (SignerName s);
               lastDSOwner = CanonicalName L (Name (ds_Hdr d))
           in if lastDSOwner \<noteq> signerName then
                (if \<not> IsSubDomain L signerName (qName (a_question a))
                 then Some (Wrap [DErr ErrNotSubdomain])
                 else Some (MissingDSRecordError signerName))
              else None)
      | _ \<Rightarrow> None)"

definition record_verdict ::
  "Authenticator \<Rightarrow> AuthenticationResult \<times> result option \<times> goerr option \<Rightarrow> goerr option \<times> Authenticator" where
  "record_verdict a v =
     (case v of (state, ro, err) \<Rightarrow>
        (case ro of
           None \<Rightarrow> (Some (DErr ErrUnknown), a)
         | Some r \<Rightarrow>
             let r = (if err \<noteq> None then r\<lparr>r_err := err\<rparr> else r);
                 state = (if state = Unknown then Bogus else state)
             in (None, a\<lparr>results := results a @ [r\<lparr>r_state := state\<rparr>]\<rparr>)))"

definition processResponse ::
  "dnslib \<Rightarrow> dnssec_cfg \<Rightarrow> Authenticator \<Rightarrow> Zone \<Rightarrow> msg \<Rightarrow> (goerr option \<times> Authenticator) go" where
  "processResponse L cfg a zone m =
     (case chain_guard L a zone of
        Some e \<Rightarrow> Inr (Some e, a)
      | None \<Rightarrow>
          (case signer_guard L cfg a m of
             Some e \<Rightarrow> Inr (Some e, a)
           | None \<Rightarrow>
               bindG (a_verify a (length (results a)) zone m (last_dsRecords cfg a))
                 (\<lambda>v. Inr (record_verdict a v))))"

lemma processResponse_frame:
  assumes "processResponse L cfg a zone m = Inr (e, a')"
  shows "inputBuffer a' = inputBuffer a" "inputBufferIdx a' = inputBufferIdx a"
    "a_question a' = a_question a" "a_verify a' = a_verify a"
  using assms
  by (auto simp: processResponse_def record_verdict_def bindG_eq_Inr_iff Let_def split: option.splits prod.splits)

text \<open>
  The loop of \<open>AddResponse\<close>: it stops at the first gap of the buffer, and leaves the
  index on a response whose processing failed.
\<close>

function add_loop :: "dnslib \<Rightarrow> dnssec_cfg \<Rightarrow> Authenticator \<Rightarrow> (goerr option \<times> Authenticator) go" where
  "add_loop L cfg a =
     (if inputBufferIdx a < length (inputBuffer a) then
        (case inputBuffer a ! inputBufferIdx a of
           None \<Rightarrow> Inr (None, a)
         | Some inp \<Rightarrow>
             (case processResponse L cfg a (in_zone inp) (in_msg inp) of
                Inl p \<Rightarrow> Inl p
              | Inr (Some e, a') \<Rightarrow> Inr (Some e, a')
              | Inr (None, a') \<Rightarrow> add_loop L cfg (a'\<lparr>inputBufferIdx := inputBufferIdx a' + 1\<rparr>)))
      else Inr (None, a))"
  by pat_completeness auto

termination
  by (relation "measure (\<lambda>(L, cfg, a). length (inputBuffer a) - inputBufferIdx a)")
     (auto simp: processResponse_frame)

declare add_loop.simps [simp del]

definition AddResponse ::
  "dnslib \<Rightarrow> dnssec_cfg \<Rightarrow> Authenticator \<Rightarrow> Zone \<Rightarrow> msg \<Rightarrow> (goerr option \<times> Authenticator) go" where
  "AddResponse L cfg a zone m =
     (if \<not> IsSubDomain L (zName zone) (qName (a_question a)) then
        Inr (Some (Wrap [DErr ErrNotSubdomain]), a)
      else
        bindG (go_nth (Question m) 0) (\<lambda>q.
          if \<not> IsSubDomain L (qName q) (qName (a_question a)) then
            Inr (Some (Wrap [DErr ErrNotSubdomain]), a)
          else
            let position = CountLabel L (zName zone) in
            bindG (go_nth (inputBuffer a) position) (\<lambda>v.
              if v \<noteq> None then Inr (Some (Wrap [DErr ErrDuplicateInputForZone]), a)
              else
                add_loop L cfg
                  (a\<lparr>inputBuffer := (inputBuffer a)[position := Some \<lparr>in_zone = zone, in_msg = m\<rparr>]\<rparr>))))"

section \<open>dnssec/result.go\<close>

text \<open>The loop of \<open>Result\<close> over the rest of the buffer, which skips gaps.\<close>

function result_loop :: "dnslib \<Rightarrow> dnssec_cfg \<Rightarrow> Authenticator \<Rightarrow> (goerr option \<times> Authenticator) go" where
  "result_loop L cfg a =
     (if inputBufferIdx a < length (inputBuffer a) then
        (case inputBuffer a ! inputBufferIdx a of
           None \<Rightarrow> result_loop L cfg (a\<lparr>inputBufferIdx := inputBufferIdx a + 1\<rparr>)
         | Some inp \<Rightarrow>
             (case processResponse L cfg a (in_zone inp) (in_msg inp) of
                Inl p \<Rightarrow> Inl p
              | Inr (Some e, a') \<Rightarrow> Inr (Some e, a')
              | Inr (None, a') \<Rightarrow> result_loop L cfg (a'\<lparr>inputBufferIdx := inputBufferIdx a' + 1\<rparr>)))
      else Inr (None, a))"
  by pat_completeness auto

termination
  by (relation "measure (\<lambda>(L, cfg, a). length (inputBuffer a) - inputBufferIdx a)")
     (auto simp: processResponse_frame)

declare result_loop.simps [simp del]

type_synonym conclusion = "AuthenticationResult \<times> DenialOfExistenceState \<times> goerr option"

fun first_bogus :: "result list \<Rightarrow> result option" where
  "first_bogus [] = None"
| "first_bogus (r # rs) = (if r_state r = Bogus then Some r else first_bogus rs)"

text \<open>What the first result that is not Secure means, given the one before it.\<close>

definition insecure_step :: "dnslib \<Rightarrow> result \<Rightarrow> result \<Rightarrow> conclusion go" where
  "insecure_step L previous current =
     (if denialOfExistence previous \<in> {Nsec3OptOut, NsecMissingDS, Nsec3MissingDS} then
        Inr (Insecure, denialOfExistence previous, r_err current)
      else if denialOfExistence previous \<in> {NsecNoData, Nsec3NoData} then
        bindG (go_nth (Question (r_msg previous)) 0) (\<lambda>previousQ.
          if Qtype previousQ = TypeDS \<and>
             CanonicalName L (qName previousQ) = CanonicalName L (zName (r_zone current))
          then Inr (Insecure, denialOfExistence previous, r_err current)
          else Inr (Bogus, denialOfExistence previous, r_err current))
      else Inr (Bogus, denialOfExistence previous, r_err current))"

fun chain_loop :: "dnslib \<Rightarrow> result option \<Rightarrow> result list \<Rightarrow> conclusion option go" where
  "chain_loop L previous [] = Inr None"
| "chain_loop L previous (current # rs) =
     (if r_state current = Secure then chain_loop L (Some current) rs
      else
        (case previous of
           None \<Rightarrow> Inr (Some (r_state current, denialOfExistence current, r_err current))
         | Some p \<Rightarrow> bindG (insecure_step L p current) (\<lambda>c. Inr (Some c))))"

definition last_conclusion :: "question \<Rightarrow> result \<Rightarrow> conclusion" where
  "last_conclusion q r =
     (let doe = denialOfExistence r; err = r_err r in
      if r_state r \<noteq> Secure then (r_state r, doe, err)
      else if doe = Nsec3OptOut then (Insecure, doe, err)
      else if doe \<in> {NsecNxDomain, Nsec3NxDomain, NsecNoData, Nsec3NoData} then (Secure, doe, err)
      else if doe \<notin> {NotFound, NsecWildcard, Nsec3Wildcard} then (Bogus, doe, err)
      else if recordsOfTypeExist (Ns (r_msg r)) TypeSOA then (Bogus, doe, err)
      else if length (extractRecordsOfNameAndType (Answer (r_msg r)) (qName q) (Qtype q)) > 0 then (Secure, doe, err)
      else if length (extractRecordsOfNameAndType (Answer (r_msg r)) (qName q) TypeCNAME) > 0 then (Secure, doe, err)
      else (Bogus, doe, err))"

definition conclude :: "dnslib \<Rightarrow> question \<Rightarrow> result list \<Rightarrow> conclusion go" where
  "conclude L q rs =
     (if length rs = 0 then Inr (Unknown, NotFound, Some (DErr ErrNoResults))
      else
        (case first_bogus rs of
           Some r \<Rightarrow> Inr (Bogus, NotFound, r_err r)
         | None \<Rightarrow>
             bindG (chain_loop L None rs) (\<lambda>co.
               case co of
                 Some c \<Rightarrow> Inr c
               | None \<Rightarrow> Inr (last_conclusion q (last rs)))))"

definition Result :: "dnslib \<Rightarrow> dnssec_cfg \<Rightarrow> Authenticator \<Rightarrow> (conclusion \<times> Authenticator) go" where
  "Result L cfg a =
     bindG (result_loop L cfg a) (\<lambda>(err, a).
       case err of
         Some e \<Rightarrow> Inr ((Unknown, NotFound, Some e), a)
       | None \<Rightarrow> bindG (conclude L (a_question a) (results a)) (\<lambda>c. Inr (c, a)))"

fun result_ttl_loop :: "u16 \<Rightarrow> signatures \<Rightarrow> bool \<Rightarrow> u32 \<Rightarrow> bool \<times> u32" where
  "result_ttl_loop t [] found ttl0 = (found, ttl0)"
| "result_ttl_loop t (sig # sigs) found ttl0 =
     (if rtype sig = t \<and> verified sig then result_ttl_loop t sigs True (min ttl0 (ttl sig))
      else result_ttl_loop t sigs found ttl0)"

definition resultTTL :: "dnssec_cfg \<Rightarrow> u16 \<Rightarrow> signatures \<Rightarrow> u32 \<times> bool" where
  "resultTTL cfg t ss =
     (case result_ttl_loop t ss False (MaxAllowedTTL cfg) of
        (found, ttl0) \<Rightarrow> if \<not> found then (0, False) else (ttl0, True))"

definition ResultTTLAnswer :: "dnssec_cfg \<Rightarrow> Authenticator \<Rightarrow> u16 \<Rightarrow> u32 \<times> bool" where
  "ResultTTLAnswer cfg a t =
     (if length (results a) = 0 then (0, False) else resultTTL cfg t (r_answer (last (results a))))"

definition ResultTTLAuthority :: "dnssec_cfg \<Rightarrow> Authenticator \<Rightarrow> u16 \<Rightarrow> u32 \<times> bool" where
  "ResultTTLAuthority cfg a t =
     (if length (results a) = 0 then (0, False) else resultTTL cfg t (r_authority (last (results a))))"

section \<open>Specification vocabulary\<close>

text \<open>
  The abstract authenticator works on the list of inputs from the root to the leaf, without a
  buffer: it runs the chain over the inputs and concludes.
\<close>

primrec somes :: "'a option list \<Rightarrow> 'a list" where
  "somes [] = []"
| "somes (x # xs) = (case x of None \<Rightarrow> somes xs | Some v \<Rightarrow> v # somes xs)"

definition chain_step ::
  "dnslib \<Rightarrow> dnssec_cfg \<Rightarrow> question \<Rightarrow> (nat \<Rightarrow> Zone \<Rightarrow> msg \<Rightarrow> ds list \<Rightarrow> verdict) \<Rightarrow> result list \<Rightarrow> input \<Rightarrow>
     (goerr option \<times> result list) go" where
  "chain_step L cfg q vf rs inp =
     map_sum id (map_prod id results)
       (processResponse L cfg \<lparr>a_question = q, inputBuffer = [], inputBufferIdx = 0, results = rs, a_verify = vf\<rparr>
          (in_zone inp) (in_msg inp))"

fun chain_run ::
  "dnslib \<Rightarrow> dnssec_cfg \<Rightarrow> question \<Rightarrow> (nat \<Rightarrow> Zone \<Rightarrow> msg \<Rightarrow> ds list \<Rightarrow> verdict) \<Rightarrow> result list \<Rightarrow> input list \<Rightarrow>
     (goerr option \<times> result list) go" where
  "chain_run L cfg q vf rs [] = Inr (None, rs)"
| "chain_run L cfg q vf rs (i # ins) =
     (case chain_step L cfg q vf rs i of
        Inl p \<Rightarrow> Inl p
      | Inr (Some e, rs') \<Rightarrow> Inr (Some e, rs')
      | Inr (None, rs') \<Rightarrow> chain_run L cfg q vf rs' ins)"

definition chain_verdict ::
  "dnslib \<Rightarrow> dnssec_cfg \<Rightarrow> question \<Rightarrow> (nat \<Rightarrow> Zone \<Rightarrow> msg \<Rightarrow> ds list \<Rightarrow> verdict) \<Rightarrow> input list \<Rightarrow> conclusion go" where
  "chain_verdict L cfg q vf ins =
     bindG (chain_run L cfg q vf [] ins) (\<lambda>(err, rs).
       case err of Some e \<Rightarrow> Inr (Unknown, NotFound, Some e) | None \<Rightarrow> conclude L q rs)"

text \<open>Adding a sequence of responses, whatever errors \<open>AddResponse\<close> returns.\<close>

fun add_all :: "dnslib \<Rightarrow> dnssec_cfg \<Rightarrow> Authenticator \<Rightarrow> input list \<Rightarrow> Authenticator go" where
  "add_all L cfg a [] = Inr a"
| "add_all L cfg a (i # ins) =
     bindG (AddResponse L cfg a (in_zone i) (in_msg i)) (\<lambda>(e, a'). add_all L cfg a' ins)"

definition input_depth :: "dnslib \<Rightarrow> input \<Rightarrow> nat" where
  "input_depth L i = CountLabel L (zName (in_zone i))"

text \<open>An input that the guards of \<open>AddResponse\<close> let pass.\<close>

definition admissible :: "dnslib \<Rightarrow> (string \<Rightarrow> bool) \<Rightarrow> question \<Rightarrow> input \<Rightarrow> bool" where
  "admissible L valid q i \<longleftrightarrow>
     valid (zName (in_zone i)) \<and> IsSubDomain L (zName (in_zone i)) (qName q) \<and>
     Question (in_msg i) \<noteq> [] \<and> IsSubDomain L (qName (hd (Question (in_msg i)))) (qName q)"

text \<open>
  The invariant: the responses before the index are there and have been processed in order,
  and each response is stored at the index of its depth.
\<close>

definition auth_inv :: "dnslib \<Rightarrow> dnssec_cfg \<Rightarrow> Authenticator \<Rightarrow> bool" where
  "auth_inv L cfg a \<longleftrightarrow>
     inputBufferIdx a \<le> length (inputBuffer a) \<and>
     (\<forall>i < inputBufferIdx a. inputBuffer a ! i \<noteq> None) \<and>
     (\<forall>i < length (inputBuffer a). \<forall>inp. inputBuffer a ! i = Some inp \<longrightarrow> input_depth L inp = i) \<and>
     chain_run L cfg (a_question a) (a_verify a) [] (somes (take (inputBufferIdx a) (inputBuffer a)))
       = Inr (None, results a)"

section \<open>The buffered chain refines the ordered chain\<close>

lemma somes_append [simp]: "somes (xs @ ys) = somes xs @ somes ys"
  by (induction xs) (auto split: option.splits)

lemma somes_drop_Cons:
  assumes "i < length xs"
  shows "somes (drop i xs) = (case xs ! i of None \<Rightarrow> [] | Some v \<Rightarrow> [v]) @ somes (drop (Suc i) xs)"
  using assms by (simp add: Cons_nth_drop_Suc [symmetric] split: option.splits)

lemma somes_take_Suc:
  assumes "i < length xs"
  shows "somes (take (Suc i) xs) = somes (take i xs) @ (case xs ! i of None \<Rightarrow> [] | Some v \<Rightarrow> [v])"
  using assms by (simp add: take_Suc_conv_app_nth split: option.splits)

lemma set_somes: "v \<in> set (somes xs) \<longleftrightarrow> Some v \<in> set xs"
  by (induction xs) (auto split: option.splits)

lemma mset_somes_update:
  "p < length xs \<Longrightarrow> xs ! p = None \<Longrightarrow> mset (somes (xs[p := Some v])) = add_mset v (mset (somes xs))"
  by (induction xs arbitrary: p) (auto simp: nth_Cons split: nat.splits option.splits)

lemma sorted_somes:
  assumes "\<And>i v. i < length xs \<Longrightarrow> xs ! i = Some v \<Longrightarrow> f v = i"
  shows "sorted (map f (somes xs))"
  using assms
proof (induction xs rule: rev_induct)
  case (snoc x xs)
  have "f v < length xs" if "v \<in> set (somes xs)" for v
  proof -
    from that obtain i where "i < length xs" "xs ! i = Some v" by (metis set_somes in_set_conv_nth)
    with snoc.prems [of i v] show ?thesis by (simp add: nth_append)
  qed
  moreover have "f v = length xs" if "x = Some v" for v
    using snoc.prems [of "length xs" v] that by simp
  moreover have "sorted (map f (somes xs))"
  proof (rule snoc.IH)
    fix i v
    assume "i < length xs" "xs ! i = Some v"
    then show "f v = i" using snoc.prems [of i v] by (simp add: nth_append)
  qed
  ultimately show ?case by (auto simp: sorted_append less_imp_le split: option.splits)
qed simp

lemma processResponse_step:
  "processResponse L cfg a (in_zone i) (in_msg i) =
     map_sum id (map_prod id (\<lambda>rs. a\<lparr>results := rs\<rparr>))
       (chain_step L cfg (a_question a) (a_verify a) (results a) i)"
  by (auto simp: chain_step_def processResponse_def chain_guard_def signer_guard_def last_dsRecords_def
      record_verdict_def bindG_def Let_def split: option.split sum.split prod.split list.split)

lemma chain_run_append:
  "chain_run L cfg q vf rs (xs @ ys) =
     (case chain_run L cfg q vf rs xs of
        Inl p \<Rightarrow> Inl p | Inr (Some e, rs') \<Rightarrow> Inr (Some e, rs') | Inr (None, rs') \<Rightarrow> chain_run L cfg q vf rs' ys)"
  by (induction L cfg q vf rs xs rule: chain_run.induct) (auto split: sum.split prod.split option.split)

lemma chain_run_snoc:
  "chain_run L cfg q vf [] xs = Inr (None, rs) \<Longrightarrow> chain_step L cfg q vf rs i = Inr (None, rs') \<Longrightarrow>
     chain_run L cfg q vf [] (xs @ [i]) = Inr (None, rs')"
  by (simp add: chain_run_append)

lemma result_loop_run:
  "map_sum id (map_prod id results) (result_loop L cfg a) =
     chain_run L cfg (a_question a) (a_verify a) (results a) (somes (drop (inputBufferIdx a) (inputBuffer a)))"
proof (induction L cfg a rule: result_loop.induct)
  case (1 L cfg a)
  show ?case
  proof (cases "inputBufferIdx a < length (inputBuffer a)")
    case True
    show ?thesis
    proof (cases "inputBuffer a ! inputBufferIdx a")
      case None
      with True 1(1) show ?thesis
        by (subst result_loop.simps) (simp add: somes_drop_Cons id_def)
    next
      case (Some inp)
      show ?thesis
      proof (cases "chain_step L cfg (a_question a) (a_verify a) (results a) inp")
        case (Inl p)
        with True Some show ?thesis
          by (subst result_loop.simps) (simp add: somes_drop_Cons processResponse_step)
      next
        case (Inr er)
        obtain e rs where er: "er = (e, rs)" by (cases er)
        show ?thesis
        proof (cases e)
          case None
          have "processResponse L cfg a (in_zone inp) (in_msg inp) = Inr (None, a\<lparr>results := rs\<rparr>)"
            using Inr er None by (simp add: processResponse_step)
          with 1(2) [OF True Some this] Inr er None True Some show ?thesis
            by (subst result_loop.simps) (simp add: somes_drop_Cons id_def)
        next
          case (Some e')
          with True \<open>inputBuffer a ! inputBufferIdx a = Some inp\<close> Inr er show ?thesis
            by (subst result_loop.simps) (simp add: somes_drop_Cons processResponse_step)
        qed
      qed
    qed
  next
    case False
    then show ?thesis by (subst result_loop.simps) simp
  qed
qed

lemma auth_inv_step:
  assumes inv: "auth_inv L cfg a" and idx: "inputBufferIdx a < length (inputBuffer a)"
    and inp: "inputBuffer a ! inputBufferIdx a = Some inp"
    and step: "chain_step L cfg (a_question a) (a_verify a) (results a) inp = Inr (None, rs)"
  shows "auth_inv L cfg (a\<lparr>results := rs, inputBufferIdx := inputBufferIdx a + 1\<rparr>)"
proof -
  have "chain_run L cfg (a_question a) (a_verify a) [] (somes (take (Suc (inputBufferIdx a)) (inputBuffer a)))
      = Inr (None, rs)"
    using inv inp chain_run_snoc [OF _ step, of "somes (take (inputBufferIdx a) (inputBuffer a))"]
    by (simp add: auth_inv_def somes_take_Suc [OF idx])
  with inv idx inp show ?thesis by (auto simp: auth_inv_def less_Suc_eq)
qed

lemma add_loop_inv:
  "auth_inv L cfg a \<Longrightarrow> add_loop L cfg a = Inr (e, a') \<Longrightarrow>
     auth_inv L cfg a' \<and> inputBuffer a' = inputBuffer a \<and> a_question a' = a_question a \<and> a_verify a' = a_verify a"
proof (induction L cfg a rule: add_loop.induct)
  case (1 L cfg a)
  show ?case
  proof (cases "inputBufferIdx a < length (inputBuffer a) \<and> inputBuffer a ! inputBufferIdx a \<noteq> None")
    case False
    with 1(2,3) show ?thesis by (subst (asm) add_loop.simps) (auto split: if_split_asm)
  next
    case True
    then obtain inp where inp: "inputBufferIdx a < length (inputBuffer a)"
      "inputBuffer a ! inputBufferIdx a = Some inp" by auto
    from 1(3) inp obtain e1 rs where
      step: "chain_step L cfg (a_question a) (a_verify a) (results a) inp = Inr (e1, rs)"
      by (cases "chain_step L cfg (a_question a) (a_verify a) (results a) inp")
         (subst (asm) add_loop.simps, simp add: processResponse_step, force)
    have pr: "processResponse L cfg a (in_zone inp) (in_msg inp) = Inr (e1, a\<lparr>results := rs\<rparr>)"
      by (simp add: processResponse_step step)
    show ?thesis
    proof (cases e1)
      case None
      with 1(3) inp pr have
        "add_loop L cfg (a\<lparr>results := rs, inputBufferIdx := inputBufferIdx a + 1\<rparr>) = Inr (e, a')"
        by (subst (asm) add_loop.simps) simp
      with 1(1) [OF inp pr [unfolded None] refl] auth_inv_step [OF 1(2) inp step [unfolded None]]
      show ?thesis by simp
    next
      case (Some e')
      have "rs = results a"
        using step Some by (auto simp: chain_step_def processResponse_def record_verdict_def bindG_def Let_def
            split: option.splits sum.splits prod.splits)
      with 1(2,3) inp pr Some show ?thesis by (subst (asm) add_loop.simps) simp
    qed
  qed
qed

lemma auth_inv_NewAuth: "auth_inv L cfg (NewAuth L cfg clk q)"
  by (simp add: auth_inv_def NewAuth_def Let_def del: replicate_Suc)

lemma AddResponse_admissible:
  assumes "dns_names L valid" "valid (qName (a_question a))" "admissible L valid (a_question a) i"
    and "length (inputBuffer a) = CountLabel L (qName (a_question a)) + 1"
  shows "input_depth L i < length (inputBuffer a)"
    and "inputBuffer a ! input_depth L i = None \<Longrightarrow> AddResponse L cfg a (in_zone i) (in_msg i) =
      add_loop L cfg (a\<lparr>inputBuffer := (inputBuffer a)[input_depth L i := Some i]\<rparr>)"
proof -
  from assms show d: "input_depth L i < length (inputBuffer a)"
    using IsSubDomain_CountLabel [of L valid "zName (in_zone i)" "qName (a_question a)"]
    by (simp add: admissible_def input_depth_def)
  assume "inputBuffer a ! input_depth L i = None"
  moreover have "Question (in_msg i) \<noteq> []" using assms(3) by (simp add: admissible_def)
  ultimately show "AddResponse L cfg a (in_zone i) (in_msg i) =
      add_loop L cfg (a\<lparr>inputBuffer := (inputBuffer a)[input_depth L i := Some i]\<rparr>)"
    using d assms(3) by (cases i) (simp add: AddResponse_def admissible_def input_depth_def hd_conv_nth)
qed

lemma auth_inv_insert:
  assumes "auth_inv L cfg a" "p < length (inputBuffer a)" "inputBuffer a ! p = None" "input_depth L i = p"
  shows "auth_inv L cfg (a\<lparr>inputBuffer := (inputBuffer a)[p := Some i]\<rparr>)"
proof -
  have "inputBufferIdx a \<le> p" using assms by (auto simp: auth_inv_def not_less [symmetric])
  then show ?thesis
    using assms by (auto simp: auth_inv_def nth_list_update)
qed

lemma add_all_buffer:
  assumes "dns_names L valid" "valid (qName q)" "\<forall>i \<in> set ins. admissible L valid q i"
    and "distinct (map (input_depth L) ins)"
    and "auth_inv L cfg a" "a_question a = q" "length (inputBuffer a) = CountLabel L (qName q) + 1"
    and "\<forall>i \<in> set ins. inputBuffer a ! input_depth L i = None"
    and "add_all L cfg a ins = Inr a'"
  shows "auth_inv L cfg a' \<and> a_question a' = q \<and> a_verify a' = a_verify a \<and>
     mset (somes (inputBuffer a')) = mset ins + mset (somes (inputBuffer a))"
  using assms(3-9)
proof (induction ins arbitrary: a)
  case (Cons i ins)
  let ?a = "a\<lparr>inputBuffer := (inputBuffer a)[input_depth L i := Some i]\<rparr>"
  have adm: "admissible L valid (a_question a) i" "valid (qName (a_question a))"
    "length (inputBuffer a) = CountLabel L (qName (a_question a)) + 1"
    using Cons.prems assms(2) by simp_all
  have free: "inputBuffer a ! input_depth L i = None" using Cons.prems(6) by simp
  note add = AddResponse_admissible [OF assms(1) adm(2,1,3)]
  from Cons.prems(7) obtain e1 a1 where
    a1: "add_loop L cfg ?a = Inr (e1, a1)" and rest: "add_all L cfg a1 ins = Inr a'"
    by (auto simp: add(2) [OF free] bindG_eq_Inr_iff)
  have inv: "auth_inv L cfg ?a" using Cons.prems(3) add(1) free by (rule auth_inv_insert) simp
  note a1' = add_loop_inv [OF inv a1]
  have "auth_inv L cfg a' \<and> a_question a' = q \<and> a_verify a' = a_verify a1 \<and>
     mset (somes (inputBuffer a')) = mset ins + mset (somes (inputBuffer a1))"
  proof (rule Cons.IH [OF _ _ _ _ _ _ rest])
    show "\<forall>j \<in> set ins. inputBuffer a1 ! input_depth L j = None"
    proof
      fix j
      assume j: "j \<in> set ins"
      then have "input_depth L j \<noteq> input_depth L i" using Cons.prems(2) by (auto simp: image_iff)
      with j a1' Cons.prems(6) show "inputBuffer a1 ! input_depth L j = None" by simp
    qed
  qed (use Cons.prems a1' in auto)
  then show ?case using a1' mset_somes_update [OF add(1) free] by simp
qed simp

lemma result_loop_question:
  "result_loop L cfg a = Inr (e, a') \<Longrightarrow> a_question a' = a_question a"
proof (induction L cfg a rule: result_loop.induct)
  case (1 L cfg a)
  show ?case
  proof (cases "inputBufferIdx a < length (inputBuffer a)")
    case True
    show ?thesis
    proof (cases "inputBuffer a ! inputBufferIdx a")
      case None
      have "result_loop L cfg (a\<lparr>inputBufferIdx := inputBufferIdx a + 1\<rparr>) = Inr (e, a')"
        using 1(3) True None by (subst (asm) result_loop.simps) simp
      from 1(1) [OF True None this] show ?thesis by simp
    next
      case (Some inp)
      from 1(3) True Some obtain e1 a1 where
        p: "processResponse L cfg a (in_zone inp) (in_msg inp) = Inr (e1, a1)"
        by (cases "processResponse L cfg a (in_zone inp) (in_msg inp)")
           (subst (asm) result_loop.simps, simp, force)
      show ?thesis
      proof (cases e1)
        case None
        have "result_loop L cfg (a1\<lparr>inputBufferIdx := inputBufferIdx a1 + 1\<rparr>) = Inr (e, a')"
          using 1(3) True Some p None by (subst (asm) result_loop.simps) simp
        from 1(2) [OF True Some p refl None this] processResponse_frame(3) [OF p] show ?thesis by simp
      next
        case (Some e')
        with 1(3) True \<open>inputBuffer a ! inputBufferIdx a = Some inp\<close> p processResponse_frame(3) [OF p]
        show ?thesis by (subst (asm) result_loop.simps) simp
      qed
    qed
  qed (use 1(3) in \<open>subst (asm) result_loop.simps, simp\<close>)
qed

lemma Result_conclusion:
  "map_sum id fst (Result L cfg a) =
     bindG (map_sum id (map_prod id results) (result_loop L cfg a)) (\<lambda>(err, rs).
       case err of Some e \<Rightarrow> Inr (Unknown, NotFound, Some e) | None \<Rightarrow> conclude L (a_question a) rs)"
  by (cases "result_loop L cfg a")
     (auto simp: Result_def bindG_def result_loop_question split: option.splits sum.splits)

theorem Result_refines:
  assumes names: "dns_names L valid" "valid (qName q)" "\<forall>i \<in> set ins. admissible L valid q i"
    and dist: "distinct (map (input_depth L) ins)"
    and run: "add_all L cfg (NewAuth L cfg clk q) ins = Inr a"
  shows "map_sum id fst (Result L cfg a) =
     chain_verdict L cfg q (\<lambda>n. verify L cfg (clk n)) (sort_key (input_depth L) ins)"
proof -
  let ?a0 = "NewAuth L cfg clk q"
  have empty: "somes (replicate n None) = []" for n :: nat by (induction n) simp_all
  have free: "\<forall>i \<in> set ins. inputBuffer ?a0 ! input_depth L i = None"
  proof
    fix i
    assume "i \<in> set ins"
    with names(3) have "admissible L valid (a_question ?a0) i" by (simp add: NewAuth_def Let_def)
    from AddResponse_admissible(1) [OF names(1) _ this] names(2)
    have "input_depth L i < CountLabel L (qName q) + 1" by (simp add: NewAuth_def Let_def)
    then show "inputBuffer ?a0 ! input_depth L i = None"
      by (simp add: NewAuth_def Let_def del: replicate_Suc)
  qed
  have a: "auth_inv L cfg a \<and> a_question a = q \<and> a_verify a = (\<lambda>n. verify L cfg (clk n)) \<and>
      mset (somes (inputBuffer a)) = mset ins"
    using add_all_buffer [OF names dist auth_inv_NewAuth _ _ free run]
    by (simp add: NewAuth_def Let_def empty del: replicate_Suc)
  have sorted: "sorted (map (input_depth L) (somes (inputBuffer a)))"
    by (rule sorted_somes) (use a in \<open>simp add: auth_inv_def\<close>)
  have sort: "sort_key (input_depth L) ins = somes (inputBuffer a)"
    using a dist sorted by (intro sort_key_inj_key_eq) (simp_all add: distinct_map)
  have split: "somes (take (inputBufferIdx a) (inputBuffer a)) @ somes (drop (inputBufferIdx a) (inputBuffer a))
      = somes (inputBuffer a)"
    by (metis append_take_drop_id somes_append)
  have pre: "chain_run L cfg q (\<lambda>n. verify L cfg (clk n)) [] (somes (take (inputBufferIdx a) (inputBuffer a)))
      = Inr (None, results a)"
    using a unfolding auth_inv_def by metis
  have "chain_run L cfg q (\<lambda>n. verify L cfg (clk n)) [] (somes (inputBuffer a)) =
      chain_run L cfg q (\<lambda>n. verify L cfg (clk n)) (results a) (somes (drop (inputBufferIdx a) (inputBuffer a)))"
    unfolding split [symmetric] chain_run_append pre by simp
  moreover from a have "a_question a = q" "a_verify a = (\<lambda>n. verify L cfg (clk n))" by simp_all
  ultimately show ?thesis
    by (simp only: Result_conclusion result_loop_run chain_verdict_def sort)
qed

text \<open>The DS records that the \<open>i\<close>-th result of a chain was verified against.\<close>

definition ds_before :: "dnssec_cfg \<Rightarrow> result list \<Rightarrow> nat \<Rightarrow> ds list" where
  "ds_before cfg rs i = (if i = 0 then RootTrustAnchors cfg else dsRecords (rs ! (i - 1)))"

text \<open>A chain whose Secure results are all linked to their predecessor.\<close>

definition chain_ok :: "dnslib \<Rightarrow> dnssec_cfg \<Rightarrow> (ds list \<Rightarrow> result \<Rightarrow> bool) \<Rightarrow> result list \<Rightarrow> bool" where
  "chain_ok L cfg link rs \<longleftrightarrow>
     (\<forall>i < length rs. r_state (rs ! i) \<noteq> Unknown \<and>
        (r_state (rs ! i) = Secure \<longrightarrow> link (ds_before cfg rs i) (rs ! i) \<and> r_err (rs ! i) = None)) \<and>
     (\<forall>i. Suc i < length rs \<longrightarrow>
        IsSubDomain L (zName (r_zone (rs ! i))) (zName (r_zone (rs ! Suc i))) \<and>
        \<not> namesEqual L (zName (r_zone (rs ! i))) (zName (r_zone (rs ! Suc i))))"

text \<open>Why a chain may end Insecure: what the last Secure result proves about the next zone.\<close>

definition unsigned_proof :: "dnslib \<Rightarrow> result \<Rightarrow> result \<Rightarrow> bool" where
  "unsigned_proof L p c \<longleftrightarrow>
     denialOfExistence p \<in> {Nsec3OptOut, NsecMissingDS, Nsec3MissingDS} \<or>
     (denialOfExistence p \<in> {NsecNoData, Nsec3NoData} \<and> Question (r_msg p) \<noteq> [] \<and>
      Qtype (hd (Question (r_msg p))) = TypeDS \<and>
      CanonicalName L (qName (hd (Question (r_msg p)))) = CanonicalName L (zName (r_zone c)))"

text \<open>A positive answer to the question, or a proof that there is none.\<close>

definition answered :: "question \<Rightarrow> result \<Rightarrow> bool" where
  "answered q r \<longleftrightarrow>
     denialOfExistence r \<in> {NsecNxDomain, Nsec3NxDomain, NsecNoData, Nsec3NoData} \<or>
     (denialOfExistence r \<in> {NotFound, NsecWildcard, Nsec3Wildcard} \<and>
      \<not> recordsOfTypeExist (Ns (r_msg r)) TypeSOA \<and>
      (\<exists>x \<in> set (Answer (r_msg r)). rr_name x = qName q \<and> (rr_type x = Qtype q \<or> rr_type x = TypeCNAME)))"

section \<open>The verifier interface\<close>

text \<open>
  What the authenticator relies on: a verdict comes with the result of the zone it was asked
  about and is never Unknown, and a Secure verdict establishes a link to the given DS
  records, which the later assignments to the error and the state of the result keep.
\<close>

locale chain_verifier =
  fixes vf :: "nat \<Rightarrow> Zone \<Rightarrow> msg \<Rightarrow> ds list \<Rightarrow> verdict"
    and link :: "ds list \<Rightarrow> result \<Rightarrow> bool"
  assumes verdict_result: "vf n z m dss = Inr (st, ro, e) \<Longrightarrow>
      \<exists>r. ro = Some r \<and> r_zone r = z \<and> r_msg r = m \<and> st \<noteq> Unknown"
    and secure_linked: "vf n z m dss = Inr (Secure, Some r, e) \<Longrightarrow> link dss r \<and> e = None \<and> r_err r = None"
    and link_update: "link dss (r\<lparr>r_state := s\<rparr>) = link dss r"
begin

lemma step_cases:
  assumes "chain_step L cfg q vf rs i = Inr (None, rs')"
  obtains r where "rs' = rs @ [r]" "r_zone r = in_zone i" "r_msg r = in_msg i" "r_state r \<noteq> Unknown"
    "r_state r = Secure \<Longrightarrow> link (if rs = [] then RootTrustAnchors cfg else dsRecords (last rs)) r \<and> r_err r = None"
    "rs \<noteq> [] \<Longrightarrow> IsSubDomain L (zName (r_zone (last rs))) (zName (in_zone i)) \<and>
       \<not> namesEqual L (zName (r_zone (last rs))) (zName (in_zone i))"
proof -
  let ?a = "\<lparr>a_question = q, inputBuffer = [], inputBufferIdx = 0, results = rs, a_verify = vf\<rparr>"
  let ?dss = "if rs = [] then RootTrustAnchors cfg else dsRecords (last rs)"
  from assms obtain a' where pr: "processResponse L cfg ?a (in_zone i) (in_msg i) = Inr (None, a')" "rs' = results a'"
    unfolding chain_step_def by (cases "processResponse L cfg ?a (in_zone i) (in_msg i)") auto
  have dss: "last_dsRecords cfg ?a = ?dss" by (auto simp: last_dsRecords_def)
  from pr obtain v where guard: "chain_guard L ?a (in_zone i) = None"
    and v: "vf (length rs) (in_zone i) (in_msg i) ?dss = Inr v" and rec: "record_verdict ?a v = (None, a')"
    by (auto simp: processResponse_def dss bindG_eq_Inr_iff split: option.splits)
  obtain st ro e where "v = (st, ro, e)" by (cases v)
  with v verdict_result [of "length rs" "in_zone i" "in_msg i" ?dss st ro e] obtain r where
    r: "vf (length rs) (in_zone i) (in_msg i) ?dss = Inr (st, Some r, e)" "v = (st, Some r, e)"
    "r_zone r = in_zone i" "r_msg r = in_msg i" "st \<noteq> Unknown" by auto
  let ?r = "(if e \<noteq> None then r\<lparr>r_err := e\<rparr> else r)\<lparr>r_state := st\<rparr>"
  have rs': "rs' = rs @ [?r]" using rec r(2,5) pr(2) by (auto simp: record_verdict_def Let_def)
  show thesis
  proof (rule that [OF rs'])
    assume "r_state ?r = Secure"
    with secure_linked [of "length rs" "in_zone i" "in_msg i" ?dss r e] r(1)
    show "link ?dss ?r \<and> r_err ?r = None" by (simp add: link_update)
  next
    assume "rs \<noteq> []"
    with guard show "IsSubDomain L (zName (r_zone (last rs))) (zName (in_zone i)) \<and>
       \<not> namesEqual L (zName (r_zone (last rs))) (zName (in_zone i))"
      by (auto simp: chain_guard_def Let_def split: if_split_asm)
  qed (use r in auto)
qed

lemma ds_before_snoc:
  assumes "j \<le> length rs"
  shows "ds_before cfg (rs @ [r]) j = (if j < length rs then ds_before cfg rs j
      else (if rs = [] then RootTrustAnchors cfg else dsRecords (last rs)))"
  using assms by (auto simp: ds_before_def nth_append last_conv_nth)

text \<open>A relation between neighbours of a list, and the last element against a new one.\<close>

lemma neighbours_snoc:
  assumes "\<And>j. Suc j < length xs \<Longrightarrow> R (xs ! j) (xs ! Suc j)" "xs \<noteq> [] \<Longrightarrow> R (last xs) x"
    and "Suc j < length (xs @ [x])"
  shows "R ((xs @ [x]) ! j) ((xs @ [x]) ! Suc j)"
proof (cases "Suc j < length xs")
  case False
  with assms(3) have j: "xs \<noteq> []" "length xs = Suc j" by auto
  then have "last xs = xs ! j" by (simp add: last_conv_nth)
  with assms(2) j show ?thesis by (simp add: nth_append)
qed (use assms(1) in \<open>simp add: nth_append\<close>)

lemma chain_ok_snoc:
  assumes ok: "chain_ok L cfg link rs" and step: "chain_step L cfg q vf rs i = Inr (None, rs')"
  shows "chain_ok L cfg link rs'"
proof -
  from step obtain r where r: "rs' = rs @ [r]" "r_zone r = in_zone i" "r_state r \<noteq> Unknown"
    "r_state r = Secure \<Longrightarrow> link (if rs = [] then RootTrustAnchors cfg else dsRecords (last rs)) r \<and> r_err r = None"
    "rs \<noteq> [] \<Longrightarrow> IsSubDomain L (zName (r_zone (last rs))) (zName (in_zone i)) \<and>
       \<not> namesEqual L (zName (r_zone (last rs))) (zName (in_zone i))"
    by (rule step_cases) blast
  have states: "r_state (rs' ! j) \<noteq> Unknown \<and>
      (r_state (rs' ! j) = Secure \<longrightarrow> link (ds_before cfg rs' j) (rs' ! j) \<and> r_err (rs' ! j) = None)"
    if "j < length rs'" for j
  proof (cases "j < length rs")
    case True
    with ok r(1) ds_before_snoc [of j rs cfg r] show ?thesis by (auto simp: chain_ok_def nth_append)
  next
    case False
    with that r(1) have "j = length rs" by simp
    with r(1,3,4) ds_before_snoc [of j rs cfg r] show ?thesis by auto
  qed
  let ?below = "\<lambda>a b. IsSubDomain L (zName (r_zone a)) (zName (r_zone b)) \<and> \<not> namesEqual L (zName (r_zone a)) (zName (r_zone b))"
  have "?below (rs' ! j) (rs' ! Suc j)" if "Suc j < length rs'" for j
    unfolding r(1)
    by (rule neighbours_snoc [where R = ?below]) (use ok r(1,2,5) that in \<open>auto simp: chain_ok_def\<close>)
  with states show ?thesis unfolding chain_ok_def by blast
qed

lemma chain_run_ok:
  "chain_ok L cfg link rs \<Longrightarrow> chain_run L cfg q vf rs ins = Inr (None, rs') \<Longrightarrow>
     chain_ok L cfg link rs' \<and> length rs' = length rs + length ins \<and>
     map r_zone rs' = map r_zone rs @ map in_zone ins \<and> map r_msg rs' = map r_msg rs @ map in_msg ins"
proof (induction ins arbitrary: rs)
  case (Cons i ins)
  from Cons.prems(2) obtain rs1 where step: "chain_step L cfg q vf rs i = Inr (None, rs1)"
    and rest: "chain_run L cfg q vf rs1 ins = Inr (None, rs')"
    by (auto split: sum.split_asm prod.split_asm option.split_asm)
  from step obtain r where r: "rs1 = rs @ [r]" "r_zone r = in_zone i" "r_msg r = in_msg i" by (rule step_cases)
  from Cons.IH [OF chain_ok_snoc [OF Cons.prems(1) step] rest] r show ?case by simp
qed simp

end

interpretation real: chain_verifier "\<lambda>n. verify L cfg (clk n)" "\<lambda>dss r. dss \<noteq> [] \<and> secure_link L dss r \<and> doe_agrees r"
  for L cfg and clk :: "nat \<Rightarrow> nat \<Rightarrow> sigclock"
proof
  fix n z m dss st ro e
  assume "verify L cfg (clk n) z m dss = Inr (st, ro, e)"
  then show "\<exists>r. ro = Some r \<and> r_zone r = z \<and> r_msg r = m \<and> st \<noteq> Unknown"
    by (rule verify_returns_result) auto
next
  fix n z m dss r e
  assume "verify L cfg (clk n) z m dss = Inr (Secure, Some r, e)"
  then show "(dss \<noteq> [] \<and> secure_link L dss r \<and> doe_agrees r) \<and> e = None \<and> r_err r = None"
    by (rule verify_secure_link) auto
next
  fix dss r s
  show "(dss \<noteq> [] \<and> secure_link L dss (r\<lparr>r_state := s\<rparr>) \<and> doe_agrees (r\<lparr>r_state := s\<rparr>)) =
      (dss \<noteq> [] \<and> secure_link L dss r \<and> doe_agrees r)"
    by (simp add: secure_link_def doe_agrees_def)
qed

section \<open>The conclusion\<close>

lemma first_bogus_None: "first_bogus rs = None \<longleftrightarrow> (\<forall>r \<in> set rs. r_state r \<noteq> Bogus)"
  by (induction rs) auto

lemma conclude_bogus:
  assumes "r \<in> set rs" "r_state r = Bogus"
  shows "\<exists>e. conclude L q rs = Inr (Bogus, NotFound, e)"
proof (cases "first_bogus rs")
  case None
  with assms show ?thesis by (simp add: first_bogus_None)
next
  case (Some r')
  moreover have "rs \<noteq> []" using assms(1) by auto
  ultimately show ?thesis by (simp add: conclude_def)
qed

lemma chain_loop_None: "chain_loop L p rs = Inr None \<longleftrightarrow> (\<forall>r \<in> set rs. r_state r = Secure)"
proof (induction rs arbitrary: p)
  case (Cons r rs)
  show ?case
  proof (cases "r_state r = Secure")
    case False
    then show ?thesis by (cases p) (auto simp: bindG_eq_Inr_iff)
  qed (use Cons in simp)
qed simp

lemma chain_loop_Some:
  "chain_loop L p rs = Inr (Some c) \<Longrightarrow>
     \<exists>ss x ys. rs = ss @ x # ys \<and> (\<forall>r \<in> set ss. r_state r = Secure) \<and> r_state x \<noteq> Secure \<and>
       (case (if ss = [] then p else Some (last ss)) of
          None \<Rightarrow> c = (r_state x, denialOfExistence x, r_err x) | Some pr \<Rightarrow> insecure_step L pr x = Inr c)"
proof (induction rs arbitrary: p)
  case (Cons r rs)
  show ?case
  proof (cases "r_state r = Secure")
    case True
    with Cons.prems have "chain_loop L (Some r) rs = Inr (Some c)" by simp
    from Cons.IH [OF this] obtain ss x ys where
      *: "rs = ss @ x # ys" "\<forall>r \<in> set ss. r_state r = Secure" "r_state x \<noteq> Secure"
      "case (if ss = [] then Some r else Some (last ss)) of
         None \<Rightarrow> c = (r_state x, denialOfExistence x, r_err x) | Some pr \<Rightarrow> insecure_step L pr x = Inr c" by blast
    with True show ?thesis
      by (intro exI [of _ "r # ss"] exI [of _ x] exI [of _ ys]) (simp split: if_split_asm)
  next
    case False
    with Cons.prems show ?thesis
      by (intro exI [of _ "[]"] exI [of _ r] exI [of _ rs])
         (auto simp: bindG_eq_Inr_iff split: option.split_asm)
  qed
qed simp

lemma insecure_step_cases:
  assumes "insecure_step L p x = Inr (st, doe, e)"
  shows "st = (if unsigned_proof L p x then Insecure else Bogus) \<and> doe = denialOfExistence p \<and> e = r_err x"
proof (cases "denialOfExistence p \<in> {NsecNoData, Nsec3NoData}")
  case True
  with assms have "Question (r_msg p) \<noteq> []"
    by (auto simp: insecure_step_def go_nth_def split: if_split_asm)
  with assms True show ?thesis
    by (auto simp: insecure_step_def unsigned_proof_def hd_conv_nth split: if_split_asm)
next
  case False
  with assms show ?thesis by (auto simp: insecure_step_def unsigned_proof_def split: if_split_asm)
qed

lemma last_conclusion_secure:
  assumes "last_conclusion q r = (Secure, doe, e)"
  shows "r_state r = Secure \<and> answered q r \<and> doe = denialOfExistence r \<and> e = r_err r"
  using assms
  by (auto simp: last_conclusion_def answered_def Let_def extractRecordsOfNameAndType_filter filter_empty_conv
      split: if_split_asm)

lemma conclude_cases:
  assumes "conclude L q rs = Inr (st, doe, e)" "rs \<noteq> []" "\<forall>r \<in> set rs. r_state r \<noteq> Unknown"
  obtains (bogus) "st = Bogus" "\<exists>r \<in> set rs. r_state r = Bogus"
  | (cut) ss x ys where "\<forall>r \<in> set rs. r_state r \<noteq> Bogus" "rs = ss @ x # ys" "\<forall>r \<in> set ss. r_state r = Secure"
      "r_state x = Insecure"
      "st = (if ss = [] \<or> unsigned_proof L (last ss) x then Insecure else Bogus)" "e = r_err x"
      "doe = (if ss = [] then denialOfExistence x else denialOfExistence (last ss))"
  | (all) "\<forall>r \<in> set rs. r_state r = Secure" "last_conclusion q (last rs) = (st, doe, e)"
proof (cases "first_bogus rs")
  case (Some r)
  with assms(1,2) have "st = Bogus" by (auto simp: conclude_def)
  moreover have "\<exists>r \<in> set rs. r_state r = Bogus" using Some first_bogus_None [of rs] by auto
  ultimately show thesis by (rule bogus)
next
  case None
  from assms(1,2) None obtain co where co: "chain_loop L None rs = Inr co"
    and c: "(case co of Some c \<Rightarrow> Inr c | None \<Rightarrow> Inr (last_conclusion q (last rs))) = (Inr (st, doe, e) :: conclusion go)"
    by (auto simp: conclude_def bindG_eq_Inr_iff)
  show thesis
  proof (cases co)
    case co_None: None
    with co c show thesis by (intro all) (simp_all add: chain_loop_None)
  next
    case (Some c')
    with c have c': "c' = (st, doe, e)" by simp
    from chain_loop_Some [OF co [unfolded Some c']] obtain ss x ys where
      *: "rs = ss @ x # ys" "\<forall>r \<in> set ss. r_state r = Secure" "r_state x \<noteq> Secure"
      "case (if ss = [] then None else Some (last ss)) of
         None \<Rightarrow> (st, doe, e) = (r_state x, denialOfExistence x, r_err x)
       | Some pr \<Rightarrow> insecure_step L pr x = Inr (st, doe, e)" by blast
    have x: "r_state x = Insecure"
      using * None assms(3) by (cases "r_state x") (auto simp: first_bogus_None)
    have "st = (if ss = [] \<or> unsigned_proof L (last ss) x then Insecure else Bogus) \<and> e = r_err x \<and>
        doe = (if ss = [] then denialOfExistence x else denialOfExistence (last ss))"
      using *(4) x insecure_step_cases [of L "last ss" x st doe e] by (cases "ss = []") auto
    with None *(1,2) x show thesis by (intro cut) (simp_all add: first_bogus_None)
  qed
qed

text \<open>The links of a Secure chain, from the trust anchors down.\<close>

definition chain_of_trust :: "dnslib \<Rightarrow> dnssec_cfg \<Rightarrow> result list \<Rightarrow> bool" where
  "chain_of_trust L cfg rs \<longleftrightarrow>
     rs \<noteq> [] \<and>
     (\<forall>i < length rs. ds_before cfg rs i \<noteq> [] \<and> secure_link L (ds_before cfg rs i) (rs ! i) \<and> doe_agrees (rs ! i)) \<and>
     (\<forall>i. Suc i < length rs \<longrightarrow>
        IsSubDomain L (zName (r_zone (rs ! i))) (zName (r_zone (rs ! Suc i))) \<and>
        \<not> namesEqual L (zName (r_zone (rs ! i))) (zName (r_zone (rs ! Suc i))))"

section \<open>Reachable authenticators\<close>

lemma AddResponse_inv:
  assumes "auth_inv L cfg a" "AddResponse L cfg a z m = Inr (e, a')"
  shows "auth_inv L cfg a' \<and> a_question a' = a_question a \<and> a_verify a' = a_verify a"
proof (cases "a' = a")
  case False
  let ?p = "CountLabel L (zName z)"
  let ?a = "a\<lparr>inputBuffer := (inputBuffer a)[?p := Some \<lparr>in_zone = z, in_msg = m\<rparr>]\<rparr>"
  from assms(2) False have p: "?p < length (inputBuffer a)" "inputBuffer a ! ?p = None"
    and loop: "add_loop L cfg ?a = Inr (e, a')"
    by (auto simp: AddResponse_def Let_def bindG_eq_Inr_iff go_nth_def split: if_split_asm)
  have "auth_inv L cfg ?a" using assms(1) p by (rule auth_inv_insert) (simp add: input_depth_def)
  from add_loop_inv [OF this loop] show ?thesis by simp
qed (use assms(1) in simp)

lemma add_all_inv:
  "auth_inv L cfg a \<Longrightarrow> add_all L cfg a ins = Inr a' \<Longrightarrow>
     auth_inv L cfg a' \<and> a_question a' = a_question a \<and> a_verify a' = a_verify a"
proof (induction ins arbitrary: a)
  case (Cons i ins)
  from Cons.prems(2) obtain e a1 where a1: "AddResponse L cfg a (in_zone i) (in_msg i) = Inr (e, a1)"
    "add_all L cfg a1 ins = Inr a'" by (auto simp: bindG_eq_Inr_iff)
  from AddResponse_inv [OF Cons.prems(1) a1(1)] Cons.IH [OF _ a1(2)] show ?case by simp
qed simp

text \<open>What an authenticator holds after any sequence of responses.\<close>

lemma add_all_NewAuth:
  assumes "add_all L cfg (NewAuth L cfg clk q) ins = Inr a"
  shows "auth_inv L cfg a" "a_question a = q" "a_verify a = (\<lambda>n. verify L cfg (clk n))"
  using add_all_inv [OF auth_inv_NewAuth assms] by (simp_all add: NewAuth_def Let_def)

lemma Result_chain:
  assumes "add_all L cfg (NewAuth L cfg clk q) ins = Inr a"
    and "Result L cfg a = Inr ((st, doe, e), a')" and "st \<noteq> Unknown"
  shows "chain_ok L cfg (\<lambda>dss r. dss \<noteq> [] \<and> secure_link L dss r \<and> doe_agrees r) (results a')"
    and "conclude L q (results a') = Inr (st, doe, e)"
    and "map r_zone (results a') = map in_zone (somes (inputBuffer a))"
    and "map r_msg (results a') = map in_msg (somes (inputBuffer a))"
proof -
  note a = add_all_NewAuth [OF assms(1)]
  from assms(2) obtain er a1 where loop1: "result_loop L cfg a = Inr (er, a1)"
    by (auto simp: Result_def bindG_eq_Inr_iff)
  have none: "er = None" using assms(2,3) loop1 by (cases er) (auto simp: Result_def)
  with assms(2) loop1 have con: "conclude L (a_question a') (results a') = Inr (st, doe, e)" and "a1 = a'"
    by (auto simp: Result_def bindG_eq_Inr_iff)
  then have loop: "result_loop L cfg a = Inr (er, a')" using loop1 by simp
  let ?buf = "inputBuffer a"
  have "chain_run L cfg q (\<lambda>n. verify L cfg (clk n)) [] (somes (take (inputBufferIdx a) ?buf)) = Inr (None, results a)"
    using a unfolding auth_inv_def by metis
  moreover have "chain_run L cfg q (\<lambda>n. verify L cfg (clk n)) (results a) (somes (drop (inputBufferIdx a) ?buf))
      = Inr (None, results a')"
    using result_loop_run [of L cfg a] a(2,3) loop none by simp
  moreover have "somes (take (inputBufferIdx a) ?buf) @ somes (drop (inputBufferIdx a) ?buf) = somes ?buf"
    by (metis append_take_drop_id somes_append)
  ultimately have run: "chain_run L cfg q (\<lambda>n. verify L cfg (clk n)) [] (somes ?buf) = Inr (None, results a')"
    by (metis (no_types, lifting) chain_run_append sum.simps(6) case_prod_conv option.simps(4))
  show "chain_ok L cfg (\<lambda>dss r. dss \<noteq> [] \<and> secure_link L dss r \<and> doe_agrees r) (results a')"
    "map r_zone (results a') = map in_zone (somes ?buf)" "map r_msg (results a') = map in_msg (somes ?buf)"
    using real.chain_run_ok [OF _ run] by (simp_all add: chain_ok_def)
  show "conclude L q (results a') = Inr (st, doe, e)"
    using con result_loop_question [OF loop] a(2) by simp
qed

lemma chain_ok_states: "chain_ok L cfg link rs \<Longrightarrow> \<forall>r \<in> set rs. r_state r \<noteq> Unknown"
  by (auto simp: chain_ok_def in_set_conv_nth)

lemma conclude_secure:
  assumes "conclude L q rs = Inr (Secure, doe, e)" "\<forall>r \<in> set rs. r_state r \<noteq> Unknown"
  shows "rs \<noteq> [] \<and> (\<forall>r \<in> set rs. r_state r = Secure) \<and> answered q (last rs) \<and>
     doe = denialOfExistence (last rs) \<and> e = r_err (last rs)"
proof -
  have ne: "rs \<noteq> []" using assms(1) by (auto simp: conclude_def)
  from assms(1) ne assms(2) show ?thesis
    by (cases rule: conclude_cases) (auto simp: ne dest: last_conclusion_secure split: if_split_asm)
qed

lemma chain_of_trustI:
  assumes "chain_ok L cfg (\<lambda>dss r. dss \<noteq> [] \<and> secure_link L dss r \<and> doe_agrees r) rs"
    and "rs \<noteq> []" "\<forall>r \<in> set rs. r_state r = Secure"
  shows "chain_of_trust L cfg rs"
  using assms unfolding chain_of_trust_def chain_ok_def by (auto simp del: not_None_eq)

theorem secure_result_has_chain_of_trust:
  assumes "add_all L cfg (NewAuth L cfg clk q) ins = Inr a"
    and "Result L cfg a = Inr ((Secure, doe, e), a')"
  shows "chain_of_trust L cfg (results a') \<and> answered q (last (results a')) \<and> e = None"
proof -
  note c = Result_chain [OF assms]
  have ok: "chain_ok L cfg (\<lambda>dss r. dss \<noteq> [] \<and> secure_link L dss r \<and> doe_agrees r) (results a')"
    and con: "conclude L q (results a') = Inr (Secure, doe, e)" using c by simp_all
  note s = conclude_secure [OF con chain_ok_states [OF ok]]
  then have "r_err (last (results a')) = None"
    using ok by (auto simp: chain_ok_def last_conv_nth)
  with s chain_of_trustI [OF ok] show ?thesis by auto
qed

lemma insecure_conclusion:
  assumes "conclude L q rs = Inr (Insecure, doe, e)" "\<forall>r \<in> set rs. r_state r \<noteq> Unknown"
  shows "r_state (hd rs) = Insecure \<or>
     (\<exists>i. Suc i < length rs \<and> (\<forall>j \<le> i. r_state (rs ! j) = Secure) \<and> r_state (rs ! Suc i) = Insecure \<and>
        unsigned_proof L (rs ! i) (rs ! Suc i)) \<or>
     ((\<forall>r \<in> set rs. r_state r = Secure) \<and> denialOfExistence (last rs) = Nsec3OptOut)"
proof -
  have ne: "rs \<noteq> []" using assms(1) by (auto simp: conclude_def)
  from assms(1) ne assms(2) show ?thesis
  proof (cases rule: conclude_cases)
    case (cut ss x ys)
    show ?thesis
    proof (cases "ss = []")
      case False
      then have l: "last ss = rs ! (length ss - 1)" "Suc (length ss - 1) = length ss" "x = rs ! length ss"
        using cut(2) by (simp_all add: last_conv_nth nth_append)
      have "r_state (rs ! j) = Secure" if "j \<le> length ss - 1" for j
        using that cut(2,3) l(2) by (simp add: nth_append)
      moreover have "unsigned_proof L (rs ! (length ss - 1)) (rs ! Suc (length ss - 1))"
        using cut(5) False unfolding l(2) l(1) [symmetric] l(3) [symmetric] by (simp split: if_split_asm)
      moreover have "Suc (length ss - 1) < length rs" "r_state (rs ! Suc (length ss - 1)) = Insecure"
        using cut(2,4) unfolding l(2) by simp_all
      ultimately show ?thesis by blast
    qed (use cut(2,4) in simp)
  next
    case all
    then have "r_state (last rs) = Secure" using ne by auto
    with all(2) have "denialOfExistence (last rs) = Nsec3OptOut"
      by (simp add: last_conclusion_def Let_def split: if_split_asm)
    with all(1) show ?thesis by simp
  qed simp
qed

section \<open>Nesting, TTLs and complete runs\<close>

text \<open>Adding a sequence of responses to a new authenticator and asking for the result.\<close>

definition authenticated ::
  "dnslib \<Rightarrow> dnssec_cfg \<Rightarrow> (nat \<Rightarrow> nat \<Rightarrow> sigclock) \<Rightarrow> question \<Rightarrow> input list \<Rightarrow> (conclusion \<times> Authenticator) go" where
  "authenticated L cfg clk q ins = bindG (add_all L cfg (NewAuth L cfg clk q) ins) (Result L cfg)"

lemma result_ttl_loop_spec:
  "result_ttl_loop t ss f v = (f \<or> (\<exists>s \<in> set ss. rtype s = t \<and> verified s),
     fold (\<lambda>s m. min m (ttl s)) (filter (\<lambda>s. rtype s = t \<and> verified s) ss) v)"
  by (induction t ss f v rule: result_ttl_loop.induct) auto

lemma resultTTL_spec:
  "resultTTL cfg t ss = (if \<exists>s \<in> set ss. rtype s = t \<and> verified s
     then (Min (insert (MaxAllowedTTL cfg) (ttl ` {s \<in> set ss. rtype s = t \<and> verified s})), True) else (0, False))"
  by (simp add: resultTTL_def result_ttl_loop_spec fold_min_eq_Min)

lemma nested_by_depth:
  assumes names: "dns_names L valid" "valid x" "valid y" "valid c"
    and sub: "IsSubDomain L x c" "IsSubDomain L y c" and lt: "CountLabel L x < CountLabel L y"
  shows "IsSubDomain L x y \<and> \<not> namesEqual L x y"
proof -
  let ?C = "CanonicalName L" and ?anc = "ancestors L (CanonicalName L c)" and ?n = "length (Split L (CanonicalName L c))"
  have c: "canonical L valid (?C c)" and cx: "canonical L valid (?C x)" and cy: "canonical L valid (?C y)"
    using names by (simp_all add: canonical_CanonicalName)
  have count: "CountLabel L (?C z) = CountLabel L z" if "valid z" "canonical L valid (?C z)" for z
    using that names(1) by (simp add: CountLabel_valid CountLabel_canonical)
  have mem: "?C x \<in> set ?anc" "?C y \<in> set ?anc" using sub names by (simp_all add: IsSubDomain_valid)
  note ax = ancestor_by_CountLabel [OF names(1) c mem(1), unfolded count [OF names(2) cx]]
  note ay = ancestor_by_CountLabel [OF names(1) c mem(2), unfolded count [OF names(3) cy]]
  have "?C x = drop (?n - CountLabel L y) ?anc ! (CountLabel L y - CountLabel L x)"
    using ax ay lt by (simp add: length_ancestors)
  moreover have "CountLabel L y - CountLabel L x < length (drop (?n - CountLabel L y) ?anc)"
    using ay(2) by (simp add: length_ancestors)
  ultimately have "?C x \<in> set (drop (?n - CountLabel L y) ?anc)" by (metis nth_mem)
  also have "drop (?n - CountLabel L y) ?anc = ancestors L (?C y)"
    using ancestors_drop [OF names(1) c, of "?n - CountLabel L y"] ay(1) by simp
  finally have "IsSubDomain L x y" using names by (simp add: IsSubDomain_valid)
  moreover have "?C x \<noteq> ?C y" using count [OF names(2) cx] count [OF names(3) cy] lt by auto
  ultimately show ?thesis by (simp add: namesEqual_def)
qed

end
