(* ===== verification/Dns_Instance.thy ===== *)
theory Dns_Instance
  imports Dns_Names
begin

text \<open>
  A concrete, executable instance \<open>ref_lib\<close> of the library's functions, on names without
  escapes, that satisfies the laws of the library. It shows that the hypotheses of the
  theorems can hold together; the concrete examples of the development run on it. Its
  cryptography is the simplest that can accept and reject: a signature verifies with the key
  whose public key string it repeats, on a non-empty RRset, and the digest of a key is its
  public key string.
\<close>

section \<open>Names\<close>

definition ref_lower :: "char \<Rightarrow> char" where
  "ref_lower c = (let n = of_char c :: nat in if 65 \<le> n \<and> n \<le> 90 then char_of (n + 32) else c)"

definition ref_Fqdn :: "string \<Rightarrow> string" where
  "ref_Fqdn s = (if s \<noteq> [] \<and> last s = CHR ''.'' then s else s @ ''.'')"

definition ref_CanonicalName :: "string \<Rightarrow> string" where
  "ref_CanonicalName s = map ref_lower (ref_Fqdn s)"

text \<open>The label starts after position \<open>n\<close>; the last character ends the name.\<close>

fun ref_starts :: "nat \<Rightarrow> string \<Rightarrow> nat list" where
  "ref_starts n [] = []"
| "ref_starts n [c] = []"
| "ref_starts n (c # d # cs) =
     (if c = CHR ''.'' then Suc n # ref_starts (Suc n) (d # cs) else ref_starts (Suc n) (d # cs))"

definition ref_Split :: "string \<Rightarrow> nat list" where
  "ref_Split s = (if s = [] \<or> s = ''.'' then [] else 0 # ref_starts 0 s)"

definition ref_CountLabel :: "string \<Rightarrow> nat" where
  "ref_CountLabel s = length (ref_Split (ref_CanonicalName s))"

definition ref_ancestors :: "string \<Rightarrow> string list" where
  "ref_ancestors s = map (\<lambda>i. drop i s) (ref_Split s @ [length s - 1])"

definition ref_IsSubDomain :: "string \<Rightarrow> string \<Rightarrow> bool" where
  "ref_IsSubDomain p c = (ref_CanonicalName p \<in> set (ref_ancestors (ref_CanonicalName c)))"

definition ref_label :: "string \<Rightarrow> string" where
  "ref_label s = takeWhile (\<lambda>c. c \<noteq> CHR ''.'') s"

definition ref_SplitDomainName :: "string \<Rightarrow> string list" where
  "ref_SplitDomainName s = map (\<lambda>i. ref_label (drop i s)) (ref_Split s)"

text \<open>No empty label: no two dots in a row and, but for the root, none at the start.\<close>

fun no_empty_label :: "string \<Rightarrow> bool" where
  "no_empty_label [] = True"
| "no_empty_label [c] = True"
| "no_empty_label (c # d # cs) = (\<not> (c = CHR ''.'' \<and> d = CHR ''.'') \<and> no_empty_label (d # cs))"

definition ref_valid :: "string \<Rightarrow> bool" where
  "ref_valid s \<longleftrightarrow> s = ''.'' \<or> (s \<noteq> [] \<and> hd s \<noteq> CHR ''.'' \<and> no_empty_label s)"

section \<open>The library\<close>

definition ref_TypeName :: "u16 \<Rightarrow> string" where
  "ref_TypeName t =
     (if t = TypeA then ''A'' else if t = TypeNS then ''NS'' else if t = TypeCNAME then ''CNAME''
      else if t = TypeSOA then ''SOA'' else if t = TypeAAAA then ''AAAA''
      else if t = TypeDS then ''DS'' else if t = TypeDNSKEY then ''DNSKEY'' else '''')"

definition ref_ToDS :: "dnskey \<Rightarrow> u8 \<Rightarrow> ds option" where
  "ref_ToDS k t =
     (if t = 1 \<or> t = 2 \<or> t = 4 then
        Some \<lparr>ds_Hdr = (dk_Hdr k)\<lparr>Rrtype := TypeDS\<rparr>, ds_KeyTag = dk_Flags k,
          ds_Algorithm = dk_Algorithm k, DigestType = t, Digest = PublicKey k\<rparr>
      else None)"

definition ref_SigVerify :: "rrsig \<Rightarrow> dnskey \<Rightarrow> rr list \<Rightarrow> goerr option" where
  "ref_SigVerify s k rrs =
     (if rrs \<noteq> [] \<and> Signature s = PublicKey k then None else Some (ExtErr ''bad signature''))"

definition ref_ValidityPeriod :: "rrsig \<Rightarrow> gotime \<Rightarrow> bool" where
  "ref_ValidityPeriod s t \<longleftrightarrow> uint (Inception s) \<le> Unix t \<and> Unix t \<le> uint (Expiration s)"

definition ref_SetQuestion :: "msg \<Rightarrow> string \<Rightarrow> u16 \<Rightarrow> msg" where
  "ref_SetQuestion m z t = m\<lparr>MsgId := 1, RecursionDesired := True,
     Question := [\<lparr>qName = z, Qtype = t, Qclass = ClassINET\<rparr>]\<rparr>"

definition ref_SetEdns0 :: "msg \<Rightarrow> u16 \<Rightarrow> bool \<Rightarrow> msg" where
  "ref_SetEdns0 m sz d = m\<lparr>Extra := Extra m @
     [OPT \<lparr>Name = ''.'', Rrtype = TypeOPT, Class = sz, Ttl = (if d then 32768 else 0)\<rparr>]\<rparr>"

definition ref_SetReply :: "msg \<Rightarrow> msg \<Rightarrow> msg" where
  "ref_SetReply m q = m\<lparr>MsgId := MsgId q, MsgResponse := True, Opcode := Opcode q,
     RecursionDesired := RecursionDesired q, CheckingDisabled := CheckingDisabled q,
     Rcode := RcodeSuccess, Question := take 1 (Question q)\<rparr>"

definition ref_IsEdns0 :: "msg \<Rightarrow> rr_hdr option" where
  "ref_IsEdns0 m = (case rev (List.map_filter as_OPT (Extra m)) of [] \<Rightarrow> None | h # _ \<Rightarrow> Some h)"

definition ref_lib :: dnslib where
  "ref_lib = \<lparr>CanonicalName = ref_CanonicalName, Fqdn = ref_Fqdn, Split = ref_Split,
     SplitDomainName = ref_SplitDomainName, CountLabel = ref_CountLabel,
     IsSubDomain = ref_IsSubDomain, TypeName = ref_TypeName, Dedup = remdups,
     KeyTag = dk_Flags, ToDS = ref_ToDS, SigVerify = ref_SigVerify,
     ValidityPeriod = ref_ValidityPeriod,
     Match = (\<lambda>n s. Name (nsec3_Hdr n) = s), Cover = (\<lambda>n s. nsec3_NextDomain n = s),
     Do = (\<lambda>h. Ttl h = 32768), UDPSize = Class,
     SetQuestion = ref_SetQuestion, SetEdns0 = ref_SetEdns0, SetReply = ref_SetReply,
     IsEdns0 = ref_IsEdns0\<rparr>"

section \<open>The instance satisfies the laws of the names\<close>

lemma ref_lower_idem: "ref_lower (ref_lower c) = ref_lower c"
proof -
  have "of_char (char_of (n + 32) :: char) = n + 32" if "n \<le> 90" for n :: nat
    using that by simp
  then show ?thesis by (auto simp: ref_lower_def Let_def)
qed

lemma ref_lower_dot: "ref_lower c = CHR ''.'' \<longleftrightarrow> c = CHR ''.''"
proof
  assume eq: "ref_lower c = CHR ''.''"
  show "c = CHR ''.''"
  proof (cases "65 \<le> (of_char c :: nat) \<and> (of_char c :: nat) \<le> 90")
    case True
    then have "of_char (ref_lower c) = (of_char c :: nat) + 32"
      by (simp add: ref_lower_def Let_def)
    with eq True show ?thesis by simp
  next
    case False
    with eq show ?thesis by (simp add: ref_lower_def Let_def)
  qed
qed (simp add: ref_lower_def)

lemma ref_CanonicalName_idem: "ref_CanonicalName (ref_CanonicalName s) = ref_CanonicalName s"
proof -
  have "ref_Fqdn (map ref_lower (ref_Fqdn s)) = map ref_lower (ref_Fqdn s)"
    by (auto simp: ref_Fqdn_def last_map ref_lower_dot)
  then show ?thesis by (simp add: ref_CanonicalName_def ref_lower_idem)
qed

lemma no_empty_label_map: "no_empty_label (map ref_lower s) = no_empty_label s"
  by (induction s rule: no_empty_label.induct) (simp_all add: ref_lower_dot)

lemma no_empty_label_snoc: "last s \<noteq> CHR ''.'' \<Longrightarrow> no_empty_label s \<Longrightarrow> no_empty_label (s @ ''.'')"
  by (induction s rule: no_empty_label.induct) auto

lemma ref_valid_CanonicalName: "ref_valid s \<Longrightarrow> ref_valid (ref_CanonicalName s)"
proof -
  assume v: "ref_valid s"
  have hd: "s \<noteq> [] \<Longrightarrow> hd (ref_Fqdn s) = hd s" and ne: "ref_Fqdn s \<noteq> []"
    by (auto simp: ref_Fqdn_def)
  show ?thesis
  proof (cases "s = ''.''")
    case True
    then show ?thesis by (simp add: ref_valid_def ref_CanonicalName_def ref_Fqdn_def ref_lower_def)
  next
    case False
    with v have "s \<noteq> []" "hd s \<noteq> CHR ''.''" "no_empty_label s" by (simp_all add: ref_valid_def)
    then have "no_empty_label (ref_Fqdn s)" "hd (ref_Fqdn s) \<noteq> CHR ''.''"
      by (auto simp: ref_Fqdn_def no_empty_label_snoc)
    with ne show ?thesis
      by (simp add: ref_valid_def ref_CanonicalName_def no_empty_label_map hd_map ref_lower_dot)
  qed
qed

lemma ref_starts_bounds: "x \<in> set (ref_starts n s) \<Longrightarrow> n < x \<and> x < n + length s"
  by (induction n s rule: ref_starts.induct) (auto split: if_splits)

lemma ref_starts_sorted: "sorted_wrt (<) (ref_starts n s)"
  by (induction n s rule: ref_starts.induct) (auto dest: ref_starts_bounds)

lemma ref_starts_Cons:
  "ref_starts n s = x # xs \<Longrightarrow> ref_starts x (drop (x - n) s) = xs"
proof (induction n s rule: ref_starts.induct)
  case (3 n c d cs)
  show ?case
  proof (cases "c = CHR ''.''")
    case True
    with "3.prems" show ?thesis by auto
  next
    case False
    with 3 have "ref_starts x (drop (x - Suc n) (d # cs)) = xs"
      and "x \<in> set (ref_starts (Suc n) (d # cs))" by auto
    moreover from this(2) have gt: "Suc n < x" using ref_starts_bounds by blast
    moreover from gt have "drop (x - n) (c # d # cs) = drop (x - Suc n) (d # cs)"
      by (metis Suc_diff_Suc Suc_lessD drop_Suc_Cons)
    ultimately show ?thesis by simp
  qed
qed simp_all

lemma ref_starts_shift: "ref_starts (n + m) s = map (\<lambda>j. j + m) (ref_starts n s)"
  by (induction n s rule: ref_starts.induct) simp_all

text \<open>Dropping up to a label start leaves the later starts, shifted.\<close>

lemma ref_starts_drop:
  "i < length (ref_starts n s) \<Longrightarrow>
     ref_starts (ref_starts n s ! i) (drop (ref_starts n s ! i - n) s) = drop (Suc i) (ref_starts n s)"
proof (induction i)
  case 0
  then obtain x xs where "ref_starts n s = x # xs" by (cases "ref_starts n s") auto
  with ref_starts_Cons [OF this] show ?case by simp
next
  case (Suc i)
  let ?st = "ref_starts n s"
  define x where "x = ?st ! i"
  define y where "y = ?st ! Suc i"
  from Suc have IH: "ref_starts x (drop (x - n) s) = drop (Suc i) ?st" by (simp add: x_def)
  also have "\<dots> = y # drop (Suc (Suc i)) ?st"
    using Suc.prems by (simp add: Cons_nth_drop_Suc y_def)
  finally have "ref_starts y (drop (y - x) (drop (x - n) s)) = drop (Suc (Suc i)) ?st"
    by (rule ref_starts_Cons)
  moreover have "n < x" "x < y"
    using ref_starts_bounds [of x n s] sorted_wrt_nth_less [OF ref_starts_sorted, of i "Suc i" n s]
      Suc.prems by (auto simp: x_def y_def)
  ultimately show ?case by (simp add: y_def)
qed

text \<open>Where a label starts after a dot, it is not empty.\<close>

lemma ref_starts_nonempty_label:
  "no_empty_label s \<Longrightarrow> x \<in> set (ref_starts n s) \<Longrightarrow> s ! (x - n) \<noteq> CHR ''.''"
proof (induction n s rule: ref_starts.induct)
  case (3 n c d cs)
  from "3.prems" consider "c = CHR ''.''" "x = Suc n" | "x \<in> set (ref_starts (Suc n) (d # cs))"
    by (auto split: if_splits)
  then show ?case
  proof cases
    case 2
    with 3 have "(d # cs) ! (x - Suc n) \<noteq> CHR ''.''" by auto
    moreover from 2 have "x - n = Suc (x - Suc n)" using ref_starts_bounds [of x "Suc n" "d # cs"] by linarith
    ultimately show ?thesis by simp
  qed (use "3.prems" in simp)
qed simp_all

lemma no_empty_label_drop: "no_empty_label s \<Longrightarrow> no_empty_label (drop k s)"
proof (induction s arbitrary: k rule: no_empty_label.induct)
  case (3 c d cs)
  then show ?case by (cases k) simp_all
next
  case (2 c)
  then show ?case by (cases k) simp_all
qed simp

lemma ref_lib_simps [simp]:
  "CanonicalName ref_lib = ref_CanonicalName" "Split ref_lib = ref_Split"
  "CountLabel ref_lib = ref_CountLabel" "IsSubDomain ref_lib = ref_IsSubDomain"
  "ancestors ref_lib = ref_ancestors"
  by (simp_all add: ref_lib_def ancestors_def ref_ancestors_def fun_eq_iff)

lemma ref_canonical_iff:
  "canonical ref_lib ref_valid s \<longleftrightarrow>
     s = ''.'' \<or> (s \<noteq> [] \<and> hd s \<noteq> CHR ''.'' \<and> no_empty_label s \<and> last s = CHR ''.'' \<and> map ref_lower s = s)"
    (is "_ \<longleftrightarrow> ?R")
proof
  assume can: "canonical ref_lib ref_valid s"
  then have "map ref_lower (ref_Fqdn s) = s" by (simp add: canonical_def ref_CanonicalName_def)
  then have "length (ref_Fqdn s) = length s" by (metis length_map)
  then have "ref_Fqdn s = s" "s \<noteq> [] \<and> last s = CHR ''.''"
    by (auto simp: ref_Fqdn_def split: if_splits)
  with can show ?R by (auto simp: canonical_def ref_valid_def ref_CanonicalName_def)
next
  assume ?R
  then show "canonical ref_lib ref_valid s"
    by (auto simp: canonical_def ref_valid_def ref_CanonicalName_def ref_Fqdn_def ref_lower_def)
qed

lemma ref_Split_props:
  assumes "s \<noteq> []" "hd s \<noteq> CHR ''.''" "no_empty_label s" "last s = CHR ''.''"
  shows "ref_Split s = 0 # ref_starts 0 s" and "i \<in> set (ref_Split s) \<Longrightarrow> i < length s - 1"
    and "i \<in> set (ref_Split s) \<Longrightarrow> s ! i \<noteq> CHR ''.''"
proof -
  from assms(2) show eq: "ref_Split s = 0 # ref_starts 0 s"
    using assms(1) by (auto simp: ref_Split_def)
  show nd: "s ! i \<noteq> CHR ''.''" if "i \<in> set (ref_Split s)"
    using that assms ref_starts_nonempty_label [OF assms(3), of i 0] by (auto simp: eq hd_conv_nth)
  show "i < length s - 1" if i: "i \<in> set (ref_Split s)"
  proof -
    from i have "i < length s" using assms(1) ref_starts_bounds [of i 0 s] by (auto simp: eq)
    moreover have "i \<noteq> length s - 1"
      using nd [OF i] assms(4) last_conv_nth [OF assms(1)] by auto
    ultimately show ?thesis by simp
  qed
qed

lemma ref_Split_drop:
  assumes "s \<noteq> []" "hd s \<noteq> CHR ''.''" "no_empty_label s" "last s = CHR ''.''"
    and i: "i < length (ref_Split s)"
  shows "ref_Split (drop (ref_Split s ! i) s) = map (\<lambda>j. j - ref_Split s ! i) (drop i (ref_Split s))"
proof (cases i)
  case 0
  then show ?thesis using ref_Split_props(1) [OF assms(1-4)] by simp
next
  case (Suc m)
  note eq = ref_Split_props(1) [OF assms(1-4)]
  define k where "k = ref_starts 0 s ! m"
  have k: "ref_Split s ! i = k" "m < length (ref_starts 0 s)" "k \<in> set (ref_Split s)"
    using i by (auto simp: eq Suc k_def)
  note kp = ref_Split_props(2,3) [OF assms(1-4) k(3)]
  have ne: "drop k s \<noteq> []" "drop k s \<noteq> ''.''"
  proof -
    from kp(1) show "drop k s \<noteq> []" by simp
    then have "hd (drop k s) = s ! k" by (simp add: hd_drop_conv_nth)
    with kp(2) show "drop k s \<noteq> ''.''" by auto
  qed
  have "map (\<lambda>j. j + k) (ref_starts 0 (drop k s)) = drop (Suc m) (ref_starts 0 s)"
    using ref_starts_drop [OF k(2)] ref_starts_shift [of 0 k "drop k s"] by (simp add: k_def)
  then have "map (\<lambda>j. j - k) (map (\<lambda>j. j + k) (ref_starts 0 (drop k s))) =
      map (\<lambda>j. j - k) (drop (Suc m) (ref_starts 0 s))" by simp
  then have "ref_starts 0 (drop k s) = map (\<lambda>j. j - k) (drop (Suc m) (ref_starts 0 s))"
    by (simp add: o_def)
  moreover have "drop m (ref_starts 0 s) = k # drop (Suc m) (ref_starts 0 s)"
    using k(2) by (simp add: Cons_nth_drop_Suc k_def)
  moreover have "ref_Split (drop k s) = 0 # ref_starts 0 (drop k s)"
    using ne by (simp add: ref_Split_def)
  moreover have "drop i (ref_Split s) = drop m (ref_starts 0 s)" by (simp add: eq Suc)
  ultimately show ?thesis by (simp add: k(1))
qed

theorem ref_names: "dns_names ref_lib ref_valid"
proof -
  let ?can = "canonical ref_lib ref_valid"
  have suffix: "?can (drop k s) \<and> ref_Split (drop k s) = map (\<lambda>j. j - k) (drop i (ref_Split s))"
    if can: "?can s" and i: "i < length (ref_Split s)" and k: "k = ref_Split s ! i" for s i k
  proof -
    from i have "s \<noteq> ''.''" by (auto simp: ref_Split_def)
    with can have s: "s \<noteq> []" "hd s \<noteq> CHR ''.''" "no_empty_label s" "last s = CHR ''.''"
      "map ref_lower s = s" by (simp_all add: ref_canonical_iff)
    note kp = ref_Split_props(2,3) [OF s(1-4), of k]
    from i k have "k \<in> set (ref_Split s)" by simp
    with kp have "drop k s \<noteq> []" "hd (drop k s) \<noteq> CHR ''.''" "last (drop k s) = CHR ''.''"
      using s(4) by (auto simp: hd_drop_conv_nth)
    then have "?can (drop k s)"
      using s(3,5) by (simp add: ref_canonical_iff no_empty_label_drop flip: drop_map)
    with ref_Split_drop [OF s(1-4) i] k show ?thesis by simp
  qed
  have sorted: "sorted_wrt (<) (ref_Split s)" for s
    using ref_starts_bounds [of _ 0 s] by (auto simp: ref_Split_def ref_starts_sorted)
  have shape: "s \<noteq> [] \<and> last s = CHR ''.'' \<and> (\<forall>i \<in> set (ref_Split s). i < length s - 1) \<and>
      (s \<noteq> ''.'' \<longrightarrow> ref_Split s \<noteq> [] \<and> hd (ref_Split s) = 0)" if "?can s" for s
  proof (cases "s = ''.''")
    case True
    then show ?thesis by (simp add: ref_Split_def)
  next
    case False
    with that show ?thesis
      using ref_Split_props(1,2) [of s] by (auto simp: ref_canonical_iff)
  qed
  have canon: "?can (ref_CanonicalName s)" if "ref_valid s" for s
    using that by (simp add: canonical_def ref_valid_CanonicalName ref_CanonicalName_idem)
  have root: "?can ''.''" "ref_Split ''.'' = []"
    by (simp_all add: ref_canonical_iff ref_Split_def)
  show ?thesis
    unfolding dns_names_def ref_lib_simps
  proof (intro conjI allI impI)
    fix s i
    assume "?can s" "i < length (ref_Split s)"
    from suffix [OF this refl] show "?can (drop (ref_Split s ! i) s)"
      and "ref_Split (drop (ref_Split s ! i) s) = map (\<lambda>j. j - ref_Split s ! i) (drop i (ref_Split s))"
      by blast+
  qed (use root canon sorted shape in \<open>simp_all add: ref_CountLabel_def ref_IsSubDomain_def\<close>)
qed

end
