(* ===== verification/Dnssec_Examples.thy ===== *)
theory Dnssec_Examples
  imports Dnssec_Authenticator Dns_Instance
begin

text \<open>
  Concrete zones and responses over the reference library, on which the theorems about the
  dnssec package are exercised: a root zone that delegates to the zone \<open>a.\<close>, each with
  one key, and signed responses of both.
\<close>

definition ex_hdr :: "string \<Rightarrow> u16 \<Rightarrow> rr_hdr" where
  "ex_hdr n t = \<lparr>Name = n, Rrtype = t, Class = 1, Ttl = 300\<rparr>"

definition ex_key :: "string \<Rightarrow> dnskey" where
  "ex_key zone = \<lparr>dk_Hdr = ex_hdr zone 48, dk_Flags = 257, dk_Protocol = 3, dk_Algorithm = 8, PublicKey = zone @ ''key''\<rparr>"

definition ex_ds :: "string \<Rightarrow> ds" where
  "ex_ds zone = \<lparr>ds_Hdr = ex_hdr zone 43, ds_KeyTag = 257, ds_Algorithm = 8, DigestType = 2, Digest = zone @ ''key''\<rparr>"

definition ex_sig :: "string \<Rightarrow> string \<Rightarrow> u16 \<Rightarrow> rrsig" where
  "ex_sig zone n t = \<lparr>sig_Hdr = ex_hdr n 46, TypeCovered = t, sig_Algorithm = 8,
     Labels = of_nat (ref_CountLabel n), OrigTtl = 600, Expiration = 2000, Inception = 0, sig_KeyTag = 257,
     SignerName = zone, Signature = zone @ ''key''\<rparr>"

definition ex_zone :: "string \<Rightarrow> Zone" where
  "ex_zone n = \<lparr>zName = n, GetDNSKEYRecords = Inr [DNSKEY (ex_key n), RRSIG (ex_sig n n 48)]\<rparr>"

definition ex_query :: "string \<Rightarrow> u16 \<Rightarrow> question" where
  "ex_query n t = \<lparr>qName = n, Qtype = t, Qclass = 1\<rparr>"

definition ex_root_msg :: msg where
  "ex_root_msg = new_Msg\<lparr>Question := [ex_query ''a.'' 1],
     Ns := [NS (ex_hdr ''a.'' 2) ''ns.a.'', DS (ex_ds ''a.''), RRSIG (ex_sig ''.'' ''a.'' 43)]\<rparr>"

definition ex_leaf_msg :: msg where
  "ex_leaf_msg = new_Msg\<lparr>Question := [ex_query ''a.'' 1],
     Answer := [A (ex_hdr ''a.'' 1) ''192.0.2.1'', RRSIG (ex_sig ''a.'' ''a.'' 1)]\<rparr>"

definition ex_cfg :: dnssec_cfg where
  "ex_cfg = default_dnssec_cfg\<lparr>RootTrustAnchors := [ex_ds ''.'']\<rparr>"

definition ex_clk :: "nat \<Rightarrow> nat \<Rightarrow> sigclock" where
  "ex_clk = (\<lambda>_ _ _. (1000 * Second, 1000 * Second))"

definition ex_answer :: rr where
  "ex_answer = A (ex_hdr ''a.'' 1) ''192.0.2.1''"

definition ex_inputs :: "input list" where
  "ex_inputs = [\<lparr>in_zone = ex_zone ''a.'', in_msg = ex_leaf_msg\<rparr>, \<lparr>in_zone = ex_zone ''.'', in_msg = ex_root_msg\<rparr>]"

definition ex_unsigned_msg :: msg where
  "ex_unsigned_msg = new_Msg\<lparr>Question := [ex_query ''a.'' 1],
     Ns := [NS (ex_hdr ''a.'' 2) ''ns.a.'',
            NSEC \<lparr>nsec_Hdr = ex_hdr ''a.'' 47, NextDomain = ''b.'', nsec_TypeBitMap = [2]\<rparr>,
            RRSIG (ex_sig ''.'' ''a.'' 47)]\<rparr>"

definition ex_unsigned_inputs :: "input list" where
  "ex_unsigned_inputs = [\<lparr>in_zone = ex_zone ''.'', in_msg = ex_unsigned_msg\<rparr>,
     \<lparr>in_zone = ex_zone ''a.'', in_msg = ex_leaf_msg\<rparr>]"

definition ex_forged_inputs :: "input list" where
  "ex_forged_inputs = [\<lparr>in_zone = ex_zone ''.'', in_msg = ex_root_msg\<rparr>,
     \<lparr>in_zone = ex_zone ''a.'', in_msg = ex_leaf_msg\<lparr>Answer := [ex_answer]\<rparr>\<rparr>]"

definition ex_strict_cfg :: dnssec_cfg where
  "ex_strict_cfg = ex_cfg\<lparr>RequireAllSignaturesValid := True\<rparr>"

definition ex_gap_msg :: msg where
  "ex_gap_msg = new_Msg\<lparr>Question := [ex_query ''a.'' 1],
     Answer := [A (ex_hdr ''x.a.'' 1) ''192.0.2.2'', RRSIG (ex_sig ''a.'' ''x.a.'' 1),
                A (ex_hdr ''a.'' 1) ''203.0.113.9'', RRSIG ((ex_sig ''a.'' ''a.'' 1)\<lparr>Signature := ''forged''\<rparr>)]\<rparr>"

definition ex_nsec :: "string \<Rightarrow> string \<Rightarrow> nsec" where
  "ex_nsec a b = \<lparr>nsec_Hdr = ex_hdr a 47, NextDomain = b, nsec_TypeBitMap = [1]\<rparr>"

definition ex_nsec3 :: "string \<Rightarrow> string \<Rightarrow> nsec3" where
  "ex_nsec3 a b = \<lparr>nsec3_Hdr = ex_hdr a 50, Hash = 1, nsec3_Flags = 0, Iterations = 0, Salt = [],
     nsec3_NextDomain = b, nsec3_TypeBitMap = [2, 6]\<rparr>"

definition ex_doe3 :: DenialOfExistenceNSEC3 where
  "ex_doe3 = NewDenialOfExistenceNSEC3 ''a.'' [ex_nsec3 ''a.'' ''x.a.'', ex_nsec3 ''a.'' ''*.a.'']"

lemma ex_run: "map_sum id fst (authenticated ref_lib ex_cfg ex_clk (ex_query ''a.'' 1) ex_inputs) = Inr (Secure, NotFound, None)"
  by code_simp

lemma ex_run_Inr:
  "\<exists>a. authenticated ref_lib ex_cfg ex_clk (ex_query ''a.'' 1) ex_inputs = Inr ((Secure, NotFound, None), a)"
  using ex_run by (cases "authenticated ref_lib ex_cfg ex_clk (ex_query ''a.'' 1) ex_inputs") auto

lemma ex_unsigned_run:
  "\<exists>a. authenticated ref_lib ex_cfg ex_clk (ex_query ''a.'' 1) ex_unsigned_inputs = Inr ((Insecure, NsecMissingDS, None), a)"
proof -
  have "map_sum id fst (authenticated ref_lib ex_cfg ex_clk (ex_query ''a.'' 1) ex_unsigned_inputs) =
      Inr (Insecure, NsecMissingDS, None)" by code_simp
  then show ?thesis
    by (cases "authenticated ref_lib ex_cfg ex_clk (ex_query ''a.'' 1) ex_unsigned_inputs") auto
qed

lemma ref_rejects_empty: "verify_rejects_empty ref_lib"
  by (simp add: verify_rejects_empty_def ref_lib_def ref_SigVerify_def)

end
