(* ===== verification/Dnssec_Properties.thy ===== *)
theory Dnssec_Properties
  imports Dnssec_Examples
begin

text \<open>
  The properties of the dnssec package, each with a concrete instance of its hypotheses where
  it has any. The lemmas they rest on are in the component theories.
\<close>



text \<open>
  C2. The authenticator with its buffer and index refines the abstract one that is given the
  inputs in order of depth: for any sequence of responses that the guards of \<open>AddResponse\<close>
  let pass, one per zone, in any order, \<open>Result\<close> is the verdict of the chain over the
  inputs sorted by the number of labels of their zone.
\<close>

theorem buffered_chain_refines_ordered_chain:
  assumes "dns_names L valid" "valid (qName q)" "\<forall>i \<in> set ins. admissible L valid q i"
    and "distinct (map (input_depth L) ins)"
    and "returns (add_all L cfg (NewAuth L cfg clk q) ins)"
  shows "map_sum id fst (authenticated L cfg clk q ins) =
     chain_verdict L cfg q (\<lambda>n. verify L cfg (clk n)) (sort_key (input_depth L) ins)"
  using assms(5) Result_refines [OF assms(1-4)] by (auto simp: authenticated_def returns_iff)

theorem buffered_chain_refines_ordered_chain_witness:
  "map_sum id fst (authenticated ref_lib ex_cfg ex_clk (ex_query ''a.'' 1) ex_inputs) =
     chain_verdict ref_lib ex_cfg (ex_query ''a.'' 1) (\<lambda>n. verify ref_lib ex_cfg (ex_clk n))
       (sort_key (input_depth ref_lib) ex_inputs)"
proof (rule buffered_chain_refines_ordered_chain [OF ref_names])
  show "ref_valid (qName (ex_query ''a.'' 1))" by code_simp
  show "\<forall>i \<in> set ex_inputs. admissible ref_lib ref_valid (ex_query ''a.'' 1) i" by code_simp
  show "distinct (map (input_depth ref_lib) ex_inputs)" by code_simp
  show "returns (add_all ref_lib ex_cfg (NewAuth ref_lib ex_cfg ex_clk (ex_query ''a.'' 1)) ex_inputs)" by code_simp
qed

text \<open>
  C3. The order in which the responses arrive does not change the conclusion.
\<close>

theorem result_order_independent:
  assumes "dns_names L valid" "valid (qName q)" "\<forall>i \<in> set ins. admissible L valid q i"
    and "distinct (map (input_depth L) ins)" and "mset ins' = mset ins"
    and "returns (add_all L cfg (NewAuth L cfg clk q) ins)"
    and "returns (add_all L cfg (NewAuth L cfg clk q) ins')"
  shows "map_sum id fst (authenticated L cfg clk q ins') = map_sum id fst (authenticated L cfg clk q ins)"
proof -
  have perm: "set ins' = set ins" "distinct (map (input_depth L) ins')"
    using assms(4,5) by (metis mset_eq_setD, metis distinct_map mset_eq_imp_distinct_iff mset_eq_setD)
  have "sort_key (input_depth L) ins' = sort_key (input_depth L) ins"
    using assms(4,5) perm by (intro sort_key_inj_key_eq) (auto simp: distinct_map)
  moreover have "\<forall>i \<in> set ins'. admissible L valid q i" using assms(3) perm(1) by simp
  ultimately show ?thesis
    using Result_refines [OF assms(1-4)] Result_refines [OF assms(1,2) _ perm(2)] assms(6,7)
    by (auto simp: authenticated_def returns_iff)
qed

theorem result_order_independent_witness:
  "map_sum id fst (authenticated ref_lib ex_cfg ex_clk (ex_query ''a.'' 1) (rev ex_inputs)) =
     map_sum id fst (authenticated ref_lib ex_cfg ex_clk (ex_query ''a.'' 1) ex_inputs)"
proof (rule result_order_independent [OF ref_names])
  show "ref_valid (qName (ex_query ''a.'' 1))" by code_simp
  show "\<forall>i \<in> set ex_inputs. admissible ref_lib ref_valid (ex_query ''a.'' 1) i" by code_simp
  show "distinct (map (input_depth ref_lib) ex_inputs)" by code_simp
  show "returns (add_all ref_lib ex_cfg (NewAuth ref_lib ex_cfg ex_clk (ex_query ''a.'' 1)) ex_inputs)" by code_simp
  show "returns (add_all ref_lib ex_cfg (NewAuth ref_lib ex_cfg ex_clk (ex_query ''a.'' 1)) (rev ex_inputs))" by code_simp
qed simp





text \<open>
  C6. With \<open>RequireAllSignaturesValid\<close>, a Secure verdict on a response covers its records:
  every answer record that is not an RRSIG, and every counted authority record, is in an
  RRset with a verified signature by a key of the zone. The library's \<^verbatim>\<open>RRSIG.Verify\<close>
  refuses an empty RRset, and no RRSIG covers RRSIG records.
\<close>

theorem strict_policy_covers_records:
  assumes "verify L cfg clk zone m dss = Inr (Secure, Some r, e)"
    and "RequireAllSignaturesValid cfg" "verify_rejects_empty L"
    and "\<forall>s. RRSIG s \<in> set (Answer m @ Ns m) \<longrightarrow> TypeCovered s \<noteq> TypeRRSIG"
  shows "\<exists>keys. GetDNSKEYRecords zone = Inr keys \<and>
     (\<forall>x \<in> set (Answer m). rr_type x \<noteq> TypeRRSIG \<longrightarrow>
        covered L (extractRecords as_DNSKEY keys) (r_answer r) x) \<and>
     (\<forall>x \<in> set (Ns m). counted authoritySection (r_authority r) x \<longrightarrow>
        covered L (extractRecords as_DNSKEY keys) (r_authority r) x)"
  using assms(1)
proof (cases rule: verify_cases)
  case (classified keys r0 r1 r')
  let ?ks = "extractRecords as_DNSKEY keys"
  have r0: "zName (r_zone r0) = zName zone \<and> r_msg r0 = m" using classified(3)
    by (cases rule: verifyDNSKEYs_cases) simp_all
  from classified(4) obtain sa sn where ok: "r1 = r0\<lparr>r_answer := sa, r_authority := sn\<rparr>"
    "authenticate L (clk 1) (zName zone) (Answer m) ?ks answerSection = Inr (sa, None)"
    "authenticate L (clk 2) (zName zone) (Ns m) ?ks authoritySection = Inr (sn, None)"
    "signatures_Verify cfg (sa @ sn) = None"
    by (cases rule: verifyRRSETs_cases) (use r0 in auto)
  have all: "\<forall>s \<in> set sa \<union> set sn. verified s"
    using ok(4) assms(2) by (auto simp: signatures_Verify_def verifyAll_iff)
  have cover: "covered L ?ks sigs x" if "authenticate L c (zName zone) rrs ?ks sect = Inr (sigs, None)"
    "set rrs \<subseteq> set (Answer m @ Ns m)" "\<forall>s \<in> set sigs. verified s" "x \<in> set rrs" "counted sect sigs x"
    for c rrs sect sigs x
  proof (rule covered_if_all_combinations_verified [OF that(1) assms(3) _ _ that(4,5)])
    show "\<forall>s \<in> set sigs. rtype s \<noteq> TypeRRSIG"
    proof
      fix s
      assume "s \<in> set sigs"
      with that(1) obtain i t where "RRSIG t \<in> set rrs" "authenticate_one L (c i) (CanonicalName L (zName zone)) rrs ?ks t = Inr s"
        by (rule authenticate_members)
      with that(2) assms(4) authenticate_one_frame [of L "c i" "CanonicalName L (zName zone)" rrs ?ks t s]
      show "rtype s \<noteq> TypeRRSIG" by auto
    qed
    show "(\<lambda>s. (s_name s, rtype s)) ` set sigs = verified_combinations sigs"
      using that(3) by (auto simp: verified_combinations_def)
  qed
  have r: "r_answer r = sa" "r_authority r = sn"
    using classified(5,6) ok(1) by (auto simp: only_doe_changed_def)
  show ?thesis
    using cover [OF ok(2)] cover [OF ok(3)] all classified(2)
    by (intro exI [of _ keys]) (auto simp: r counted_def)
qed simp_all

theorem strict_policy_covers_records_witness:
  "\<exists>r e. verify ref_lib ex_strict_cfg (ex_clk 0) (ex_zone ''a.'') ex_leaf_msg [ex_ds ''a.''] = Inr (Secure, Some r, e) \<and>
     covered ref_lib [ex_key ''a.''] (r_answer r) ex_answer"
proof -
  let ?v = "verify ref_lib ex_strict_cfg (ex_clk 0) (ex_zone ''a.'') ex_leaf_msg [ex_ds ''a.'']"
  have "map_sum id (\<lambda>(st, ro, e). (st, ro \<noteq> None)) ?v = Inr (Secure, True)" by code_simp
  then obtain r e where v: "?v = Inr (Secure, Some r, e)" by (cases ?v) auto
  have strict: "RequireAllSignaturesValid ex_strict_cfg" by code_simp
  have sigs: "\<forall>s. RRSIG s \<in> set (Answer ex_leaf_msg @ Ns ex_leaf_msg) \<longrightarrow> TypeCovered s \<noteq> TypeRRSIG"
    by (simp add: ex_leaf_msg_def new_Msg_def ex_sig_def)
  have "ex_answer \<in> set (Answer ex_leaf_msg)" "rr_type ex_answer \<noteq> TypeRRSIG" by code_simp+
  moreover have "GetDNSKEYRecords (ex_zone ''a.'') = Inr keys \<Longrightarrow> extractRecords as_DNSKEY keys = [ex_key ''a.'']" for keys
    by (auto simp: ex_zone_def)
  ultimately show ?thesis
    using v strict_policy_covers_records [OF v strict ref_rejects_empty sigs] by force
qed


text \<open>
  C8. A signature is marked verified exactly when the signer is the zone, the label count and
  the validity period are in order, and one of the given keys matches it and verifies it over
  the records of its name and type; a signature that is not verified carries an error.
\<close>

theorem signature_verified_iff:
  assumes "authenticate_one L t zone rrs ks s = Inr sig"
  shows "(verified sig \<longleftrightarrow> sig_checks L (fst t) zone s \<and> (\<exists>k \<in> set ks. key_matches L s k \<and>
     SigVerify L s k (extractRecordsOfNameAndType rrs (Name (sig_Hdr s)) (TypeCovered s)) = None)) \<and>
     (\<not> verified sig \<longrightarrow> s_err sig \<noteq> None)"
  using authenticate_one_verified [OF assms] authenticate_one_frame [OF assms]
  by (auto simp: sig_accepts_def)

theorem signature_verified_iff_witness:
  "\<exists>sig. authenticate_one ref_lib (1000 * Second, 1000 * Second) ''a.'' (Answer ex_leaf_msg) [ex_key ''a.'']
       (ex_sig ''a.'' ''a.'' 1) = Inr sig \<and> verified sig \<and> sig_checks ref_lib (1000 * Second) ''a.'' (ex_sig ''a.'' ''a.'' 1)"
proof -
  let ?one = "authenticate_one ref_lib (1000 * Second, 1000 * Second) ''a.'' (Answer ex_leaf_msg) [ex_key ''a.''] (ex_sig ''a.'' ''a.'' 1)"
  have "map_sum id verified ?one = Inr True" by code_simp
  then obtain sig where "?one = Inr sig" "verified sig" by (cases ?one) auto
  with signature_verified_iff [OF this(1)] show ?thesis by auto
qed

text \<open>
  C9. The signature policies accept a set of signatures exactly when it is not empty and all
  signatures are verified (strict), or the verified ones cover all the record types (default).
\<close>

theorem signature_policies:
  "signatures_Verify cfg ss = None \<longleftrightarrow> ss \<noteq> [] \<and>
     (if RequireAllSignaturesValid cfg then list_all verified ss
      else rtype ` {s \<in> set ss. verified s} = rtype ` set ss)"
proof -
  have "(rtype ` {s \<in> set ss. verified s} = rtype ` set ss) \<longleftrightarrow>
      (\<forall>s \<in> set ss. \<exists>s' \<in> set ss. rtype s' = rtype s \<and> verified s')"
    by (auto 0 3 simp: image_iff set_eq_iff) (metis+)?
  then show ?thesis by (simp add: signatures_Verify_def verifyOneOrMore_iff verifyAll_iff list_all_iff)
qed

text \<open>
  C10. The TTL handed out for a record type is at most the configured maximum and, for every
  verified signature of that type, at most the TTL and the original TTL of the RRSIG, the TTL
  of each record it covers, and the time left until the signature expires (RFC 4035, 5.3.3).
\<close>

theorem result_ttl_bounds:
  assumes "authenticate L (\<lambda>_. (now, now)) zone rrs ks sect = Inr (sigs, e)"
    and "resultTTL cfg t sigs = (v, True)" and "s \<in> set sigs" "rtype s = t" "verified s"
    and "0 \<le> Unix now" "Unix now \<le> uint (Expiration (s_rrsig s))"
  shows "v \<le> MaxAllowedTTL cfg \<and> v \<le> OrigTtl (s_rrsig s) \<and> v \<le> Ttl (sig_Hdr (s_rrsig s)) \<and>
     (\<forall>r \<in> set (rrset s). v \<le> rr_ttl r) \<and> uint v \<le> uint (Expiration (s_rrsig s)) - Unix now"
proof -
  from assms(1,3) obtain i x where one: "authenticate_one L (now, now) (CanonicalName L zone) rrs ks x = Inr s"
    by (rule authenticate_members)
  have x: "s_rrsig s = x" using authenticate_one_frame [OF one] by simp
  from assms(2-5) have "v \<le> MaxAllowedTTL cfg" "v \<le> ttl s" by (auto simp: resultTTL_spec split: if_split_asm)
  moreover have "ttl s \<le> min (min (Ttl (sig_Hdr x)) (OrigTtl x)) (ttl_delta x now)"
    and "r \<in> set (rrset s) \<Longrightarrow> ttl s \<le> rr_ttl r" for r
    unfolding authenticate_one_ttl [OF one assms(5)] snd_conv by (rule Min_le, simp, simp)+
  moreover have "v \<le> ttl_delta x now \<and> v \<le> OrigTtl x \<and> v \<le> Ttl (sig_Hdr x)"
    using calculation(2,3) by (auto intro: order_trans)
  moreover from this have "uint v \<le> uint (ttl_delta x now)" by (simp add: word_le_def)
  ultimately show ?thesis using ttl_delta_le [of now x] assms(6,7) x by (auto intro: order_trans)
qed

theorem result_ttl_bounds_witness:
  "\<exists>sigs s v. authenticate ref_lib (\<lambda>_. (1900 * Second, 1900 * Second)) ''a.'' (Answer ex_leaf_msg) [ex_key ''a.''] answerSection
       = Inr (sigs, None) \<and> s \<in> set sigs \<and> resultTTL ex_cfg 1 sigs = (v, True) \<and> uint v \<le> 100"
proof -
  let ?au = "authenticate ref_lib (\<lambda>_. (1900 * Second, 1900 * Second)) ''a.'' (Answer ex_leaf_msg) [ex_key ''a.''] answerSection"
  have "map_sum id (\<lambda>(sigs, e). (map (\<lambda>s. (rtype s, verified s, Expiration (s_rrsig s))) sigs, snd (resultTTL ex_cfg 1 sigs), e)) ?au
      = Inr ([(1, True, 2000)], True, None)" by code_simp
  then obtain s sigs v where r: "?au = Inr (sigs, None)" "s \<in> set sigs" "rtype s = 1" "verified s"
    "Expiration (s_rrsig s) = 2000" "resultTTL ex_cfg 1 sigs = (v, True)"
    by (cases ?au) (auto simp: prod_eq_iff)
  have "Unix (1900 * Second) = 1900" by (simp add: Unix_def Second_def)
  with result_ttl_bounds [OF r(1) r(6) r(2-4)] r show ?thesis by auto
qed






text \<open>
  C14. The NSEC3 wildcard proof indexes the labels of the signature's owner with the Labels field
  of the RRSIG, and panics exactly when the field is 0 or not below the number of labels.
\<close>

theorem nsec3_wildcard_proof_panics_iff:
  "nsec3_PerformExpandedWildcardProof L doe name labels = Inl IndexOutOfRange \<longleftrightarrow>
     labels = 0 \<or> length (Split L name) \<le> unat labels"
proof -
  have "nsec3_PerformExpandedWildcardProof L doe name labels = Inl IndexOutOfRange \<longleftrightarrow>
      \<not> returns (nsec3_PerformExpandedWildcardProof L doe name labels)"
    by (auto simp: nsec3_PerformExpandedWildcardProof_def Let_def bindG_def go_nth_int_def go_nth_def returns_def
        split: sum.split if_split)
  then show ?thesis unfolding expanded_wildcard_returns by (auto simp: word_gt_0 not_less)
qed

text \<open>
  C15. \<open>verify\<close> panics when a DS record matches the first key of the zone by algorithm and key
  tag and has a digest type for which the library's \<open>ToDS\<close> returns nil.
\<close>

theorem unknown_digest_type_panics:
  assumes "GetDNSKEYRecords zone = Inr keys" "extractRecords as_DNSKEY keys = k # ks"
    and "ds_Algorithm d = dk_Algorithm k" "ds_KeyTag d = KeyTag L k" "ToDS L k (DigestType d) = None"
  shows "verify L cfg clk zone m (d # dss) = Inl NilDereference"
  using assms by (simp add: verify_def verifyDNSKEYs_def Let_def ds_matches_def)

theorem unknown_digest_type_panics_witness:
  "verify ref_lib ex_cfg (ex_clk 0) (ex_zone ''a.'') ex_leaf_msg [(ex_ds ''a.'')\<lparr>DigestType := 5\<rparr>] = Inl NilDereference"
  by (rule unknown_digest_type_panics
      [of _ "[DNSKEY (ex_key ''a.''), RRSIG (ex_sig ''a.'' ''a.'' 48)]" "ex_key ''a.''" "[]"])
     (simp_all add: ex_zone_def ex_key_def ex_ds_def ref_lib_def ref_ToDS_def)

text \<open>
  C16. The guards of \<open>processResponse\<close> on the nesting of zones hold by construction: inputs that
  the guards of \<open>AddResponse\<close> let pass are nested when they are taken in order of depth.
\<close>

theorem chain_guard_passes_in_depth_order:
  assumes "dns_names L valid" "valid (qName q)" "admissible L valid q i" "admissible L valid q j"
    and "input_depth L i < input_depth L j"
    and "results a = [] \<or> r_zone (last (results a)) = in_zone i"
  shows "chain_guard L a (in_zone j) = None"
  using assms(6) nested_by_depth [OF assms(1), of "zName (in_zone i)" "zName (in_zone j)" "qName q"] assms(2-5)
  by (auto simp: chain_guard_def admissible_def input_depth_def Let_def)

theorem chain_guard_passes_in_depth_order_witness:
  "chain_guard ref_lib ((NewAuth ref_lib ex_cfg ex_clk (ex_query ''a.'' 1))\<lparr>results := [new_result (ex_zone ''.'') ex_root_msg]\<rparr>)
     (ex_zone ''a.'') = None"
proof -
  have "ref_valid (qName (ex_query ''a.'' 1))"
    "admissible ref_lib ref_valid (ex_query ''a.'' 1) (ex_inputs ! 1)"
    "admissible ref_lib ref_valid (ex_query ''a.'' 1) (ex_inputs ! 0)"
    "input_depth ref_lib (ex_inputs ! 1) < input_depth ref_lib (ex_inputs ! 0)" by code_simp+
  from chain_guard_passes_in_depth_order [OF ref_names this,
      of "(NewAuth ref_lib ex_cfg ex_clk (ex_query ''a.'' 1))\<lparr>results := [new_result (ex_zone ''.'') ex_root_msg]\<rparr>"]
  show ?thesis by (simp add: ex_inputs_def)
qed

end
