(* ===== verification/Resolver_Functions.thy ===== *)
theory Resolver_Functions
  imports Dnssec_Types
begin

text \<open>
  functions.go and response.go of the resolver package: the names of record types and
  response codes, the record helpers, and the \<open>Response\<close> that every exchanger returns. A
  \<^verbatim>\<open>*Response\<close> is a \<open>Response option\<close>, and so is the message in it.
\<close>

section \<open>functions.go\<close>

definition dnsRecordTypes :: "(u16 \<times> string) list" where
  "dnsRecordTypes = [
     (1, ''A''), (2, ''NS''), (5, ''CNAME''), (6, ''SOA''), (12, ''PTR''), (15, ''MX''), (16, ''TXT''),
     (17, ''RP''), (18, ''AFSDB''), (24, ''SIG''), (25, ''KEY''), (28, ''AAAA''), (29, ''LOC''),
     (33, ''SRV''), (35, ''NAPTR''), (36, ''KX''), (37, ''CERT''), (39, ''DNAME''), (41, ''OPT''),
     (43, ''DS''), (44, ''SSHFP''), (45, ''IPSECKEY''), (46, ''RRSIG''), (47, ''NSEC''),
     (48, ''DNSKEY''), (49, ''DHCID''), (50, ''NSEC3''), (51, ''NSEC3PARAM''), (52, ''TLSA''),
     (53, ''SMIMEA''), (55, ''HIP''), (57, ''NINFO''), (59, ''CDS''), (60, ''CDNSKEY''),
     (61, ''OPENPGPKEY''), (62, ''CSYNC''), (63, ''ZONEMD''), (64, ''SVCB''), (65, ''HTTPS''),
     (99, ''SPF''), (100, ''UINFO''), (101, ''UID''), (102, ''GID''), (103, ''UNSPEC''),
     (108, ''EUI48''), (109, ''EUI64''), (249, ''TKEY''), (250, ''TSIG''), (251, ''IXFR''),
     (252, ''AXFR''), (255, ''ANY''), (256, ''URI''), (257, ''CAA''), (32768, ''TA''), (32769, ''DLV'')]"

definition TypeToString :: "u16 \<Rightarrow> string" where
  "TypeToString rrtype = (case map_of dnsRecordTypes rrtype of Some name \<Rightarrow> name | None \<Rightarrow> ''unknown'')"

definition dnsRCodes :: "(int \<times> string) list" where
  "dnsRCodes = [
     (0, ''NoError''), (1, ''FormErr''), (2, ''ServFail''), (3, ''NXDomain''), (4, ''NotImp''),
     (5, ''Refused''), (6, ''YXDomain''), (7, ''YXRRSet''), (8, ''NXRRSet''), (9, ''NotAuth''),
     (10, ''NotZone''), (16, ''BADSIG''), (17, ''BADKEY''), (18, ''BADTIME''), (19, ''BADMODE''),
     (20, ''BADNAME''), (21, ''BADALG''), (22, ''BADTRUNC''), (23, ''BADCOOKIE'')]"

definition RcodeToString :: "int \<Rightarrow> string" where
  "RcodeToString rcode = (case map_of dnsRCodes rcode of Some name \<Rightarrow> name | None \<Rightarrow> ''unknown'')"

fun first_OPT :: "rr list \<Rightarrow> rr_hdr option" where
  "first_OPT [] = None"
| "first_OPT (r # rs) = (case as_OPT r of Some opt \<Rightarrow> Some opt | None \<Rightarrow> first_OPT rs)"

definition isSetDO :: "dnslib \<Rightarrow> msg \<Rightarrow> bool" where
  "isSetDO L m = (case first_OPT (Extra m) of Some opt \<Rightarrow> Do L opt | None \<Rightarrow> False)"

definition canonicalName :: "dnslib \<Rightarrow> string \<Rightarrow> string" where
  "canonicalName L name = CanonicalName L name"

text \<open>
  The resolver package has its own copies of \<open>extractRecords\<close>, \<open>recordsOfTypeExist\<close>,
  \<open>extractRecordsOfType\<close> and \<open>namesEqual\<close>, with the same bodies as those of the dnssec
  package, which the model uses for both.
\<close>

fun remove_loop :: "rr list \<Rightarrow> u16 \<Rightarrow> rr list" where
  "remove_loop [] t = []"
| "remove_loop (r # rs) t = (if rr_type r \<noteq> t then r # remove_loop rs t else remove_loop rs t)"

definition removeRecordsOfType :: "rr list \<Rightarrow> u16 \<Rightarrow> rr list" where
  "removeRecordsOfType rrs t =
     (if length rrs = 0 \<or> \<not> recordsOfTypeExist rrs t then rrs else remove_loop rrs t)"

fun recordsOfNameAndTypeExist :: "rr list \<Rightarrow> string \<Rightarrow> u16 \<Rightarrow> bool" where
  "recordsOfNameAndTypeExist [] name t = False"
| "recordsOfNameAndTypeExist (r # rs) name t =
     (if rr_type r = t \<and> rr_name r = name then True else recordsOfNameAndTypeExist rs name t)"

section \<open>response.go\<close>

record Response =
  Msg :: "msg option"
  Err :: "goerr option"
  Duration :: int
  Doe :: DenialOfExistenceState
  Auth :: AuthenticationResult

definition HasError :: "Response option \<Rightarrow> bool" where
  "HasError r = (case r of None \<Rightarrow> False | Some r \<Rightarrow> Err r \<noteq> None)"

definition IsEmpty :: "Response option \<Rightarrow> bool" where
  "IsEmpty r = (case r of None \<Rightarrow> True | Some r \<Rightarrow> Msg r = None)"

definition truncated :: "Response option \<Rightarrow> bool" where
  "truncated r =
     (if IsEmpty r then False
      else case r of Some x \<Rightarrow> (case Msg x of Some m \<Rightarrow> Truncated m | None \<Rightarrow> False) | None \<Rightarrow> False)"

text \<open>\<^verbatim>\<open>Response{}\<close>: every field has its zero value.\<close>

definition zero_Response :: Response where
  "zero_Response = \<lparr>Msg = None, Err = None, Duration = 0, Doe = NotFound, Auth = Unknown\<rparr>"

definition newResponseError :: "goerr \<Rightarrow> Response" where
  "newResponseError e = zero_Response\<lparr>Err := Some e\<rparr>"

section \<open>Lemmas\<close>

lemma HasError_simps [simp]: "HasError (Some r) = (Err r \<noteq> None)" "\<not> HasError None"
  by (simp_all add: HasError_def)

lemma IsEmpty_simps [simp]: "IsEmpty (Some r) = (Msg r = None)" "IsEmpty None"
  by (simp_all add: IsEmpty_def)

lemma newResponseError_simps [simp]:
  "Err (newResponseError e) = Some e" "Msg (newResponseError e) = None"
  "Auth (newResponseError e) = Unknown" "Doe (newResponseError e) = NotFound"
  by (simp_all add: newResponseError_def zero_Response_def)

lemma removeRecordsOfType_filter: "removeRecordsOfType rrs t = filter (\<lambda>r. rr_type r \<noteq> t) rrs"
proof -
  have "remove_loop rrs t = filter (\<lambda>r. rr_type r \<noteq> t) rrs" by (induction rrs) auto
  moreover have "filter (\<lambda>r. rr_type r \<noteq> t) rrs = rrs" if "\<not> recordsOfTypeExist rrs t"
    using that by (auto simp: recordsOfTypeExist_iff intro!: filter_True)
  ultimately show ?thesis by (auto simp: removeRecordsOfType_def)
qed

lemma recordsOfNameAndTypeExist_iff:
  "recordsOfNameAndTypeExist rrs n t \<longleftrightarrow> (\<exists>r \<in> set rrs. rr_type r = t \<and> rr_name r = n)"
  by (induction rrs) auto

lemma first_OPT_iff: "first_OPT rrs = None \<longleftrightarrow> (\<forall>r \<in> set rrs. as_OPT r = None)"
  by (induction rrs) (auto split: option.splits)

end
