(* ===== verification/Domain.thy ===== *)
theory Domain
  imports Resolver_Functions Dns_Names
begin

text \<open>
  domain.go: the walk over the labels of the query name, from the root down. The
  \<open>labelIndexes\<close> hold the starts of the labels in reverse order, the first one the index of
  the final dot; \<open>currentIdx\<close> only grows from 0, so it is a natural number. The
  methods that move the position return the new domain.
\<close>

section \<open>domain.go\<close>

record domain =
  dm_name :: string
  labelIndexes :: "nat list"
  currentIdx :: nat

definition newDomain :: "dnslib \<Rightarrow> string \<Rightarrow> domain" where
  "newDomain L d =
     (let d = CanonicalName L d;
          labelIndexes = Split L d @ [length d - 1]
      in \<lparr>dm_name = d, labelIndexes = rev labelIndexes, currentIdx = 0\<rparr>)"

definition current :: "domain \<Rightarrow> string" where
  "current d =
     (if currentIdx d \<ge> length (labelIndexes d) then dm_name d
      else drop (labelIndexes d ! currentIdx d) (dm_name d))"

definition next_label :: "domain \<Rightarrow> domain" where
  "next_label d = d\<lparr>currentIdx := currentIdx d + 1\<rparr>"

definition more :: "domain \<Rightarrow> bool" where
  "more d \<longleftrightarrow> currentIdx d \<le> length (labelIndexes d)"

definition last_label :: "domain \<Rightarrow> bool" where
  "last_label d \<longleftrightarrow> int (currentIdx d) \<ge> int (length (labelIndexes d)) - 1"

function wind_loop :: "string \<Rightarrow> domain \<Rightarrow> goerr option \<times> domain" where
  "wind_loop target d =
     (if more d then
        (if current d = target then (None, d) else wind_loop target (next_label d))
      else (Some MsgErr, d))"
  by pat_completeness auto

termination
  by (relation "measure (\<lambda>(t, d). Suc (length (labelIndexes d)) - currentIdx d)")
     (auto simp: more_def next_label_def)

declare wind_loop.simps [simp del]

definition windTo :: "dnslib \<Rightarrow> domain \<Rightarrow> string \<Rightarrow> goerr option \<times> domain" where
  "windTo L d target =
     (let target = CanonicalName L target in
      if \<not> IsSubDomain L target (dm_name d) then (Some MsgErr, d) else wind_loop target d)"

definition gap :: "dnslib \<Rightarrow> domain \<Rightarrow> string \<Rightarrow> string list go" where
  "gap L d target =
     (if \<not> IsSubDomain L target (dm_name d) then Inr []
      else
        let missing = int (CountLabel L target) - int (CountLabel L (current d)) in
        if missing \<le> 0 then Inr []
        else
          mapG (\<lambda>i. bindG (go_nth (labelIndexes d) i) (\<lambda>x. Inr (drop x (dm_name d))))
            [currentIdx d ..< nat missing + currentIdx d])"

section \<open>Specification vocabulary\<close>

text \<open>A domain that \<open>newDomain\<close> made and \<open>next_label\<close> moved.\<close>

definition domain_inv :: "dnslib \<Rightarrow> (string \<Rightarrow> bool) \<Rightarrow> domain \<Rightarrow> bool" where
  "domain_inv L valid d \<longleftrightarrow> canonical L valid (dm_name d) \<and>
     labelIndexes d = rev (Split L (dm_name d) @ [length (dm_name d) - 1])"

text \<open>The ancestor of a name with a given number of labels.\<close>

definition ancestor :: "dnslib \<Rightarrow> string \<Rightarrow> nat \<Rightarrow> string" where
  "ancestor L s k = rev (ancestors L s) ! k"

section \<open>The walk\<close>

lemma newDomain_inv: "dns_names L valid \<Longrightarrow> valid s \<Longrightarrow> domain_inv L valid (newDomain L s)"
  by (simp add: newDomain_def domain_inv_def Let_def canonical_CanonicalName)

lemma next_label_inv [simp]: "domain_inv L valid (next_label d) = domain_inv L valid d"
  by (simp add: domain_inv_def next_label_def)

lemma next_label_simps [simp]:
  "dm_name (next_label d) = dm_name d" "labelIndexes (next_label d) = labelIndexes d"
  "currentIdx (next_label d) = Suc (currentIdx d)"
  by (simp_all add: next_label_def)

lemma length_labelIndexes: "domain_inv L valid d \<Longrightarrow> length (labelIndexes d) = Suc (length (Split L (dm_name d)))"
  by (simp add: domain_inv_def)

lemma label_name:
  assumes "domain_inv L valid d" "i \<le> length (Split L (dm_name d))"
  shows "drop (labelIndexes d ! i) (dm_name d) = ancestor L (dm_name d) i"
  using assms by (simp add: domain_inv_def ancestor_def ancestors_def rev_map del: rev_append map_append)

lemma CountLabel_ancestor_rev:
  assumes "dns_names L valid" "canonical L valid s" "k \<le> length (Split L s)"
  shows "CountLabel L (ancestor L s k) = k" and "canonical L valid (ancestor L s k)"
proof -
  let ?n = "length (Split L s)"
  have eq: "ancestor L s k = ancestors L s ! (?n - k)"
    using assms(3) by (simp add: ancestor_def rev_nth length_ancestors)
  show "CountLabel L (ancestor L s k) = k" "canonical L valid (ancestor L s k)"
    using CountLabel_ancestor [OF assms(1,2), of "?n - k"] canonical_ancestor [OF assms(1,2), of "?n - k"] assms(3)
    by (simp_all add: eq)
qed

lemma ancestor_mem:
  assumes "dns_names L valid" "canonical L valid s" "p \<in> set (ancestors L s)"
  shows "p = ancestor L s (CountLabel L p)" and "CountLabel L p \<le> length (Split L s)"
  using ancestor_by_CountLabel [OF assms] by (simp_all add: ancestor_def rev_nth length_ancestors)

lemma current_eq:
  assumes "dns_names L valid" "domain_inv L valid d"
  shows "current d = ancestor L (dm_name d) (min (currentIdx d) (length (Split L (dm_name d))))"
proof (cases "currentIdx d \<le> length (Split L (dm_name d))")
  case True
  then show ?thesis using assms by (simp add: current_def length_labelIndexes label_name)
next
  case False
  have c: "canonical L valid (dm_name d)" using assms(2) by (simp add: domain_inv_def)
  have "ancestor L (dm_name d) (length (Split L (dm_name d))) = dm_name d"
    using ancestors_self [OF assms(1) c] by (simp add: ancestor_def rev_nth length_ancestors)
  with False assms show ?thesis by (simp add: current_def length_labelIndexes)
qed


lemma wind_loop_reaches:
  assumes "dns_names L valid" "domain_inv L valid d"
    and "k \<le> length (Split L (dm_name d))" "currentIdx d \<le> k"
  shows "wind_loop (ancestor L (dm_name d) k) d = (None, d\<lparr>currentIdx := k\<rparr>)"
  using assms(2-4)
proof (induction "k - currentIdx d" arbitrary: d)
  case 0
  have "current d = ancestor L (dm_name d) k" using current_eq [OF assms(1) "0.prems"(1)] "0.hyps" "0.prems" by simp
  moreover have "more d" using 0 by (simp add: more_def length_labelIndexes [OF "0.prems"(1)])
  ultimately show ?case using 0 by (subst wind_loop.simps) simp
next
  case (Suc j)
  have c: "canonical L valid (dm_name d)" using Suc.prems(1) by (simp add: domain_inv_def)
  have lt: "currentIdx d < k" using Suc.hyps(2) by simp
  have "current d \<noteq> ancestor L (dm_name d) k"
  proof
    assume "current d = ancestor L (dm_name d) k"
    then have "ancestor L (dm_name d) (currentIdx d) = ancestor L (dm_name d) k"
      using current_eq [OF assms(1) Suc.prems(1)] lt Suc.prems(2) by simp
    with CountLabel_ancestor_rev(1) [OF assms(1) c, of "currentIdx d"] CountLabel_ancestor_rev(1) [OF assms(1) c, of k]
    show False using lt Suc.prems(2) by simp
  qed
  moreover have "more d" using lt Suc.prems by (simp add: more_def length_labelIndexes)
  ultimately have "wind_loop (ancestor L (dm_name d) k) d = wind_loop (ancestor L (dm_name d) k) (next_label d)"
    by (subst wind_loop.simps) simp
  also have "\<dots> = (None, (next_label d)\<lparr>currentIdx := k\<rparr>)"
    using Suc.hyps(1) [of "next_label d"] Suc.hyps(2) Suc.prems by simp
  finally show ?case by (simp add: next_label_def)
qed

lemma windTo_reaches:
  assumes "dns_names L valid" "domain_inv L valid d" "valid target" "IsSubDomain L target (dm_name d)"
    and "currentIdx d \<le> CountLabel L target"
  shows "windTo L d target = (None, d\<lparr>currentIdx := CountLabel L target\<rparr>)"
    and "CanonicalName L target = ancestor L (dm_name d) (CountLabel L target)"
    and "CountLabel L target \<le> length (Split L (dm_name d))"
proof -
  let ?t = "CanonicalName L target"
  have c: "canonical L valid (dm_name d)" and ct: "canonical L valid ?t"
    using assms by (simp_all add: domain_inv_def canonical_CanonicalName)
  have count: "CountLabel L ?t = CountLabel L target"
    using assms(1,3) ct by (simp add: CountLabel_valid CountLabel_canonical)
  have mem: "?t \<in> set (ancestors L (dm_name d))"
    using assms(1,3,4) c by (simp add: IsSubDomain_valid canonical_valid canonical_eq)
  note a = ancestor_mem [OF assms(1) c mem, unfolded count]
  have "IsSubDomain L ?t (dm_name d)" using mem IsSubDomain_canonical [OF assms(1) ct c] by simp
  with a wind_loop_reaches [OF assms(1,2) a(2) assms(5)]
  show "windTo L d target = (None, d\<lparr>currentIdx := CountLabel L target\<rparr>)" by (simp add: windTo_def)
  from a show "?t = ancestor L (dm_name d) (CountLabel L target)"
    "CountLabel L target \<le> length (Split L (dm_name d))" by simp_all
qed

text \<open>
  The gap holds the names from the current position up to the parent of the target; its
  indexes are in range.
\<close>

lemma gap_eq:
  assumes "dns_names L valid" "domain_inv L valid d" "valid target"
  shows "gap L d target = Inr (if IsSubDomain L target (dm_name d)
     then map (ancestor L (dm_name d)) [currentIdx d ..< CountLabel L target] else [])"
proof (cases "IsSubDomain L target (dm_name d)")
  case False
  then show ?thesis by (simp add: gap_def)
next
  case True
  let ?n = "length (Split L (dm_name d))" and ?t = "CountLabel L target"
  have c: "canonical L valid (dm_name d)" using assms(2) by (simp add: domain_inv_def)
  have le: "?t \<le> ?n"
    using IsSubDomain_CountLabel [OF assms(1,3) canonical_valid [OF c] True]
    by (simp add: CountLabel_canonical [OF assms(1) c])
  have cur: "CountLabel L (current d) = min (currentIdx d) ?n"
    unfolding current_eq [OF assms(1,2)] by (rule CountLabel_ancestor_rev(1) [OF assms(1) c]) simp
  show ?thesis
  proof (cases "currentIdx d < ?t")
    case False
    with True cur le show ?thesis by (simp add: gap_def Let_def)
  next
    case lt: True
    then have "nat (int ?t - int (CountLabel L (current d))) + currentIdx d = ?t"
      and pos: "\<not> int ?t - int (CountLabel L (current d)) \<le> 0"
      using cur le by simp_all
    moreover have "mapG (\<lambda>i. bindG (go_nth (labelIndexes d) i) (\<lambda>x. Inr (drop x (dm_name d)))) [currentIdx d ..< ?t]
        = Inr (map (ancestor L (dm_name d)) [currentIdx d ..< ?t])"
      by (rule mapG_Inr) (use le assms(2) in \<open>simp add: length_labelIndexes label_name\<close>)
    ultimately show ?thesis using True by (simp add: gap_def Let_def)
  qed
qed

end
