(* ===== verification/Zones.thy ===== *)
theory Zones
  imports Domain "HOL-Library.AList"
begin

text \<open>
  zones.go: the store of known zones. The Go map is an association list with distinct keys
  (a nil map behaves like an empty one in every method of the source). A zone is a reference
  of some type \<open>'z\<close>; \<open>zone_methods\<close> is the interface \<open>zone\<close> of zone.go, whose
  methods read and change the rest of the program's state \<open>'w\<close>. Whether a zone is
  expired depends on that state, which holds its pool and the clock. An exchange also returns
  the query message, which the client below may change.
\<close>

section \<open>The interface zone of zone.go\<close>

record ('z, 'w) zone_methods =
  zm_name :: "'z \<Rightarrow> string"
  zm_parent :: "'z \<Rightarrow> string"
  zm_expired :: "'z \<Rightarrow> 'w \<Rightarrow> bool"
  zm_clone :: "'z \<Rightarrow> string \<Rightarrow> string \<Rightarrow> 'w \<Rightarrow> ('z \<times> 'w) go"
  zm_exchange :: "'z \<Rightarrow> msg \<Rightarrow> 'w \<Rightarrow> (Response option \<times> msg \<times> 'w) go"
  zm_soa :: "'z \<Rightarrow> string \<Rightarrow> 'w \<Rightarrow> ((rr_hdr option \<times> goerr option) \<times> 'w) go"
  zm_dnskeys :: "'z \<Rightarrow> 'w \<Rightarrow> ((rr list \<times> goerr option) \<times> 'w) go"

section \<open>zones.go\<close>

type_synonym 'z zones = "(string \<times> 'z) list"

fun zone_list_loop ::
  "('z, 'w, 'e) zone_methods_scheme \<Rightarrow> 'w \<Rightarrow> 'z zones \<Rightarrow> 'z option \<Rightarrow> string list \<Rightarrow> 'z list" where
  "zone_list_loop Z w zs prev [] = []"
| "zone_list_loop Z w zs prev (zname # names) =
     (case map_of zs zname of
        None \<Rightarrow> zone_list_loop Z w zs prev names
      | Some z \<Rightarrow>
          (if zm_expired Z z w then zone_list_loop Z w zs prev names
           else if (case prev of None \<Rightarrow> False | Some l \<Rightarrow> zm_parent Z z \<noteq> zm_name Z l) then []
           else z # zone_list_loop Z w zs (Some z) names))"

definition getZoneList :: "dnslib \<Rightarrow> ('z, 'w, 'e) zone_methods_scheme \<Rightarrow> 'w \<Rightarrow> 'z zones \<Rightarrow> string \<Rightarrow> 'z list" where
  "getZoneList L Z w zs name =
     (let name = canonicalName L name;
          indexes = rev (Split L name @ [length name - 1])
      in rev (zone_list_loop Z w zs None (map (\<lambda>idx. drop idx name) indexes)))"

definition zones_get :: "dnslib \<Rightarrow> ('z, 'w, 'e) zone_methods_scheme \<Rightarrow> 'w \<Rightarrow> 'z zones \<Rightarrow> string \<Rightarrow> 'z option" where
  "zones_get L Z w zs name =
     (case map_of zs (canonicalName L name) of
        Some z \<Rightarrow> (if zm_expired Z z w then None else Some z)
      | None \<Rightarrow> None)"

definition zones_add :: "dnslib \<Rightarrow> ('z, 'w, 'e) zone_methods_scheme \<Rightarrow> 'z \<Rightarrow> 'z zones \<Rightarrow> 'z zones" where
  "zones_add L Z z zs = AList.update (canonicalName L (zm_name Z z)) z zs"

definition zones_count :: "'z zones \<Rightarrow> nat" where
  "zones_count zs = length zs"

section \<open>Specification vocabulary\<close>

text \<open>Every zone is stored under its own canonical name.\<close>

definition zones_inv :: "dnslib \<Rightarrow> ('z, 'w, 'e) zone_methods_scheme \<Rightarrow> 'z zones \<Rightarrow> bool" where
  "zones_inv L Z zs \<longleftrightarrow> distinct (map fst zs) \<and> (\<forall>(n, z) \<in> set zs. n = canonicalName L (zm_name Z z))"

text \<open>Consecutive zones of a list, deepest first, are parent and child.\<close>

definition parent_chain :: "('z, 'w, 'e) zone_methods_scheme \<Rightarrow> 'z list \<Rightarrow> bool" where
  "parent_chain Z zs \<longleftrightarrow> (\<forall>i. Suc i < length zs \<longrightarrow> zm_parent Z (zs ! i) = zm_name Z (zs ! Suc i))"

section \<open>The store interface\<close>

text \<open>
  What the resolver relies on: a zone that was added is found under its name unless it has
  expired, adding a zone leaves the others alone, and nothing else is found.
\<close>

locale zone_store =
  fixes key :: "'z \<Rightarrow> string" and alive :: "'z \<Rightarrow> bool"
    and get :: "'s \<Rightarrow> string \<Rightarrow> 'z option" and add :: "'z \<Rightarrow> 's \<Rightarrow> 's" and inv :: "'s \<Rightarrow> bool"
    and norm :: "string \<Rightarrow> string"
  assumes get_add: "get (add z s) n = (if norm n = key z then (if alive z then Some z else None) else get s n)"
    and get_alive: "get s n = Some z \<Longrightarrow> alive z"
    and get_key: "inv s \<Longrightarrow> get s n = Some z \<Longrightarrow> key z = norm n"
    and inv_add: "inv s \<Longrightarrow> inv (add z s)"
begin

lemma get_add_same: "norm n = key z \<Longrightarrow> alive z \<Longrightarrow> get (add z s) n = Some z"
  by (simp add: get_add)

lemma adds_inv: "inv s \<Longrightarrow> inv (fold add zs s)"
  by (induction zs arbitrary: s) (simp_all add: inv_add)

lemma get_fold_add_other: "norm n \<notin> key ` set zs \<Longrightarrow> get (fold add zs s) n = get s n"
  by (induction zs arbitrary: s) (auto simp: get_add)

lemma get_after_refresh:
  "get (add z (add z' s)) n = (if norm n = key z then (if alive z then Some z else None) else get (add z' s) n)"
  by (simp add: get_add)

end

interpretation zstore: zone_store "\<lambda>z. canonicalName L (zm_name Z z)" "\<lambda>z. \<not> zm_expired Z z w"
  "zones_get L Z w" "zones_add L Z" "zones_inv L Z" "canonicalName L"
  for L and Z :: "('z, 'w, 'e) zone_methods_scheme" and w
proof
  fix z s n
  show "zones_get L Z w (zones_add L Z z s) n =
     (if canonicalName L n = canonicalName L (zm_name Z z) then (if \<not> zm_expired Z z w then Some z else None)
      else zones_get L Z w s n)"
    by (simp add: zones_get_def zones_add_def update_conv')
next
  fix s n z
  assume "zones_get L Z w s n = Some z"
  then show "\<not> zm_expired Z z w" by (auto simp: zones_get_def split: option.split_asm if_split_asm)
next
  fix s n z
  assume "zones_inv L Z s" "zones_get L Z w s n = Some z"
  then show "canonicalName L (zm_name Z z) = canonicalName L n"
    by (auto simp: zones_get_def zones_inv_def dest!: map_of_SomeD split: option.split_asm if_split_asm)
next
  fix s z
  assume inv: "zones_inv L Z s"
  have "set (zones_add L Z z s) \<subseteq> insert (canonicalName L (zm_name Z z), z) (set s)"
    unfolding zones_add_def by (induction s) auto
  with inv show "zones_inv L Z (zones_add L Z z s)"
    by (auto simp: zones_inv_def zones_add_def distinct_update)
qed

section \<open>The list of known zones\<close>

lemma zone_list_loop_mem:
  "z \<in> set (zone_list_loop Z w zs prev names) \<Longrightarrow> \<not> zm_expired Z z w \<and> (\<exists>n \<in> set names. map_of zs n = Some z)"
  by (induction Z w zs prev names rule: zone_list_loop.induct) (auto split: option.split_asm if_split_asm)

lemma zone_list_loop_chain:
  "(\<forall>l z rest. prev = Some l \<longrightarrow> zone_list_loop Z w zs prev names = z # rest \<longrightarrow> zm_parent Z z = zm_name Z l) \<and>
   (\<forall>i. Suc i < length (zone_list_loop Z w zs prev names) \<longrightarrow>
      zm_parent Z (zone_list_loop Z w zs prev names ! Suc i) = zm_name Z (zone_list_loop Z w zs prev names ! i))"
proof (induction names arbitrary: prev)
  case (Cons zname names)
  show ?case
  proof (cases "\<exists>z. map_of zs zname = Some z \<and> \<not> zm_expired Z z w \<and>
      \<not> (case prev of None \<Rightarrow> False | Some l \<Rightarrow> zm_parent Z z \<noteq> zm_name Z l)")
    case True
    then obtain z where z: "map_of zs zname = Some z" "\<not> zm_expired Z z w"
      "\<not> (case prev of None \<Rightarrow> False | Some l \<Rightarrow> zm_parent Z z \<noteq> zm_name Z l)" by blast
    let ?rest = "zone_list_loop Z w zs (Some z) names"
    have eq: "zone_list_loop Z w zs prev (zname # names) = z # ?rest" using z by simp
    have "zm_parent Z ((z # ?rest) ! Suc i) = zm_name Z ((z # ?rest) ! i)" if "Suc i < length (z # ?rest)" for i
      using that Cons.IH [of "Some z"] by (cases i; cases ?rest) auto
    moreover have "zm_parent Z z = zm_name Z l" if "prev = Some l" for l using z(3) that by simp
    ultimately show ?thesis unfolding eq by blast
  next
    case False
    then have "zone_list_loop Z w zs prev (zname # names) = zone_list_loop Z w zs prev names \<or>
        zone_list_loop Z w zs prev (zname # names) = []" by (auto split: option.splits)
    then show ?thesis
    proof
      assume eq: "zone_list_loop Z w zs prev (zname # names) = zone_list_loop Z w zs prev names"
      show ?thesis unfolding eq by (rule Cons.IH)
    next
      assume eq: "zone_list_loop Z w zs prev (zname # names) = []"
      show ?thesis unfolding eq by simp
    qed
  qed
qed simp

lemma getZoneList_chain: "parent_chain Z (getZoneList L Z w zs name)"
proof -
  let ?l = "zone_list_loop Z w zs None (map (\<lambda>idx. drop idx (canonicalName L name))
      (rev (Split L (canonicalName L name) @ [length (canonicalName L name) - 1])))"
  have "zm_parent Z (?l ! Suc i) = zm_name Z (?l ! i)" if "Suc i < length ?l" for i
    by (rule zone_list_loop_chain [THEN conjunct2, rule_format]) (rule that)
  then show ?thesis
    unfolding parent_chain_def getZoneList_def Let_def
  proof (intro allI impI)
    fix i
    assume l: "Suc i < length (rev ?l)"
    let ?j = "length ?l - Suc (Suc i)"
    have "rev ?l ! i = ?l ! Suc ?j" "rev ?l ! Suc i = ?l ! ?j" "Suc ?j < length ?l"
      using l by (simp_all add: rev_nth Suc_diff_Suc)
    with \<open>\<And>i. Suc i < length ?l \<Longrightarrow> zm_parent Z (?l ! Suc i) = zm_name Z (?l ! i)\<close>
    show "zm_parent Z (rev ?l ! i) = zm_name Z (rev ?l ! Suc i)" by simp
  qed
qed

lemma zone_list_names:
  assumes "dns_names L valid" "canonical L valid s"
  shows "map (\<lambda>idx. drop idx s) (rev (Split L s @ [length s - 1])) = rev (ancestors L s)"
  by (simp add: ancestors_def rev_map)

lemma getZoneList_mem:
  assumes "dns_names L valid" "valid name" "zones_inv L Z zs" "z \<in> set (getZoneList L Z w zs name)"
  shows "\<not> zm_expired Z z w" and "CanonicalName L (zm_name Z z) \<in> set (ancestors L (CanonicalName L name))"
    and "map_of zs (CanonicalName L (zm_name Z z)) = Some z"
proof -
  have c: "canonical L valid (CanonicalName L name)" using assms by (simp add: canonical_CanonicalName)
  have "z \<in> set (zone_list_loop Z w zs None (rev (ancestors L (CanonicalName L name))))"
    using assms(4) unfolding getZoneList_def Let_def canonicalName_def zone_list_names [OF assms(1) c] by simp
  from zone_list_loop_mem [OF this] obtain n where n: "\<not> zm_expired Z z w"
    "n \<in> set (ancestors L (CanonicalName L name))" "map_of zs n = Some z" by auto
  have "n = CanonicalName L (zm_name Z z)"
    using assms(3) map_of_SomeD [OF n(3)] by (auto simp: zones_inv_def canonicalName_def)
  with n show "\<not> zm_expired Z z w" "CanonicalName L (zm_name Z z) \<in> set (ancestors L (CanonicalName L name))"
    "map_of zs (CanonicalName L (zm_name Z z)) = Some z" by simp_all
qed

text \<open>With a root zone that has not expired, the list is not empty and ends with the root.\<close>

lemma getZoneList_root:
  assumes "dns_names L valid" "valid name" "map_of zs ''.'' = Some root" "\<not> zm_expired Z root w"
  shows "getZoneList L Z w zs name \<noteq> []" and "last (getZoneList L Z w zs name) = root"
proof -
  let ?s = "CanonicalName L name"
  have c: "canonical L valid ?s" using assms by (simp add: canonical_CanonicalName)
  have "rev (ancestors L ?s) ! 0 = ''.''"
    using ancestors_last [OF assms(1) c] by (simp add: rev_nth length_ancestors)
  then obtain rest where names: "rev (ancestors L ?s) = ''.'' # rest"
    by (cases "rev (ancestors L ?s)") (simp_all add: ancestors_def)
  have "getZoneList L Z w zs name = rev (root # zone_list_loop Z w zs (Some root) rest)"
    unfolding getZoneList_def Let_def canonicalName_def zone_list_names [OF assms(1) c] names
    using assms(3,4) by simp
  then show "getZoneList L Z w zs name \<noteq> []" "last (getZoneList L Z w zs name) = root" by simp_all
qed

end
