(* ===== verification/Config.thy ===== *)
theory Config
  imports Dns_Types
begin

text \<open>
  config.go: the package variables of the resolver, the \<open>Config\<close> struct, and the functional
  options that build one. An \<open>Option\<close> may panic when it is applied, so it maps a
  configuration to a \<open>Config go\<close>. The TLS session cache and the DNS cache are the library
  objects made from a capacity; the configuration holds the capacity.
\<close>

section \<open>config.go\<close>

definition Millisecond :: int where
  "Millisecond = 1000000"

record resolver_vars =
  rv_MaxAllowedTTL :: u32
  MaxQueriesPerRequest :: u32
  DesireNumberOfNameserversPerZone :: nat
  LazyEnrichment :: bool
  SuppressBogusResponseSections :: bool
  RemoveAuthoritySectionForPositiveAnswers :: bool
  RemoveAdditionalSectionForPositiveAnswers :: bool

definition default_resolver_vars :: resolver_vars where
  "default_resolver_vars = \<lparr>rv_MaxAllowedTTL = 60 * 60 * 48, MaxQueriesPerRequest = 100,
     DesireNumberOfNameserversPerZone = 3, LazyEnrichment = False,
     SuppressBogusResponseSections = True, RemoveAuthoritySectionForPositiveAnswers = True,
     RemoveAdditionalSectionForPositiveAnswers = True\<rparr>"

record Config =
  rootZoneFile :: string
  rootAnchorFile :: string
  protocols :: "string list"
  udpsize :: u16
  udpTimeout :: int
  tcpTimeout :: int
  doqTimeout :: int
  dotTimeout :: int
  dnsPort :: string
  doqPort :: string
  dotPort :: string
  tlsCache :: "int option"
  pqcMode :: bool
  insecureSkipVerify :: bool
  cfg_cache :: "int option"

definition DefaultConfig :: Config where
  "DefaultConfig = \<lparr>rootZoneFile = ''named.root'', rootAnchorFile = ''root-anchors.xml'',
     protocols = [''udp'', ''tcp''], udpsize = 8192, udpTimeout = 400 * Millisecond,
     tcpTimeout = 1000 * Millisecond, doqTimeout = 1500 * Millisecond, dotTimeout = 1500 * Millisecond,
     dnsPort = ''53'', doqPort = ''853'', dotPort = ''8853'', tlsCache = None, pqcMode = False,
     insecureSkipVerify = False, cfg_cache = None\<rparr>"

type_synonym Option = "Config \<Rightarrow> Config go"

fun apply_options :: "Option list \<Rightarrow> Config \<Rightarrow> Config go" where
  "apply_options [] c = Inr c"
| "apply_options (opt # opts) c = bindG (opt c) (apply_options opts)"

definition ConfigBuilder :: "Option list \<Rightarrow> Config go" where
  "ConfigBuilder options = apply_options options DefaultConfig"

definition WithCustomRoot :: "string \<Rightarrow> string \<Rightarrow> Option" where
  "WithCustomRoot filename anchorfilename =
     (\<lambda>c. Inr (c\<lparr>rootZoneFile := filename, rootAnchorFile := anchorfilename\<rparr>))"

definition WithClient :: "string \<Rightarrow> bool \<Rightarrow> Option" where
  "WithClient client fallback = (\<lambda>c.
     if client = ''udp'' then
       Inr (c\<lparr>protocols := (if fallback then [''udp'', ''tcp''] else [''udp''])\<rparr>)
     else if client = ''tcp'' then Inr (c\<lparr>protocols := [''tcp'']\<rparr>)
     else if client = ''dot'' then
       Inr (c\<lparr>protocols := (if fallback then [''dot'', ''udp'', ''tcp''] else [''dot''])\<rparr>)
     else if client = ''doq'' then
       Inr (c\<lparr>protocols := (if fallback then [''doq'', ''udp'', ''tcp''] else [''doq''])\<rparr>)
     else Inl (Panic ''Only the following clients are supported: udp, tcp, dot, and doq''))"

definition WithTLSVerification :: "bool \<Rightarrow> Option" where
  "WithTLSVerification verify = (\<lambda>c. Inr (c\<lparr>insecureSkipVerify := \<not> verify\<rparr>))"

definition WithTLSCache :: "int \<Rightarrow> Option" where
  "WithTLSCache capacity = (\<lambda>c. Inr (c\<lparr>tlsCache := (if capacity = 0 then None else Some capacity)\<rparr>))"

definition WithPQCMode :: "bool \<Rightarrow> Option" where
  "WithPQCMode b = (\<lambda>c. Inr (c\<lparr>pqcMode := b\<rparr>))"

text \<open>\<^verbatim>\<open>strconv.Itoa\<close>.\<close>

fun nat_digits :: "nat \<Rightarrow> string" where
  "nat_digits n = (if n < 10 then [char_of (48 + n)] else nat_digits (n div 10) @ [char_of (48 + n mod 10)])"

declare nat_digits.simps [simp del]

definition Itoa :: "int \<Rightarrow> string" where
  "Itoa i = (if i < 0 then ''-'' @ nat_digits (nat (- i)) else nat_digits (nat i))"

definition WithDNSPort :: "int \<Rightarrow> Option" where
  "WithDNSPort p = (\<lambda>c. Inr (c\<lparr>dnsPort := Itoa p\<rparr>))"

definition WithDoQPort :: "int \<Rightarrow> Option" where
  "WithDoQPort p = (\<lambda>c. Inr (c\<lparr>doqPort := Itoa p\<rparr>))"

definition WithDoTPort :: "int \<Rightarrow> Option" where
  "WithDoTPort p = (\<lambda>c. Inr (c\<lparr>dotPort := Itoa p\<rparr>))"

definition WithUDPSize :: "u16 \<Rightarrow> Option" where
  "WithUDPSize sz = (\<lambda>c. Inr (c\<lparr>udpsize := sz\<rparr>))"

definition WithTimeouts :: "int \<Rightarrow> int \<Rightarrow> int \<Rightarrow> int \<Rightarrow> Option" where
  "WithTimeouts udp tcp tls quic = (\<lambda>c.
     Inr (c\<lparr>udpTimeout := udp, tcpTimeout := tcp, dotTimeout := tls, doqTimeout := quic\<rparr>))"

definition WithCache :: "int \<Rightarrow> Option" where
  "WithCache sz = (\<lambda>c. Inr (c\<lparr>cfg_cache := (if sz = 0 then None else Some sz)\<rparr>))"

section \<open>Specification vocabulary\<close>

text \<open>The options of the package.\<close>

inductive config_option :: "Option \<Rightarrow> bool" where
  "config_option (WithCustomRoot f a)"
| "config_option (WithClient c b)"
| "config_option (WithTLSVerification b)"
| "config_option (WithTLSCache n)"
| "config_option (WithPQCMode b)"
| "config_option (WithDNSPort p)"
| "config_option (WithDoQPort p)"
| "config_option (WithDoTPort p)"
| "config_option (WithUDPSize s)"
| "config_option (WithTimeouts a b c d)"
| "config_option (WithCache n)"

lemmas option_defs = WithCustomRoot_def WithClient_def WithTLSVerification_def WithTLSCache_def WithPQCMode_def
  WithDNSPort_def WithDoQPort_def WithDoTPort_def WithUDPSize_def WithTimeouts_def WithCache_def

definition protocols_ok :: "Config \<Rightarrow> bool" where
  "protocols_ok c \<longleftrightarrow> protocols c \<noteq> [] \<and> distinct (protocols c) \<and>
     set (protocols c) \<subseteq> {''udp'', ''tcp'', ''dot'', ''doq''}"

definition caches_ok :: "Config \<Rightarrow> bool" where
  "caches_ok c \<longleftrightarrow> tlsCache c \<noteq> Some 0 \<and> cfg_cache c \<noteq> Some 0"

section \<open>Lemmas\<close>

lemma WithClient_returns:
  "returns (WithClient client fallback c) \<longleftrightarrow> client \<in> {''udp'', ''tcp'', ''dot'', ''doq''}"
  by (auto simp: WithClient_def)

lemma option_keeps_ok:
  assumes "config_option opt" "opt c = Inr c'" "protocols_ok c" "caches_ok c"
  shows "protocols_ok c' \<and> caches_ok c'"
  using assms by (cases rule: config_option.cases)
    (auto simp: option_defs protocols_ok_def caches_ok_def split: if_split_asm)

lemma apply_options_ok:
  "\<forall>opt \<in> set opts. config_option opt \<Longrightarrow> apply_options opts c = Inr c' \<Longrightarrow> protocols_ok c \<Longrightarrow> caches_ok c \<Longrightarrow>
     protocols_ok c' \<and> caches_ok c'"
proof (induction opts arbitrary: c)
  case (Cons opt opts)
  from Cons.prems(2) obtain c1 where c1: "opt c = Inr c1" "apply_options opts c1 = Inr c'"
    by (auto simp: bindG_eq_Inr_iff)
  have "config_option opt" using Cons.prems(1) by simp
  from option_keeps_ok [OF this c1(1) Cons.prems(3,4)] Cons.IH [OF _ c1(2)] Cons.prems(1) show ?case by simp
qed simp

text \<open>The decimal numerals that \<open>Itoa\<close> writes can be read back.\<close>

definition digits_value :: "string \<Rightarrow> nat" where
  "digits_value s = foldl (\<lambda>n c. 10 * n + (of_char c - 48)) 0 s"

lemma digits_value_nat_digits: "digits_value (nat_digits n) = n"
proof (induction n rule: nat_digits.induct)
  case (1 n)
  show ?case
  proof (cases "n < 10")
    case True
    then show ?thesis by (subst nat_digits.simps) (simp add: digits_value_def)
  next
    case False
    with 1 show ?thesis by (subst nat_digits.simps) (simp add: digits_value_def)
  qed
qed

end
