(* ===== verification/Clients.thy ===== *)
theory Clients
  imports Config
begin

text \<open>
  clients/classic.go and clients/doq.go: the two client types and their \<open>ExchangeContext\<close>.
  The QUIC session, the message codec and \<^verbatim>\<open>dns.Client\<close> are library code; the record
  \<open>transport\<close> has one field per call, over a state \<open>'w\<close> that stands for the network
  and the clock. The client receives the query as a pointer: the DoQ client clears its
  identifier, so \<open>ExchangeContext\<close> also returns the query message.
\<close>

section \<open>Client types\<close>

datatype CurveID = X25519MLKEM768 | SecP256r1MLKEM768 | X25519 | CurveP256

record tls_Config =
  NextProtos :: "string list"
  ServerName :: string
  MinVersionTLS13 :: bool
  InsecureSkipVerify :: bool
  ClientSessionCache :: "int option"
  SessionTicketsDisabled :: bool
  CurvePreferences :: "CurveID list"

record DOQClient =
  doq_Port :: string
  doq_TLSConfig :: tls_Config
  doq_Timeout :: int

record ClassicClient =
  cl_Port :: string
  cl_Net :: string
  cl_Timeout :: int
  cl_TLSConfig :: "tls_Config option"

datatype dnsClient = DOQ DOQClient | Classic ClassicClient

type_synonym exchange_result = "msg option \<times> int \<times> goerr option"

record 'w transport =
  t_now :: "'w \<Rightarrow> int"
  t_classic :: "ClassicClient \<Rightarrow> msg \<Rightarrow> string \<Rightarrow> 'w \<Rightarrow> exchange_result \<times> 'w"
  t_dial :: "string \<Rightarrow> tls_Config \<Rightarrow> int \<Rightarrow> 'w \<Rightarrow> goerr option \<times> 'w"
  t_pack :: "msg \<Rightarrow> goerr + u8 list"
  t_open :: "'w \<Rightarrow> goerr option \<times> 'w"
  t_write :: "u8 list \<Rightarrow> 'w \<Rightarrow> goerr option \<times> 'w"
  t_close :: "'w \<Rightarrow> goerr option \<times> 'w"
  t_read :: "int \<Rightarrow> 'w \<Rightarrow> (goerr + u8 list) option \<times> 'w"
  t_unpack :: "u8 list \<Rightarrow> goerr + msg"

text \<open>\<^verbatim>\<open>net.JoinHostPort\<close>: a host with a colon (an IPv6 address) is put in brackets.\<close>

definition JoinHostPort :: "string \<Rightarrow> string \<Rightarrow> string" where
  "JoinHostPort host port =
     (if CHR '':'' \<in> set host then ''['' @ host @ '']:'' @ port else host @ '':'' @ port)"

section \<open>clients/classic.go\<close>

definition Classic_ExchangeContext ::
  "'w transport \<Rightarrow> ClassicClient \<Rightarrow> msg \<Rightarrow> string \<Rightarrow> 'w \<Rightarrow> exchange_result \<times> msg \<times> 'w" where
  "Classic_ExchangeContext T client m ip w =
     (let addr = JoinHostPort ip (cl_Port client);
          (r, w) = t_classic T client m addr w
      in (r, m, w))"

section \<open>clients/doq.go\<close>

text \<open>The two-byte length prefix: \<^verbatim>\<open>uint16(len(b))\<close> in big-endian order.\<close>

definition put_uint16 :: "u16 \<Rightarrow> u8 list" where
  "put_uint16 x = [ucast (drop_bit 8 x), ucast x]"

definition get_uint16 :: "u8 \<Rightarrow> u8 \<Rightarrow> u16" where
  "get_uint16 hi lo = push_bit 8 (ucast hi) + ucast lo"

definition doq_frame :: "u8 list \<Rightarrow> u8 list" where
  "doq_frame b = put_uint16 (of_nat (length b)) @ b"

fun doq_unframe :: "u8 list \<Rightarrow> goerr + u8 list" where
  "doq_unframe (hi # lo # rest) =
     (if get_uint16 hi lo \<noteq> of_nat (length rest) then Inl MsgErr else Inr rest)"
| "doq_unframe _ = Inl MsgErr"

definition DOQ_ExchangeContext ::
  "'w transport \<Rightarrow> DOQClient \<Rightarrow> msg \<Rightarrow> string \<Rightarrow> 'w \<Rightarrow> exchange_result \<times> msg \<times> 'w" where
  "DOQ_ExchangeContext T c m addr w =
     (let addr = JoinHostPort addr (doq_Port c);
          (err, w) = t_dial T addr (doq_TLSConfig c) (doq_Timeout c) w
      in if err \<noteq> None then ((None, 0, err), m, w)
      else
        let m = m\<lparr>MsgId := 0\<rparr> in
        case t_pack T m of
          Inl e \<Rightarrow> ((None, 0, Some e), m, w)
        | Inr b \<Rightarrow>
            let t = t_now T w; (err, w) = t_open T w in
            if err \<noteq> None then ((None, 0, err), m, w)
            else
              let (err, w) = t_write T (doq_frame b) w in
              if err \<noteq> None then ((None, 0, err), m, w)
              else
                let (err, w) = t_close T w in
                if err \<noteq> None then ((None, 0, Some (Wrap [the err])), m, w)
                else
                  let (got, w) = t_read T (doq_Timeout c) w in
                  (case got of
                     None \<Rightarrow> ((None, 0, Some MsgErr), m, w)
                   | Some (Inl e) \<Rightarrow> ((None, 0, Some e), m, w)
                   | Some (Inr buf) \<Rightarrow>
                       let rtt = t_now T w - t in
                       (case doq_unframe buf of
                          Inl e \<Rightarrow> ((None, rtt, Some e), m, w)
                        | Inr body \<Rightarrow>
                            (case t_unpack T body of
                               Inl e \<Rightarrow> ((None, rtt, Some e), m, w)
                             | Inr rsp \<Rightarrow> ((Some rsp, rtt, None), m, w)))))"

definition client_ExchangeContext ::
  "'w transport \<Rightarrow> dnsClient \<Rightarrow> msg \<Rightarrow> string \<Rightarrow> 'w \<Rightarrow> exchange_result \<times> msg \<times> 'w" where
  "client_ExchangeContext T client m addr w =
     (case client of
        DOQ c \<Rightarrow> DOQ_ExchangeContext T c m addr w
      | Classic c \<Rightarrow> Classic_ExchangeContext T c m addr w)"

section \<open>Specification vocabulary\<close>

text \<open>A client answers with a message or with an error, as \<^verbatim>\<open>dns.Client\<close> documents.\<close>

definition transport_ok :: "'w transport \<Rightarrow> bool" where
  "transport_ok T \<longleftrightarrow> (\<forall>c m a w r d e w'. t_classic T c m a w = ((r, d, e), w') \<longrightarrow> r \<noteq> None \<or> e \<noteq> None)"

section \<open>Framing\<close>

lemma get_put_uint16: "get_uint16 (ucast (drop_bit 8 x)) (ucast x) = (x :: u16)"
proof (rule bit_word_eqI)
  fix n
  assume "n < LENGTH(16)"
  have disj: "and (push_bit 8 (ucast (ucast (drop_bit 8 x) :: u8) :: u16)) (ucast (ucast x :: u8)) = 0"
    by (rule bit_word_eqI) (auto simp: bit_simps)
  show "bit (get_uint16 (ucast (drop_bit 8 x)) (ucast x)) n = bit x n"
    unfolding get_uint16_def disjunctive_add_eq_or [OF disj]
    using \<open>n < LENGTH(16)\<close> by (auto simp: bit_simps)
qed

lemma doq_unframe_frame: "doq_unframe (doq_frame b) = Inr b"
  by (simp add: doq_frame_def put_uint16_def get_put_uint16)

end
