(* ===== verification/Nameserver.thy ===== *)
theory Nameserver
  imports Clients Resolver_Functions
begin

text \<open>
  nameserver.go: the client factory, the loop over the configured protocols, and the metrics.
  \<open>protocolRatio\<close> is kept as the pair of its numerator and denominator. The source starts
  \<open>updateMetrics\<close> in a goroutine of its own; the exchange does not read what it writes, so
  it is a separate operation here. The factory is the default one: \<open>newNameserver\<close> leaves
  the field \<open>dnsClientFactory\<close> nil.
\<close>

section \<open>nameserver.go\<close>

record nameserver =
  hostname :: string
  addr :: string
  quicClient :: "DOQClient option"
  tlsClient :: "ClassicClient option"
  numberOfRequests :: u32
  totalResponseTime :: int
  averageResponseTime :: int
  numberOfTcpRequests :: u32
  protocolRatio :: "u32 \<times> u32"

definition newNameserver :: "string \<Rightarrow> string \<Rightarrow> nameserver" where
  "newNameserver h a = \<lparr>hostname = h, addr = a, quicClient = None, tlsClient = None,
     numberOfRequests = 0, totalResponseTime = 0, averageResponseTime = 0, numberOfTcpRequests = 0,
     protocolRatio = (0, 0)\<rparr>"

definition curve_preferences :: "Config \<Rightarrow> CurveID list" where
  "curve_preferences cfg =
     (if pqcMode cfg then [X25519MLKEM768, SecP256r1MLKEM768]
      else [X25519MLKEM768, SecP256r1MLKEM768, X25519, CurveP256])"

definition defaultDnsClientFactory :: "dnslib \<Rightarrow> Config \<Rightarrow> nameserver \<Rightarrow> string \<Rightarrow> dnsClient \<times> nameserver" where
  "defaultDnsClientFactory L cfg n protocol =
     (if protocol = ''doq'' then
        (case quicClient n of
           Some c \<Rightarrow> (DOQ c, n)
         | None \<Rightarrow>
             let tlsconf = \<lparr>NextProtos = [''doq''], ServerName = Fqdn L (hostname n), MinVersionTLS13 = True,
                   InsecureSkipVerify = insecureSkipVerify cfg, ClientSessionCache = tlsCache cfg,
                   SessionTicketsDisabled = False, CurvePreferences = curve_preferences cfg\<rparr>;
                 c = \<lparr>doq_Port = doqPort cfg, doq_TLSConfig = tlsconf, doq_Timeout = doqTimeout cfg\<rparr>
             in (DOQ c, n\<lparr>quicClient := Some c\<rparr>))
      else if protocol = ''dot'' then
        (case tlsClient n of
           Some c \<Rightarrow> (Classic c, n)
         | None \<Rightarrow>
             let tlsconf = \<lparr>NextProtos = [], ServerName = Fqdn L (hostname n), MinVersionTLS13 = True,
                   InsecureSkipVerify = insecureSkipVerify cfg, ClientSessionCache = tlsCache cfg,
                   SessionTicketsDisabled = False, CurvePreferences = curve_preferences cfg\<rparr>;
                 c = \<lparr>cl_Port = dotPort cfg, cl_Net = ''tcp-tls'', cl_Timeout = dotTimeout cfg,
                   cl_TLSConfig = Some tlsconf\<rparr>
             in (Classic c, n\<lparr>tlsClient := Some c\<rparr>))
      else
        let timeout = (if protocol = ''tcp'' then tcpTimeout cfg else udpTimeout cfg) in
        (Classic \<lparr>cl_Port = dnsPort cfg, cl_Net = protocol, cl_Timeout = timeout, cl_TLSConfig = None\<rparr>, n))"

text \<open>
  The loop over the protocols. It carries the response, the nameserver, the query message
  (which a client may change) and the state of the network. The log message of each turn
  reads the first question of the query, so a query without one panics there.
\<close>

fun protocol_loop ::
  "dnslib \<Rightarrow> 'w transport \<Rightarrow> Config \<Rightarrow> string list \<Rightarrow> Response \<Rightarrow> nameserver \<Rightarrow> msg \<Rightarrow> 'w \<Rightarrow>
     (Response \<times> nameserver \<times> msg \<times> 'w) go" where
  "protocol_loop L T cfg [] r n m w = Inr (r, n, m, w)"
| "protocol_loop L T cfg (protocol # ps) r n m w =
     (let (client, n) = defaultDnsClientFactory L cfg n protocol;
          ((rmsg, d, e), m, w) = client_ExchangeContext T client m (addr n) w;
          r = r\<lparr>Msg := rmsg, Duration := d, Err := e\<rparr>
      in bindG (go_nth (Question m) 0) (\<lambda>_.
           if HasError (Some r) then protocol_loop L T cfg ps r n m w
           else case rmsg of
                  None \<Rightarrow> Inl NilDereference
                | Some x \<Rightarrow> (if \<not> Truncated x then Inr (r, n, m, w) else protocol_loop L T cfg ps r n m w)))"

definition nameserver_exchange ::
  "dnslib \<Rightarrow> 'w transport \<Rightarrow> Config \<Rightarrow> nameserver \<Rightarrow> msg option \<Rightarrow> 'w \<Rightarrow>
     (Response \<times> nameserver \<times> msg option \<times> 'w) go" where
  "nameserver_exchange L T cfg n mo w =
     (case mo of
        None \<Rightarrow> Inr (newResponseError (Wrap [RErr ErrNilMessageSentToExchange]), n, None, w)
      | Some m \<Rightarrow>
          bindG (protocol_loop L T cfg (protocols cfg) zero_Response n m w)
            (\<lambda>(r, n, m, w). Inr (r, n, Some m, w)))"

definition updateMetrics :: "string \<Rightarrow> int \<Rightarrow> nameserver \<Rightarrow> nameserver go" where
  "updateMetrics protocol duration n =
     (let n = n\<lparr>numberOfRequests := numberOfRequests n + 1\<rparr>;
          n = n\<lparr>totalResponseTime := totalResponseTime n + duration\<rparr>
      in if numberOfRequests n = 0 then Inl DivideByZero
         else
           let n = n\<lparr>averageResponseTime := go_div (totalResponseTime n) (uint (numberOfRequests n))\<rparr>;
               n = (if protocol = ''tcp'' then n\<lparr>numberOfTcpRequests := numberOfTcpRequests n + 1\<rparr> else n)
           in Inr (n\<lparr>protocolRatio := (numberOfTcpRequests n, numberOfRequests n)\<rparr>))"

section \<open>Specification vocabulary\<close>

text \<open>What the TLS settings of a client promise under a configuration.\<close>

definition tls_ok :: "dnslib \<Rightarrow> Config \<Rightarrow> string \<Rightarrow> tls_Config \<Rightarrow> bool" where
  "tls_ok L cfg h t \<longleftrightarrow> MinVersionTLS13 t \<and> ServerName t = Fqdn L h \<and>
     (InsecureSkipVerify t \<longrightarrow> insecureSkipVerify cfg) \<and>
     CurvePreferences t \<noteq> [] \<and> (pqcMode cfg \<longrightarrow> set (CurvePreferences t) \<subseteq> {X25519MLKEM768, SecP256r1MLKEM768})"

definition client_ok :: "dnslib \<Rightarrow> Config \<Rightarrow> string \<Rightarrow> string \<Rightarrow> dnsClient \<Rightarrow> bool" where
  "client_ok L cfg h protocol c =
     (if protocol = ''doq'' then (case c of DOQ q \<Rightarrow> tls_ok L cfg h (doq_TLSConfig q) | Classic _ \<Rightarrow> False)
      else case c of
             DOQ _ \<Rightarrow> False
           | Classic t \<Rightarrow>
               (if protocol = ''dot'' then (case cl_TLSConfig t of Some x \<Rightarrow> tls_ok L cfg h x | None \<Rightarrow> False)
                else cl_Net t = protocol))"

definition nameserver_inv :: "dnslib \<Rightarrow> Config \<Rightarrow> nameserver \<Rightarrow> bool" where
  "nameserver_inv L cfg n \<longleftrightarrow>
     (\<forall>q. quicClient n = Some q \<longrightarrow> tls_ok L cfg (hostname n) (doq_TLSConfig q)) \<and>
     (\<forall>t. tlsClient n = Some t \<longrightarrow> (\<exists>x. cl_TLSConfig t = Some x \<and> tls_ok L cfg (hostname n) x))"

text \<open>A response that answers the query in full, or the outcome of the last protocol.\<close>

definition complete :: "Response \<Rightarrow> bool" where
  "complete r \<longleftrightarrow> Err r = None \<and> (\<exists>m. Msg r = Some m \<and> \<not> Truncated m)"

section \<open>Clients\<close>

lemma newNameserver_inv: "nameserver_inv L cfg (newNameserver h a)"
  by (simp add: nameserver_inv_def newNameserver_def)

lemma factory_ok:
  assumes "nameserver_inv L cfg n" "defaultDnsClientFactory L cfg n protocol = (c, n')"
  shows "client_ok L cfg (hostname n) protocol c \<and> nameserver_inv L cfg n' \<and>
     hostname n' = hostname n \<and> addr n' = addr n"
  using assms
  by (auto simp: defaultDnsClientFactory_def client_ok_def nameserver_inv_def tls_ok_def curve_preferences_def
      Let_def split: if_split_asm option.splits)

lemma doq_result:
  "DOQ_ExchangeContext T c m a w = ((r, d, e), m', w') \<Longrightarrow> r \<noteq> None \<or> e \<noteq> None"
  by (auto simp: DOQ_ExchangeContext_def Let_def split: prod.splits if_split_asm sum.splits option.splits)

lemma client_result:
  assumes "transport_ok T" "client_ExchangeContext T c m a w = ((r, d, e), m', w')"
  shows "r \<noteq> None \<or> e \<noteq> None"
proof (cases c)
  case (DOQ q)
  with assms(2) show ?thesis by (auto simp: client_ExchangeContext_def dest: doq_result)
next
  case (Classic q)
  with assms(2) have "t_classic T q m (JoinHostPort a (cl_Port q)) w = ((r, d, e), w')"
    by (auto simp: client_ExchangeContext_def Classic_ExchangeContext_def split: prod.split_asm)
  with assms(1) show ?thesis unfolding transport_ok_def by blast
qed

text \<open>The clients change at most the identifier of the query.\<close>

abbreviation same_query :: "msg \<Rightarrow> msg \<Rightarrow> bool" where
  "same_query m m' \<equiv> Question m' = Question m \<and> CheckingDisabled m' = CheckingDisabled m"

lemma DOQ_frame:
  "DOQ_ExchangeContext T c m a w = ((r, d, e), m', w') \<Longrightarrow>
     same_query m m' \<and> (\<forall>x. r = Some x \<longrightarrow> (\<exists>b. t_unpack T b = Inr x))"
  by (auto simp: DOQ_ExchangeContext_def Let_def split: prod.split_asm if_split_asm sum.split_asm option.split_asm)

lemma client_same_query:
  "client_ExchangeContext T c m a w = ((r, d, e), m', w') \<Longrightarrow> same_query m m'"
  by (cases c) (auto simp: client_ExchangeContext_def Classic_ExchangeContext_def split: prod.split_asm dest: DOQ_frame)

section \<open>The protocol loop\<close>

lemma protocol_loop_returns:
  assumes "transport_ok T" "Question m \<noteq> []"
  shows "returns (protocol_loop L T cfg ps r n m w)"
  using assms(2)
proof (induction ps arbitrary: r n m w)
  case (Cons p ps)
  obtain client n1 rmsg d e m1 w1 where
    c: "defaultDnsClientFactory L cfg n p = (client, n1)"
      "client_ExchangeContext T client m (addr n1) w = ((rmsg, d, e), m1, w1)"
    by (metis prod.exhaust)
  have "Question m1 \<noteq> []" using client_same_query [OF c(2)] Cons.prems by simp
  with client_result [OF assms(1) c(2)] Cons.IH show ?case by (auto simp: c Let_def split: option.split)
qed simp

text \<open>The response is complete, or it is the outcome of the last protocol that was tried.\<close>

lemma protocol_loop_outcome:
  assumes "protocol_loop L T cfg ps r n m w = Inr (r', n', m', w')" "ps \<noteq> []" "nameserver_inv L cfg n"
  shows "\<exists>p \<in> set ps. \<exists>c m0 w0 w1 m1. client_ok L cfg (hostname n) p c \<and>
     client_ExchangeContext T c m0 (addr n) w0 = ((Msg r', Duration r', Err r'), m1, w1) \<and>
     (complete r' \<or> p = last ps)"
  using assms
proof (induction ps arbitrary: r n m w)
  case (Cons p ps)
  obtain client n1 rmsg d e m1 w1 where
    c: "defaultDnsClientFactory L cfg n p = (client, n1)"
      "client_ExchangeContext T client m (addr n1) w = ((rmsg, d, e), m1, w1)"
    by (metis prod.exhaust)
  note f = factory_ok [OF Cons.prems(3) c(1)]
  let ?r = "r\<lparr>Msg := rmsg, Duration := d, Err := e\<rparr>"
  show ?case
  proof (cases "(r', n', m', w') = (?r, n1, m1, w1) \<and> (complete ?r \<or> ps = [])")
    case True
    then show ?thesis using f c(2) by (intro bexI [of _ p] exI) auto
  next
    case False
    with Cons.prems(1) have loop: "protocol_loop L T cfg ps ?r n1 m1 w1 = Inr (r', n', m', w')"
      by (auto simp: c Let_def complete_def bindG_eq_Inr_iff split: if_split_asm option.split_asm)
    with False have "ps \<noteq> []" by (auto simp: complete_def)
    have "nameserver_inv L cfg n1" "hostname n1 = hostname n" "addr n1 = addr n" "last (p # ps) = last ps"
      using f \<open>ps \<noteq> []\<close> by simp_all
    with Cons.IH [OF loop \<open>ps \<noteq> []\<close>] show ?thesis unfolding Bex_def by (metis list.set_intros(2))
  qed
qed simp

text \<open>A query without a question panics at the first protocol.\<close>

lemma protocol_loop_no_question:
  assumes "Question m = []" "ps \<noteq> []"
  shows "protocol_loop L T cfg ps r n m w = Inl IndexOutOfRange"
  using assms by (cases ps) (auto simp: Let_def go_nth_def dest!: client_same_query split: prod.split)

text \<open>Metrics: the average is defined until the request counter wraps around.\<close>

lemma updateMetrics_returns: "returns (updateMetrics p d n) \<longleftrightarrow> numberOfRequests n \<noteq> - 1"
  by (auto simp: updateMetrics_def Let_def eq_neg_iff_add_eq_0)

end
