(* ===== verification/Pool.thy ===== *)
theory Pool
  imports Nameserver
begin

text \<open>
  pool.go and pool_exchange.go: the pool of nameservers of a zone. The servers are kept by
  value: a server is reachable only through its pool, and an exchange with it writes it back.
  The \<open>getIPv4\<close> and \<open>getIPv6\<close> methods return the index of the server that the source
  returns, or \<open>None\<close> for nil. \<open>ip6\<close> is the outcome of \<open>IPv6Available\<close>.
\<close>

section \<open>pool.go\<close>

datatype NameserverPoolStatus =
    PoolEmpty | PoolExpired | PoolHasHostnamesButNoIpAddresses | PrimedButNeedsEnhancing | PoolPrimed

record nameserverPool =
  hostsWithoutAddresses :: "string list"
  ipv4 :: "nameserver list"
  ipv4Next :: u32
  ipv4Count :: u32
  ipv6 :: "nameserver list"
  ipv6Next :: u32
  ipv6Count :: u32
  expires :: int

definition hasIPv4 :: "nameserverPool \<Rightarrow> bool" where
  "hasIPv4 pool \<longleftrightarrow> ipv4Count pool > 0"

definition hasIPv6 :: "nameserverPool \<Rightarrow> bool" where
  "hasIPv6 pool \<longleftrightarrow> ipv6Count pool > 0"

definition getIPv4 :: "nameserverPool \<Rightarrow> nat option \<times> nameserverPool" where
  "getIPv4 pool =
     (if hasIPv4 pool then
        let i = ipv4Next pool mod ipv4Count pool;
            pool = pool\<lparr>ipv4Next := i + 1\<rparr>
        in (if unat i < length (ipv4 pool) then Some (unat i) else None, pool)
      else (None, pool))"

definition getIPv6 :: "nameserverPool \<Rightarrow> nat option \<times> nameserverPool" where
  "getIPv6 pool =
     (if hasIPv6 pool then
        let i = ipv6Next pool mod ipv6Count pool;
            pool = pool\<lparr>ipv6Next := i + 1\<rparr>
        in (if unat i < length (ipv6 pool) then Some (unat i) else None, pool)
      else (None, pool))"

definition pool_expired :: "gotime \<Rightarrow> nameserverPool \<Rightarrow> bool" where
  "pool_expired now pool \<longleftrightarrow> expires pool > 0 \<and> expires pool < Unix now"

definition status :: "resolver_vars \<Rightarrow> bool \<Rightarrow> nameserverPool \<Rightarrow> NameserverPoolStatus" where
  "status vars ip6 pool =
     (let n4 = length (ipv4 pool); n6 = length (ipv6 pool) in
      if n4 = 0 \<and> n6 = 0 \<and> length (hostsWithoutAddresses pool) = 0 then PoolEmpty
      else
        let total = (if ip6 then n4 + n6 else n4) in
        if total = 0 then PoolHasHostnamesButNoIpAddresses
        else if total < DesireNumberOfNameserversPerZone vars \<and> length (hostsWithoutAddresses pool) > 0
        then PrimedButNeedsEnhancing
        else PoolPrimed)"

definition updateIPCount :: "nameserverPool \<Rightarrow> nameserverPool" where
  "updateIPCount pool = pool\<lparr>ipv4Count := of_nat (length (ipv4 pool)), ipv6Count := of_nat (length (ipv6 pool))\<rparr>"

fun find_addresses_loop ::
  "dnslib \<Rightarrow> string \<Rightarrow> rr list \<Rightarrow> (rr_hdr \<times> string) list \<Rightarrow> (rr_hdr \<times> string) list \<Rightarrow> u32 \<Rightarrow>
     (rr_hdr \<times> string) list \<times> (rr_hdr \<times> string) list \<times> u32" where
  "find_addresses_loop L h [] a aaaa ttl0 = (a, aaaa, ttl0)"
| "find_addresses_loop L h (r # rs) a aaaa ttl0 =
     (if canonicalName L (rr_name r) \<noteq> h then find_addresses_loop L h rs a aaaa ttl0
      else case r of
             A hdr ip \<Rightarrow> find_addresses_loop L h rs (a @ [(hdr, ip)]) aaaa (min (rr_ttl r) ttl0)
           | AAAA hdr ip \<Rightarrow> find_addresses_loop L h rs a (aaaa @ [(hdr, ip)]) (min (rr_ttl r) ttl0)
           | _ \<Rightarrow> find_addresses_loop L h rs a aaaa ttl0)"

definition findAddressesForHostname ::
  "dnslib \<Rightarrow> resolver_vars \<Rightarrow> string \<Rightarrow> rr list \<Rightarrow> (rr_hdr \<times> string) list \<times> (rr_hdr \<times> string) list \<times> u32" where
  "findAddressesForHostname L vars h records = find_addresses_loop L h records [] [] (rv_MaxAllowedTTL vars)"

definition add_servers ::
  "(rr_hdr \<times> string) list \<Rightarrow> (rr_hdr \<times> string) list \<Rightarrow> nameserverPool \<Rightarrow> nameserverPool" where
  "add_servers a aaaa pool =
     pool\<lparr>ipv4 := ipv4 pool @ map (\<lambda>(h, ip). newNameserver (Name h) ip) a,
          ipv6 := ipv6 pool @ map (\<lambda>(h, ip). newNameserver (Name h) ip) aaaa\<rparr>"

fun new_pool_loop ::
  "dnslib \<Rightarrow> resolver_vars \<Rightarrow> rr list \<Rightarrow> (rr_hdr \<times> string) list \<Rightarrow> u32 \<Rightarrow> nameserverPool \<Rightarrow> u32 \<times> nameserverPool" where
  "new_pool_loop L vars extra [] ttl0 pool = (ttl0, pool)"
| "new_pool_loop L vars extra ((hdr, ns) # nss) ttl0 pool =
     (let h = canonicalName L ns;
          ttl0 = min (Ttl hdr) ttl0;
          (a, aaaa, minTtlSeen) = findAddressesForHostname L vars h extra
      in if length a = 0 \<and> length aaaa = 0 then
           new_pool_loop L vars extra nss ttl0
             (pool\<lparr>hostsWithoutAddresses := hostsWithoutAddresses pool @ [h]\<rparr>)
         else new_pool_loop L vars extra nss (min minTtlSeen ttl0) (add_servers a aaaa pool))"

definition empty_pool :: nameserverPool where
  "empty_pool = \<lparr>hostsWithoutAddresses = [], ipv4 = [], ipv4Next = 0, ipv4Count = 0,
     ipv6 = [], ipv6Next = 0, ipv6Count = 0, expires = 0\<rparr>"

definition newNameserverPool ::
  "dnslib \<Rightarrow> resolver_vars \<Rightarrow> gotime \<Rightarrow> (rr_hdr \<times> string) list \<Rightarrow> rr list \<Rightarrow> nameserverPool" where
  "newNameserverPool L vars now nameservers extra =
     (let (ttl0, pool) = new_pool_loop L vars extra nameservers (rv_MaxAllowedTTL vars) empty_pool;
          pool = pool\<lparr>expires := Unix (now + uint ttl0 * Second)\<rparr>
      in updateIPCount pool)"

fun enrich_loop ::
  "dnslib \<Rightarrow> resolver_vars \<Rightarrow> rr list \<Rightarrow> string list \<Rightarrow> string list \<Rightarrow> u32 \<Rightarrow> nameserverPool \<Rightarrow>
     string list \<times> u32 \<times> nameserverPool" where
  "enrich_loop L vars records [] still ttl0 pool = (still, ttl0, pool)"
| "enrich_loop L vars records (h # hs) still ttl0 pool =
     (let (a, aaaa, minTtlSeen) = findAddressesForHostname L vars h records in
      if length a = 0 \<and> length aaaa = 0 then enrich_loop L vars records hs (still @ [h]) ttl0 pool
      else enrich_loop L vars records hs still (min minTtlSeen ttl0) (add_servers a aaaa pool))"

definition enrich :: "dnslib \<Rightarrow> resolver_vars \<Rightarrow> gotime \<Rightarrow> rr list \<Rightarrow> nameserverPool \<Rightarrow> nameserverPool" where
  "enrich L vars now records pool =
     (if length records = 0 then pool
      else
        let (still, ttl0, pool) =
              enrich_loop L vars records (hostsWithoutAddresses pool) [] (rv_MaxAllowedTTL vars) pool;
            pool = (if expires pool > 0 then pool\<lparr>expires := Unix (now + uint ttl0 * Second)\<rparr> else pool);
            pool = pool\<lparr>hostsWithoutAddresses := still\<rparr>
        in updateIPCount pool)"

section \<open>pool_exchange.go\<close>

type_synonym 'w pool_step = "(Response option \<times> nameserverPool \<times> msg \<times> 'w) go"

definition try_IPv4 ::
  "dnslib \<Rightarrow> 'w transport \<Rightarrow> Config \<Rightarrow> Response option \<Rightarrow> nameserverPool \<Rightarrow> msg \<Rightarrow> 'w \<Rightarrow> 'w pool_step" where
  "try_IPv4 L T cfg response pool m w =
     (case getIPv4 pool of
        (None, pool) \<Rightarrow> Inr (response, pool, m, w)
      | (Some i, pool) \<Rightarrow>
          bindG (nameserver_exchange L T cfg (ipv4 pool ! i) (Some m) w) (\<lambda>(r, server, mo, w).
            Inr (Some r, pool\<lparr>ipv4 := (ipv4 pool)[i := server]\<rparr>, (case mo of Some m' \<Rightarrow> m' | None \<Rightarrow> m), w)))"

definition try_IPv6 ::
  "dnslib \<Rightarrow> 'w transport \<Rightarrow> Config \<Rightarrow> Response option \<Rightarrow> nameserverPool \<Rightarrow> msg \<Rightarrow> 'w \<Rightarrow> 'w pool_step" where
  "try_IPv6 L T cfg response pool m w =
     (case getIPv6 pool of
        (None, pool) \<Rightarrow> Inr (response, pool, m, w)
      | (Some i, pool) \<Rightarrow>
          bindG (nameserver_exchange L T cfg (ipv6 pool ! i) (Some m) w) (\<lambda>(r, server, mo, w).
            Inr (Some r, pool\<lparr>ipv6 := (ipv6 pool)[i := server]\<rparr>, (case mo of Some m' \<Rightarrow> m' | None \<Rightarrow> m), w)))"

definition unsuccessful :: "Response option \<Rightarrow> bool" where
  "unsuccessful r \<longleftrightarrow> IsEmpty r \<or> HasError r"

definition wrap_failure :: "msg \<Rightarrow> Response option \<Rightarrow> Response go" where
  "wrap_failure m response =
     (if unsuccessful response then
        bindG (go_nth (Question m) 0) (\<lambda>_.
          case response of
            None \<Rightarrow> Inl NilDereference
          | Some r \<Rightarrow>
              (case Err r of
                 Some e \<Rightarrow> Inr (r\<lparr>Err := Some (Wrap [e, Wrap [RErr ErrUnableToResolveAnswer]])\<rparr>)
               | None \<Rightarrow> Inr (r\<lparr>Err := Some (Wrap [RErr ErrUnableToResolveAnswer])\<rparr>)))
      else case response of None \<Rightarrow> Inl NilDereference | Some r \<Rightarrow> Inr r)"

definition pool_exchange ::
  "dnslib \<Rightarrow> 'w transport \<Rightarrow> Config \<Rightarrow> bool \<Rightarrow> nameserverPool \<Rightarrow> msg \<Rightarrow> 'w \<Rightarrow>
     (Response \<times> nameserverPool \<times> msg \<times> 'w) go" where
  "pool_exchange L T cfg ip6 pool m w =
     (let has4 = hasIPv4 pool; has6 = hasIPv6 pool in
      if \<not> has4 \<and> \<not> has6 then Inr (newResponseError (Wrap [RErr ErrNoPoolConfiguredForZone]), pool, m, w)
      else
        bindG (if has6 \<and> ip6 then try_IPv6 L T cfg None pool m w else try_IPv4 L T cfg None pool m w)
          (\<lambda>(response, pool, m, w).
        bindG (if unsuccessful response then
                 (if has4 then try_IPv4 L T cfg response pool m w else try_IPv6 L T cfg response pool m w)
               else Inr (response, pool, m, w))
          (\<lambda>(response, pool, m, w).
        bindG (wrap_failure m response) (\<lambda>r. Inr (r, pool, m, w)))))"

section \<open>Specification vocabulary\<close>

definition pool_inv :: "nameserverPool \<Rightarrow> bool" where
  "pool_inv pool \<longleftrightarrow>
     ipv4Count pool = of_nat (length (ipv4 pool)) \<and> length (ipv4 pool) < 2 ^ 32 \<and>
     ipv6Count pool = of_nat (length (ipv6 pool)) \<and> length (ipv6 pool) < 2 ^ 32"

text \<open>The address records of a host, as \<open>findAddressesForHostname\<close> collects them.\<close>

definition addresses :: "dnslib \<Rightarrow> string \<Rightarrow> rr list \<Rightarrow> rr list" where
  "addresses L h records = filter (\<lambda>r. canonicalName L (rr_name r) = h \<and> (as_A r \<noteq> None \<or> as_AAAA r \<noteq> None)) records"

definition pool_servers :: "nameserverPool \<Rightarrow> (string \<times> string) set" where
  "pool_servers pool = (\<lambda>s. (hostname s, addr s)) ` (set (ipv4 pool) \<union> set (ipv6 pool))"

section \<open>Round robin\<close>

text \<open>
  What a pool promises about picking servers: among \<open>n\<close> servers the pick goes to the next
  position, modulo \<open>n\<close>, and moves the position on.
\<close>

locale round_robin =
  fixes pick :: "'s \<Rightarrow> nat option \<times> 's" and size :: "'s \<Rightarrow> nat" and pos :: "'s \<Rightarrow> nat" and inv :: "'s \<Rightarrow> bool"
  assumes pick_some: "inv s \<Longrightarrow> 0 < size s \<Longrightarrow> fst (pick s) = Some (pos s mod size s)"
    and pick_pos: "inv s \<Longrightarrow> 0 < size s \<Longrightarrow> pos (snd (pick s)) = pos s mod size s + 1"
    and pick_size: "inv s \<Longrightarrow> size (snd (pick s)) = size s"
    and pick_inv: "inv s \<Longrightarrow> inv (snd (pick s))"
    and pick_none: "inv s \<Longrightarrow> size s = 0 \<Longrightarrow> fst (pick s) = None"
begin

definition after :: "nat \<Rightarrow> 's \<Rightarrow> 's" where
  "after k s = ((\<lambda>s. snd (pick s)) ^^ k) s"

lemma after_inv: "inv s \<Longrightarrow> inv (after k s) \<and> size (after k s) = size s"
  by (induction k) (simp_all add: after_def pick_inv pick_size)

lemma after_pos:
  assumes "inv s" "0 < size s"
  shows "pos (after k s) mod size s = (pos s + k) mod size s"
proof (induction k)
  case (Suc k)
  have "pos (after (Suc k) s) = pos (after k s) mod size s + 1"
    using pick_pos [of "after k s"] after_inv [OF assms(1), of k] assms(2) by (simp add: after_def)
  then show ?case using Suc by (simp add: mod_Suc_eq)
qed (simp add: after_def)

lemma kth_pick:
  assumes "inv s" "0 < size s"
  shows "fst (pick (after k s)) = Some ((pos s + k) mod size s)"
  using pick_some [of "after k s"] after_inv [OF assms(1), of k] after_pos [OF assms, of k] assms(2) by simp

lemma fair:
  assumes "inv s" "i < size s"
  shows "\<exists>k < size s. fst (pick (after k s)) = Some i"
proof -
  let ?n = "size s"
  let ?k = "(i + (?n - pos s mod ?n)) mod ?n"
  have n: "0 < ?n" using assms(2) by simp
  have "(pos s + ?k) mod ?n = (pos s mod ?n + (i + (?n - pos s mod ?n))) mod ?n"
    by (simp add: mod_simps)
  also have "\<dots> = (i + ?n) mod ?n" using mod_less_divisor [OF n, of "pos s"] by simp
  also have "\<dots> = i" using assms(2) by simp
  finally have "(pos s + ?k) mod ?n = i" .
  with kth_pick [OF assms(1) n, of ?k] n show ?thesis by (intro exI [of _ ?k]) simp
qed

end

lemma pool_inv_counts:
  assumes "pool_inv pool"
  shows "unat (ipv4Count pool) = length (ipv4 pool)" "unat (ipv6Count pool) = length (ipv6 pool)"
    and "hasIPv4 pool \<longleftrightarrow> ipv4 pool \<noteq> []" "hasIPv6 pool \<longleftrightarrow> ipv6 pool \<noteq> []"
proof -
  show c: "unat (ipv4Count pool) = length (ipv4 pool)" "unat (ipv6Count pool) = length (ipv6 pool)"
    using assms by (simp_all add: pool_inv_def unat_of_nat take_bit_nat_eq_self_iff)
  show "hasIPv4 pool \<longleftrightarrow> ipv4 pool \<noteq> []" "hasIPv6 pool \<longleftrightarrow> ipv6 pool \<noteq> []"
    using c unfolding hasIPv4_def hasIPv6_def word_gt_0_no [symmetric] by (auto simp: word_gt_0 unat_eq_0 [symmetric])
qed

lemma next_position:
  fixes x c :: u32
  assumes "0 < unat c"
  shows "unat (x mod c) = unat x mod unat c" and "unat (x mod c + 1) = unat x mod unat c + 1"
proof -
  show m: "unat (x mod c) = unat x mod unat c" by (rule unat_mod)
  have "unat c < 2 ^ LENGTH(32)" by (rule unsigned_less)
  moreover have "unat x mod unat c < unat c" using assms by simp
  ultimately have "unat (x mod c) + unat (1 :: u32) < 2 ^ LENGTH(32)" using m by simp
  then show "unat (x mod c + 1) = unat x mod unat c + 1"
    using m by (simp add: unat_add_lem [THEN iffD1])
qed

interpretation rr4: round_robin getIPv4 "\<lambda>p. length (ipv4 p)" "\<lambda>p. unat (ipv4Next p)" pool_inv
proof
  fix s
  assume inv: "pool_inv s"
  show "pool_inv (snd (getIPv4 s))" "length (ipv4 (snd (getIPv4 s))) = length (ipv4 s)"
    using inv by (simp_all add: getIPv4_def pool_inv_def Let_def)
  show "fst (getIPv4 s) = None" if "length (ipv4 s) = 0"
    using that pool_inv_counts(3) [OF inv] by (simp add: getIPv4_def)
  assume ne: "0 < length (ipv4 s)"
  then have c: "0 < unat (ipv4Count s)" "hasIPv4 s" using pool_inv_counts [OF inv] by simp_all
  show "fst (getIPv4 s) = Some (unat (ipv4Next s) mod length (ipv4 s))"
    "unat (ipv4Next (snd (getIPv4 s))) = unat (ipv4Next s) mod length (ipv4 s) + 1"
    using c ne next_position [OF c(1), of "ipv4Next s"] pool_inv_counts(1) [OF inv]
    by (simp_all add: getIPv4_def Let_def)
qed

interpretation rr6: round_robin getIPv6 "\<lambda>p. length (ipv6 p)" "\<lambda>p. unat (ipv6Next p)" pool_inv
proof
  fix s
  assume inv: "pool_inv s"
  show "pool_inv (snd (getIPv6 s))" "length (ipv6 (snd (getIPv6 s))) = length (ipv6 s)"
    using inv by (simp_all add: getIPv6_def pool_inv_def Let_def)
  show "fst (getIPv6 s) = None" if "length (ipv6 s) = 0"
    using that pool_inv_counts(4) [OF inv] by (simp add: getIPv6_def)
  assume ne: "0 < length (ipv6 s)"
  then have c: "0 < unat (ipv6Count s)" "hasIPv6 s" using pool_inv_counts [OF inv] by simp_all
  show "fst (getIPv6 s) = Some (unat (ipv6Next s) mod length (ipv6 s))"
    "unat (ipv6Next (snd (getIPv6 s))) = unat (ipv6Next s) mod length (ipv6 s) + 1"
    using c ne next_position [OF c(1), of "ipv6Next s"] pool_inv_counts(2) [OF inv]
    by (simp_all add: getIPv6_def Let_def)
qed

text \<open>The servers that the addresses of a host become.\<close>

definition servers_of :: "dnslib \<Rightarrow> string \<Rightarrow> rr list \<Rightarrow> (string \<times> string) set" where
  "servers_of L h rs = (\<lambda>(hdr, ip). (Name hdr, ip)) `
     (set (extractRecords as_A (addresses L h rs)) \<union> set (extractRecords as_AAAA (addresses L h rs)))"

text \<open>What an attempt with a server leaves: a response, and a pool with the same addresses.\<close>

definition same_shape :: "nameserverPool \<Rightarrow> nameserverPool \<Rightarrow> bool" where
  "same_shape p q \<longleftrightarrow> length (ipv4 q) = length (ipv4 p) \<and> length (ipv6 q) = length (ipv6 p) \<and>
     ipv4Count q = ipv4Count p \<and> ipv6Count q = ipv6Count p \<and>
     hostsWithoutAddresses q = hostsWithoutAddresses p \<and> expires q = expires p"

section \<open>Addresses\<close>

lemma find_addresses_loop_eq:
  "find_addresses_loop L h rs a aaaa t =
     (a @ extractRecords as_A (addresses L h rs), aaaa @ extractRecords as_AAAA (addresses L h rs),
      fold (\<lambda>r m. min m (rr_ttl r)) (addresses L h rs) t)"
proof (induction rs arbitrary: a aaaa t)
  case (Cons r rs)
  then show ?case by (cases r) (simp_all add: addresses_def min.commute)
qed (simp add: addresses_def)

lemma findAddresses_eq:
  "findAddressesForHostname L vars h rs =
     (extractRecords as_A (addresses L h rs), extractRecords as_AAAA (addresses L h rs),
      Min (insert (rv_MaxAllowedTTL vars) (rr_ttl ` set (addresses L h rs))))"
  by (simp add: findAddressesForHostname_def find_addresses_loop_eq fold_min_eq_Min)

lemma no_addresses:
  "extractRecords as_A (addresses L h rs) = [] \<and> extractRecords as_AAAA (addresses L h rs) = [] \<longleftrightarrow> addresses L h rs = []"
proof -
  have "extractRecords as_A xs = [] \<and> extractRecords as_AAAA xs = [] \<longleftrightarrow> xs = []"
    if "\<forall>r \<in> set xs. as_A r \<noteq> None \<or> as_AAAA r \<noteq> None" for xs
    using that by (induction xs) (auto split: option.splits)
  from this [of "addresses L h rs"] show ?thesis by (auto simp: addresses_def)
qed

lemma as_A_Some [simp]: "as_A r = Some (h, a) \<longleftrightarrow> r = A h a"
  by (cases r) auto

lemma as_AAAA_Some [simp]: "as_AAAA r = Some (h, a) \<longleftrightarrow> r = AAAA h a"
  by (cases r) auto

lemma add_servers_simps [simp]:
  "hostsWithoutAddresses (add_servers a aaaa p) = hostsWithoutAddresses p" "expires (add_servers a aaaa p) = expires p"
  "ipv4Next (add_servers a aaaa p) = ipv4Next p" "ipv6Next (add_servers a aaaa p) = ipv6Next p"
  by (simp_all add: add_servers_def)

lemma pool_servers_add:
  "pool_servers (add_servers a aaaa p) = pool_servers p \<union> (\<lambda>(hdr, ip). (Name hdr, ip)) ` (set a \<union> set aaaa)"
proof -
  have "(\<lambda>s. (hostname s, addr s)) \<circ> (\<lambda>(h :: rr_hdr, ip). newNameserver (Name h) ip) = (\<lambda>(h, ip). (Name h, ip))"
    by (auto simp: newNameserver_def)
  then have "(\<lambda>s. (hostname s, addr s)) ` (\<lambda>(h :: rr_hdr, ip). newNameserver (Name h) ip) ` X = (\<lambda>(h, ip). (Name h, ip)) ` X" for X
    by (simp only: image_comp)
  then show ?thesis by (simp add: pool_servers_def add_servers_def image_Un Un_ac)
qed

lemma servers_of_none: "addresses L h rs = [] \<Longrightarrow> servers_of L h rs = {}"
  by (simp add: servers_of_def)

lemma pool_servers_updateIPCount [simp]: "pool_servers (updateIPCount p) = pool_servers p"
  by (simp add: pool_servers_def updateIPCount_def)

lemma updateIPCount_simps [simp]:
  "hostsWithoutAddresses (updateIPCount p) = hostsWithoutAddresses p" "expires (updateIPCount p) = expires p"
  "ipv4 (updateIPCount p) = ipv4 p" "ipv6 (updateIPCount p) = ipv6 p"
  by (simp_all add: updateIPCount_def)

lemma updateIPCount_inv: "length (ipv4 p) < 2 ^ 32 \<Longrightarrow> length (ipv6 p) < 2 ^ 32 \<Longrightarrow> pool_inv (updateIPCount p)"
  by (simp add: pool_inv_def updateIPCount_def)

section \<open>A new pool\<close>

lemma new_pool_loop_spec:
  "new_pool_loop L vars extra nss t p = (t', p') \<Longrightarrow>
     hostsWithoutAddresses p' = hostsWithoutAddresses p @
       filter (\<lambda>h. addresses L h extra = []) (map (\<lambda>(hdr, ns). canonicalName L ns) nss) \<and>
     pool_servers p' = pool_servers p \<union> (\<Union>(hdr, ns) \<in> set nss. servers_of L (canonicalName L ns) extra) \<and>
     t' \<le> t \<and>
     (\<forall>(hdr, ns) \<in> set nss. t' \<le> Ttl hdr \<and> (\<forall>r \<in> set (addresses L (canonicalName L ns) extra). t' \<le> rr_ttl r))"
proof (induction nss arbitrary: t p)
  case (Cons x nss)
  obtain hdr ns where x: "x = (hdr, ns)" by (cases x)
  let ?h = "canonicalName L ns"
  let ?as = "addresses L ?h extra"
  let ?t = "if ?as = [] then min (Ttl hdr) t else min (Min (insert (rv_MaxAllowedTTL vars) (rr_ttl ` set ?as))) (min (Ttl hdr) t)"
  let ?p = "if ?as = [] then p\<lparr>hostsWithoutAddresses := hostsWithoutAddresses p @ [?h]\<rparr>
      else add_servers (extractRecords as_A ?as) (extractRecords as_AAAA ?as) p"
  have step: "new_pool_loop L vars extra nss ?t ?p = (t', p')"
    using Cons.prems no_addresses [of L ?h extra] by (auto simp: x findAddresses_eq Let_def split: if_split_asm)
  note IH = Cons.IH [OF step]
  have hosts: "hostsWithoutAddresses ?p = hostsWithoutAddresses p @ filter (\<lambda>h. addresses L h extra = []) [?h]"
    by simp
  have srv: "pool_servers ?p = pool_servers p \<union> servers_of L ?h extra"
    by (simp add: pool_servers_add servers_of_def) (simp add: pool_servers_def)
  have t: "?t \<le> t" "?t \<le> Ttl hdr" by (simp_all add: min.coboundedI2)
  have "?t \<le> rr_ttl r" if "r \<in> set ?as" for r
  proof -
    have "Min (insert (rv_MaxAllowedTTL vars) (rr_ttl ` set ?as)) \<le> rr_ttl r" using that by (intro Min_le) simp_all
    with that show ?thesis by (cases "?as = []") (simp_all add: min.coboundedI1)
  qed
  with t IH have head: "t' \<le> t \<and> t' \<le> Ttl hdr \<and> (\<forall>r \<in> set ?as. t' \<le> rr_ttl r)" by (meson order_trans)
  show ?case using IH head unfolding hosts srv by (simp add: x Un_assoc)
qed simp

lemma newNameserverPool_spec:
  assumes "newNameserverPool L vars now nss extra = p"
  obtains t where "expires p = Unix (now + uint t * Second)" "t \<le> rv_MaxAllowedTTL vars"
    "\<And>hdr ns. (hdr, ns) \<in> set nss \<Longrightarrow> t \<le> Ttl hdr \<and> (\<forall>r \<in> set (addresses L (canonicalName L ns) extra). t \<le> rr_ttl r)"
    "hostsWithoutAddresses p = filter (\<lambda>h. addresses L h extra = []) (map (\<lambda>(hdr, ns). canonicalName L ns) nss)"
    "pool_servers p = (\<Union>(hdr, ns) \<in> set nss. servers_of L (canonicalName L ns) extra)"
proof -
  obtain t p0 where loop: "new_pool_loop L vars extra nss (rv_MaxAllowedTTL vars) empty_pool = (t, p0)"
    by (metis prod.exhaust)
  have p: "p = updateIPCount (p0\<lparr>expires := Unix (now + uint t * Second)\<rparr>)"
    using assms loop by (simp add: newNameserverPool_def)
  note s = new_pool_loop_spec [OF loop]
  show thesis
  proof (rule that [of t])
    show "pool_servers p = (\<Union>(hdr, ns) \<in> set nss. servers_of L (canonicalName L ns) extra)"
      using s by (simp add: p pool_servers_def empty_pool_def)
  qed (use s in \<open>auto simp: p empty_pool_def\<close>)
qed

section \<open>Enrichment\<close>

lemma enrich_loop_spec:
  "enrich_loop L vars recs hs still t p = (still', t', p') \<Longrightarrow>
     still' = still @ filter (\<lambda>h. addresses L h recs = []) hs \<and>
     pool_servers p' = pool_servers p \<union> (\<Union>h \<in> set hs. servers_of L h recs) \<and>
     set (ipv4 p) \<subseteq> set (ipv4 p') \<and> set (ipv6 p) \<subseteq> set (ipv6 p') \<and>
     expires p' = expires p \<and> t' \<le> t \<and> (\<forall>h \<in> set hs. \<forall>r \<in> set (addresses L h recs). t' \<le> rr_ttl r) \<and>
     ((\<forall>h \<in> set hs. addresses L h recs = []) \<longrightarrow> t' = t)"
proof (induction hs arbitrary: still t p)
  case (Cons h hs)
  let ?as = "addresses L h recs"
  let ?m = "Min (insert (rv_MaxAllowedTTL vars) (rr_ttl ` set ?as))"
  have min_le: "?m \<le> rr_ttl r" if "r \<in> set ?as" for r using that by (intro Min_le) simp_all
  show ?case
  proof (cases "?as = []")
    case True
    then have "enrich_loop L vars recs hs (still @ [h]) t p = (still', t', p')"
      using Cons.prems by (simp add: findAddresses_eq)
    from Cons.IH [OF this] True show ?thesis by (simp add: servers_of_none)
  next
    case False
    let ?p = "add_servers (extractRecords as_A ?as) (extractRecords as_AAAA ?as) p"
    have "enrich_loop L vars recs hs still (min ?m t) ?p = (still', t', p')"
      using Cons.prems False no_addresses [of L h recs] by (auto simp: findAddresses_eq Let_def split: if_split_asm)
    note IH = Cons.IH [OF this]
    have "pool_servers ?p = pool_servers p \<union> servers_of L h recs" by (simp add: pool_servers_add servers_of_def)
    moreover have "set (ipv4 p) \<subseteq> set (ipv4 ?p)" "set (ipv6 p) \<subseteq> set (ipv6 ?p)" by (auto simp: add_servers_def)
    moreover have "t' \<le> t" "\<forall>r \<in> set ?as. t' \<le> rr_ttl r" using IH min_le by (auto intro: order_trans)
    ultimately show ?thesis using IH False by auto
  qed
qed simp

lemma enrich_spec:
  assumes "recs \<noteq> []"
  obtains t where "t \<le> rv_MaxAllowedTTL vars"
    "\<forall>h \<in> set (hostsWithoutAddresses p). \<forall>r \<in> set (addresses L h recs). t \<le> rr_ttl r"
    "(\<forall>h \<in> set (hostsWithoutAddresses p). addresses L h recs = []) \<Longrightarrow> t = rv_MaxAllowedTTL vars"
    "expires (enrich L vars now recs p) = (if expires p > 0 then Unix (now + uint t * Second) else expires p)"
    "hostsWithoutAddresses (enrich L vars now recs p) = filter (\<lambda>h. addresses L h recs = []) (hostsWithoutAddresses p)"
    "pool_servers (enrich L vars now recs p) = pool_servers p \<union> (\<Union>h \<in> set (hostsWithoutAddresses p). servers_of L h recs)"
proof -
  obtain still t p1 where loop:
    "enrich_loop L vars recs (hostsWithoutAddresses p) [] (rv_MaxAllowedTTL vars) p = (still, t, p1)"
    by (metis prod.exhaust)
  note s = enrich_loop_spec [OF loop]
  have e: "enrich L vars now recs p = updateIPCount
      ((if expires p1 > 0 then p1\<lparr>expires := Unix (now + uint t * Second)\<rparr> else p1)\<lparr>hostsWithoutAddresses := still\<rparr>)"
    using assms loop by (simp add: enrich_def)
  show thesis
  proof (rule that [of t])
    show "pool_servers (enrich L vars now recs p) = pool_servers p \<union> (\<Union>h \<in> set (hostsWithoutAddresses p). servers_of L h recs)"
      using s by (simp add: e pool_servers_def)
  qed (use s in \<open>auto simp: e\<close>)
qed

lemma status_cases:
  "status vars ip6 p = PoolEmpty \<longleftrightarrow> ipv4 p = [] \<and> ipv6 p = [] \<and> hostsWithoutAddresses p = []"
  "status vars ip6 p = PoolHasHostnamesButNoIpAddresses \<longleftrightarrow>
     ipv4 p = [] \<and> (if ip6 then ipv6 p = [] \<and> hostsWithoutAddresses p \<noteq> []
       else ipv6 p \<noteq> [] \<or> hostsWithoutAddresses p \<noteq> [])"
  "status vars ip6 p \<noteq> PoolExpired"
  by (auto simp: status_def Let_def)

section \<open>The exchange\<close>

lemma same_shape_inv: "same_shape p q \<Longrightarrow> pool_inv p \<Longrightarrow> pool_inv q"
  by (auto simp: same_shape_def pool_inv_def)

lemma same_shape_trans: "same_shape p q \<Longrightarrow> same_shape q r \<Longrightarrow> same_shape p r"
  by (simp add: same_shape_def)

lemma get_shape: "same_shape p (snd (getIPv4 p))" "same_shape p (snd (getIPv6 p))"
  by (simp_all add: same_shape_def getIPv4_def getIPv6_def Let_def)

lemma protocol_loop_query:
  "protocol_loop L T cfg ps r n m w = Inr (r', n', m', w') \<Longrightarrow> same_query m m'"
proof (induction ps arbitrary: r n m w)
  case (Cons p ps)
  obtain client n1 rmsg d e m1 w1 where
    c: "defaultDnsClientFactory L cfg n p = (client, n1)"
      "client_ExchangeContext T client m (addr n1) w = ((rmsg, d, e), m1, w1)"
    by (metis prod.exhaust)
  show ?case
    using Cons.prems client_same_query [OF c(2)] Cons.IH [of "r\<lparr>Msg := rmsg, Duration := d, Err := e\<rparr>" n1 m1 w1]
    by (auto simp: c Let_def bindG_eq_Inr_iff split: if_split_asm option.split_asm)
qed simp

lemma nameserver_exchange_returns:
  assumes "transport_ok T" "Question m \<noteq> []"
  shows "\<exists>r s m' w'. nameserver_exchange L T cfg n (Some m) w = Inr (r, s, Some m', w') \<and> Question m' \<noteq> []"
  using protocol_loop_returns [OF assms, of L cfg "protocols cfg" zero_Response n w]
    assms(2) by (auto simp: nameserver_exchange_def returns_iff) (use protocol_loop_query in force)

lemma try_IPv4_returns:
  assumes "transport_ok T" "pool_inv p" "Question m \<noteq> []"
  shows "\<exists>ro q m' w'. try_IPv4 L T cfg r p m w = Inr (ro, q, m', w') \<and> same_shape p q \<and>
     Question m' \<noteq> [] \<and> (if ipv4 p = [] then ro = r else ro \<noteq> None)"
proof (cases "fst (getIPv4 p)")
  case None
  then have "ipv4 p = []" using rr4.pick_some [OF assms(2)] by auto
  with None show ?thesis using get_shape(1) [of p] assms(3) by (cases "getIPv4 p") (auto simp: try_IPv4_def)
next
  case (Some i)
  then have ne: "ipv4 p \<noteq> []" using rr4.pick_none [OF assms(2)] by auto
  obtain r' s m' w' where x: "nameserver_exchange L T cfg (ipv4 (snd (getIPv4 p)) ! i) (Some m) w = Inr (r', s, Some m', w')"
    "Question m' \<noteq> []" using nameserver_exchange_returns [OF assms(1,3)] by blast
  with Some ne get_shape(1) [of p] show ?thesis
    by (cases "getIPv4 p") (auto simp: try_IPv4_def same_shape_def)
qed

lemma try_IPv6_returns:
  assumes "transport_ok T" "pool_inv p" "Question m \<noteq> []"
  shows "\<exists>ro q m' w'. try_IPv6 L T cfg r p m w = Inr (ro, q, m', w') \<and> same_shape p q \<and>
     Question m' \<noteq> [] \<and> (if ipv6 p = [] then ro = r else ro \<noteq> None)"
proof (cases "fst (getIPv6 p)")
  case None
  then have "ipv6 p = []" using rr6.pick_some [OF assms(2)] by auto
  with None show ?thesis using get_shape(2) [of p] assms(3) by (cases "getIPv6 p") (auto simp: try_IPv6_def)
next
  case (Some i)
  then have ne: "ipv6 p \<noteq> []" using rr6.pick_none [OF assms(2)] by auto
  obtain r' s m' w' where x: "nameserver_exchange L T cfg (ipv6 (snd (getIPv6 p)) ! i) (Some m) w = Inr (r', s, Some m', w')"
    "Question m' \<noteq> []" using nameserver_exchange_returns [OF assms(1,3)] by blast
  with Some ne get_shape(2) [of p] show ?thesis
    by (cases "getIPv6 p") (auto simp: try_IPv6_def same_shape_def)
qed

lemma wrap_failure_Some:
  "Question m \<noteq> [] \<Longrightarrow> \<exists>r'. wrap_failure m (Some r) = Inr r' \<and> (Err r' = None \<longleftrightarrow> \<not> unsuccessful (Some r)) \<and>
     (Err r' = None \<longrightarrow> r' = r \<and> Msg r \<noteq> None) \<and> Msg r' = Msg r"
  by (auto simp: wrap_failure_def unsuccessful_def split: option.splits)

lemma pool_exchange_ok:
  assumes "transport_ok T" "pool_inv p" "Question m \<noteq> []"
  shows "\<exists>r q m' w'. pool_exchange L T cfg ip6 p m w = Inr (r, q, m', w') \<and> same_shape p q \<and>
     (Err r = None \<longrightarrow> Msg r \<noteq> None)"
proof (cases "hasIPv4 p \<or> hasIPv6 p")
  case False
  then show ?thesis by (simp add: pool_exchange_def same_shape_def)
next
  case True
  let ?first = "if hasIPv6 p \<and> ip6 then try_IPv6 L T cfg None p m w else try_IPv4 L T cfg None p m w"
  obtain ro q m1 w1 where f: "?first = Inr (ro, q, m1, w1)" "same_shape p q" "Question m1 \<noteq> []"
    "ro = None \<longrightarrow> \<not> (hasIPv6 p \<and> ip6) \<and> ipv4 p = []"
    using try_IPv6_returns [OF assms, of L cfg None w] try_IPv4_returns [OF assms, of L cfg None w]
      pool_inv_counts(4) [OF assms(2)] by (cases "hasIPv6 p \<and> ip6") (auto split: if_split_asm)
  note q = same_shape_inv [OF f(2) assms(2)]
  let ?second = "if unsuccessful ro then (if hasIPv4 p then try_IPv4 L T cfg ro q m1 w1 else try_IPv6 L T cfg ro q m1 w1)
      else Inr (ro, q, m1, w1)"
  obtain ro2 q2 m2 w2 where s: "?second = Inr (ro2, q2, m2, w2)" "same_shape q q2" "ro2 \<noteq> None"
    "Question m2 \<noteq> []"
  proof (cases "unsuccessful ro")
    case False
    then have "ro \<noteq> None" by (cases ro) (auto simp: unsuccessful_def)
    with False that f(3) show thesis by (simp add: same_shape_def)
  next
    case bad: True
    have "ipv4 q = [] \<longleftrightarrow> ipv4 p = []" "ipv6 q = [] \<longleftrightarrow> ipv6 p = []" using f(2) by (auto simp: same_shape_def)
    then show thesis
      using that bad True try_IPv4_returns [OF assms(1) q f(3), of L cfg ro w1] try_IPv6_returns [OF assms(1) q f(3), of L cfg ro w1]
        pool_inv_counts(3,4) [OF assms(2)] by (cases "hasIPv4 p") auto
  qed
  from s(3) obtain r2 where "ro2 = Some r2" by blast
  with wrap_failure_Some [OF s(4), of r2] f(1) s(1,2) same_shape_trans [OF f(2) s(2)] True show ?thesis
    by (auto simp: pool_exchange_def Let_def)
qed

text \<open>Every message that the network delivers satisfies \<open>Q\<close>.\<close>

definition replies :: "'w transport \<Rightarrow> (msg \<Rightarrow> bool) \<Rightarrow> bool" where
  "replies T Q \<longleftrightarrow> (\<forall>c m a w r d e w'. t_classic T c m a w = ((Some r, d, e), w') \<longrightarrow> Q r) \<and>
     (\<forall>b r. t_unpack T b = Inr r \<longrightarrow> Q r)"

section \<open>What an exchange leaves of the query, and where its reply comes from\<close>

lemma client_frame:
  assumes "client_ExchangeContext T c m a w = ((r, d, e), m', w')" "replies T Q"
  shows "same_query m m' \<and> (\<forall>x. r = Some x \<longrightarrow> Q x)"
proof (cases c)
  case (DOQ q)
  with assms(1) have "DOQ_ExchangeContext T q m a w = ((r, d, e), m', w')" by (simp add: client_ExchangeContext_def)
  with assms(2) show ?thesis by (auto simp: replies_def dest!: DOQ_frame)
next
  case (Classic q)
  with assms(1) have "t_classic T q m (JoinHostPort a (cl_Port q)) w = ((r, d, e), w')" "m' = m"
    by (auto simp: client_ExchangeContext_def Classic_ExchangeContext_def split: prod.split_asm)
  with assms(2) show ?thesis unfolding replies_def by blast
qed

lemma protocol_loop_frame:
  assumes "protocol_loop L T cfg ps r n m w = Inr (r', n', m', w')" "replies T Q" "\<forall>x. Msg r = Some x \<longrightarrow> Q x"
  shows "same_query m m' \<and> (\<forall>x. Msg r' = Some x \<longrightarrow> Q x)"
  using assms(1,3)
proof (induction ps arbitrary: r n m w)
  case (Cons p ps)
  obtain client n1 rmsg d e m1 w1 where
    c: "defaultDnsClientFactory L cfg n p = (client, n1)"
      "client_ExchangeContext T client m (addr n1) w = ((rmsg, d, e), m1, w1)"
    by (metis prod.exhaust)
  note f = client_frame [OF c(2) assms(2)]
  show ?case
    using Cons.prems(1) f Cons.IH [of "r\<lparr>Msg := rmsg, Duration := d, Err := e\<rparr>" n1 m1 w1]
    by (auto simp: c Let_def bindG_eq_Inr_iff split: if_split_asm option.split_asm)
qed simp

lemma nameserver_exchange_frame:
  assumes "nameserver_exchange L T cfg n (Some m) w = Inr (r, n', mo, w')" "replies T Q"
  shows "\<exists>m'. mo = Some m' \<and> same_query m m' \<and> (\<forall>x. Msg r = Some x \<longrightarrow> Q x)"
  using assms by (auto simp: nameserver_exchange_def bindG_eq_Inr_iff zero_Response_def dest!: protocol_loop_frame)

lemma try_frame:
  assumes "try_IPv4 L T cfg ro p m w = Inr (ro', p', m', w') \<or> try_IPv6 L T cfg ro p m w = Inr (ro', p', m', w')"
    and "replies T Q" "\<forall>r x. ro = Some r \<longrightarrow> Msg r = Some x \<longrightarrow> Q x"
  shows "same_query m m' \<and> (\<forall>r x. ro' = Some r \<longrightarrow> Msg r = Some x \<longrightarrow> Q x)"
  using assms(1,3) nameserver_exchange_frame [OF _ assms(2)]
  by (fastforce simp: try_IPv4_def try_IPv6_def bindG_eq_Inr_iff split: prod.split_asm option.split_asm)

lemma wrap_failure_Msg: "wrap_failure m ro = Inr r \<Longrightarrow> \<exists>x. ro = Some x \<and> Msg r = Msg x"
  by (auto simp: wrap_failure_def bindG_eq_Inr_iff split: if_split_asm option.split_asm)

lemma pool_exchange_frame:
  assumes "pool_exchange L T cfg ip6 p m w = Inr (r, p', m', w')" "replies T Q"
  shows "same_query m m' \<and> (\<forall>x. Msg r = Some x \<longrightarrow> Q x)"
proof (cases "\<not> hasIPv4 p \<and> \<not> hasIPv6 p")
  case True
  with assms(1) show ?thesis by (auto simp: pool_exchange_def)
next
  case False
  with assms(1) obtain r1 p1 m1 w1 r2 m2 p2 w2 where
    f: "(if hasIPv6 p \<and> ip6 then try_IPv6 L T cfg None p m w else try_IPv4 L T cfg None p m w) = Inr (r1, p1, m1, w1)"
      "(if unsuccessful r1 then (if hasIPv4 p then try_IPv4 L T cfg r1 p1 m1 w1 else try_IPv6 L T cfg r1 p1 m1 w1)
        else Inr (r1, p1, m1, w1)) = Inr (r2, p2, m2, w2)" "wrap_failure m2 r2 = Inr r" "m' = m2"
    by (auto simp: pool_exchange_def Let_def bindG_eq_Inr_iff)
  have 1: "same_query m m1 \<and> (\<forall>r x. r1 = Some r \<longrightarrow> Msg r = Some x \<longrightarrow> Q x)"
    using f(1) by (intro try_frame [OF _ assms(2)]) (auto split: if_split_asm)
  have 2: "same_query m1 m2 \<and> (\<forall>r x. r2 = Some r \<longrightarrow> Msg r = Some x \<longrightarrow> Q x)"
  proof (cases "unsuccessful r1")
    case True
    with f(2) have "try_IPv4 L T cfg r1 p1 m1 w1 = Inr (r2, p2, m2, w2) \<or> try_IPv6 L T cfg r1 p1 m1 w1 = Inr (r2, p2, m2, w2)"
      by (auto split: if_split_asm)
    from try_frame [OF this assms(2)] 1 show ?thesis by blast
  qed (use f(2) 1 in auto)
  with 1 f(3,4) wrap_failure_Msg [of m2 r2 r] show ?thesis by auto
qed

section \<open>The exchange comes to an end\<close>

lemma protocol_loop_ends: "nofuel (protocol_loop L T cfg ps r n m w)"
  by (induction ps arbitrary: r n m w) (auto simp: Let_def split: prod.split option.split intro!: nofuel_bindG)

lemma nameserver_exchange_ends [nofuel_intros]: "nofuel (nameserver_exchange L T cfg n mo w)"
  by (auto simp: nameserver_exchange_def split: option.split prod.split intro!: nofuel_bindG protocol_loop_ends)

lemma try_ends [nofuel_intros]:
  "nofuel (try_IPv4 L T cfg ro p m w)" "nofuel (try_IPv6 L T cfg ro p m w)"
  by (auto simp: try_IPv4_def try_IPv6_def split: option.split prod.split intro!: nofuel_intros)

lemma wrap_failure_ends [nofuel_intros]: "nofuel (wrap_failure m ro)"
  by (auto simp: wrap_failure_def split: option.split intro!: nofuel_intros)

lemma pool_exchange_ends [nofuel_intros]: "nofuel (pool_exchange L T cfg ip6 p m w)"
  by (auto simp: pool_exchange_def Let_def split: prod.split intro!: nofuel_intros)

end
