(* ===== verification/Session.thy ===== *)
theory Session
  imports Clients Resolver_Functions
begin

text \<open>
  ctx.go, trace.go and ipv6.go: what a query carries along, and the check for IPv6.

  The values that the resolver puts in a \<^verbatim>\<open>context.Context\<close> under the keys of ctx.go are
  the fields of the record \<open>ctx\<close>, absent ones \<open>None\<close>. The query counter and the trace
  are shared through pointers, so a function that is given a context returns it with their
  new contents. The clock, the generator of identifiers and the IPv6 check are reached
  through the state \<open>'w\<close> by the record \<open>runtime\<close>.
\<close>

section \<open>trace.go\<close>

record Trace =
  Id :: string
  Start :: gotime
  Iterations :: u32

record 'w runtime =
  rt_now :: "'w \<Rightarrow> gotime"
  rt_uuid :: "'w \<Rightarrow> string \<times> 'w"
  rt_ip6 :: "'w \<Rightarrow> bool \<times> 'w"

definition newTraceWithStart :: "'w runtime \<Rightarrow> gotime \<Rightarrow> 'w \<Rightarrow> Trace \<times> 'w" where
  "newTraceWithStart R start w =
     (let (i, w) = rt_uuid R w in (\<lparr>Id = i, Start = start, Iterations = 0\<rparr>, w))"

definition NewTrace :: "'w runtime \<Rightarrow> 'w \<Rightarrow> Trace \<times> 'w" where
  "NewTrace R w = newTraceWithStart R (rt_now R w) w"

definition ID :: "Trace \<Rightarrow> string" where
  "ID t = Id t"

definition ShortID :: "Trace \<Rightarrow> string go" where
  "ShortID t = (if 29 \<le> length (ID t) then Inr (drop 29 (ID t)) else Inl IndexOutOfRange)"

definition Iteration :: "Trace \<Rightarrow> u32" where
  "Iteration t = Iterations t"

section \<open>ctx.go\<close>

record ctx =
  CtxTrace :: "Trace option"
  ctxSessionQueries :: "u32 option"
  ctxZoneName :: "string option"
  ctxStartTime :: "gotime option"

definition Background :: ctx where
  "Background = \<lparr>CtxTrace = None, ctxSessionQueries = None, ctxZoneName = None, ctxStartTime = None\<rparr>"

text \<open>
  The interface \<open>exchanger\<close> of response.go, as the resolver passes it to \<open>cname\<close> and
  \<open>createZone\<close>.
\<close>

type_synonym 'w exchanger = "ctx \<Rightarrow> msg \<Rightarrow> 'w \<Rightarrow> (Response option \<times> ctx \<times> 'w) go"

section \<open>ipv6.go\<close>

record ipv6_state =
  ipv6Check :: bool
  ipv6Answered :: bool
  ipv6Available :: bool

text \<open>
  \<open>IPv6Available\<close> answers from the two flags and otherwise starts the check, once;
  the third component says whether it did.
\<close>

definition IPv6Available :: "ipv6_state \<Rightarrow> bool \<times> ipv6_state \<times> bool" where
  "IPv6Available s =
     (if ipv6Answered s then (ipv6Available s, s, False)
      else if ipv6Available s then (True, s, False)
      else (False, s\<lparr>ipv6Check := True\<rparr>, \<not> ipv6Check s))"

definition ipv6_addresses :: "string list" where
  "ipv6_addresses = [''2001:7fd::1'', ''2001:500:a8::e'', ''2001:503:ba3e::2:30'']"

fun availability_loop :: "'w transport \<Rightarrow> msg \<Rightarrow> string list \<Rightarrow> ipv6_state \<Rightarrow> 'w \<Rightarrow> ipv6_state \<times> 'w" where
  "availability_loop T m [] s w = (s, w)"
| "availability_loop T m (address # addresses) s w =
     (let client = \<lparr>cl_Port = [], cl_Net = [], cl_Timeout = 500 * Millisecond, cl_TLSConfig = None\<rparr>;
          ((_, _, err), w) = t_classic T client m (''['' @ address @ '']:53'') w;
          s = s\<lparr>ipv6Available := (err = None)\<rparr>
      in if err = None then (s, w) else availability_loop T m addresses s w)"

definition UpdateIPv6Availability :: "dnslib \<Rightarrow> 'w transport \<Rightarrow> ipv6_state \<Rightarrow> 'w \<Rightarrow> ipv6_state \<times> 'w" where
  "UpdateIPv6Availability L T s w =
     (let m = SetQuestion L new_Msg ''.'' TypeNS;
          (s, w) = availability_loop T m ipv6_addresses s w
      in (s\<lparr>ipv6Answered := True\<rparr>, w))"

section \<open>Lemmas\<close>

lemma availability_loop_frame:
  "availability_loop T m as s w = (s', w') \<Longrightarrow> ipv6Check s' = ipv6Check s \<and> ipv6Answered s' = ipv6Answered s"
  by (induction as arbitrary: s w) (auto simp: Let_def split: prod.splits if_split_asm)

text \<open>The check runs at most once, and its outcome is what later calls answer.\<close>

lemma IPv6_check_once:
  "IPv6Available s = (b, s', started) \<Longrightarrow> started \<Longrightarrow> \<not> ipv6Check s \<and> ipv6Check s'"
  by (auto simp: IPv6Available_def split: if_split_asm)

lemma IPv6_after_check:
  assumes "UpdateIPv6Availability L T s w = (s', w')"
  shows "IPv6Available s' = (ipv6Available s', s', False)" and "ipv6Check s' = ipv6Check s"
  using assms by (auto simp: IPv6Available_def UpdateIPv6Availability_def Let_def dest: availability_loop_frame split: prod.split_asm)

end
