(* ===== verification/Zone_Factory.thy ===== *)
theory Zone_Factory
  imports Zones Pool Session
begin

text \<open>
  zone_factory.go: making a zone from a delegation and filling its pool. \<open>zone_env\<close>
  extends the interface of a zone with the constructor of \<^verbatim>\<open>zoneImpl\<close>.

  The source runs the enrichment in a goroutine and waits for its first good answer or for
  three seconds. Here the goroutine runs until it signals \<open>done\<close>; then the waiting side
  checks the pool; then the goroutine handles the rest. When the signal comes too late nobody
  receives it: the channel has no buffer, so the goroutine stays blocked on it and handles
  nothing more. The enrichment that \<open>createZone\<close> starts in the background runs at the
  point where it is started.
\<close>

section \<open>zone_factory.go\<close>

record ('z, 'w) zone_env = "('z, 'w) zone_methods" +
  zm_new :: "string \<Rightarrow> string \<Rightarrow> nameserverPool \<Rightarrow> 'w \<Rightarrow> 'z \<times> 'w"

definition usable_answer :: "Response option \<Rightarrow> rr list option" where
  "usable_answer r =
     (if HasError r \<or> IsEmpty r then None
      else case r of
             Some x \<Rightarrow> (case Msg x of Some m \<Rightarrow> (if length (Answer m) > 0 then Some (Answer m) else None) | None \<Rightarrow> None)
           | None \<Rightarrow> None)"

text \<open>The goroutine up to its signal; the remaining queries are returned with \<open>Some\<close>.\<close>

fun enrich_until_done ::
  "dnslib \<Rightarrow> resolver_vars \<Rightarrow> 'w runtime \<Rightarrow> 'w exchanger \<Rightarrow> (u16 \<times> string) list \<Rightarrow> nameserverPool \<Rightarrow> ctx \<Rightarrow> 'w \<Rightarrow>
     ((u16 \<times> string) list option \<times> nameserverPool \<times> ctx \<times> 'w) go" where
  "enrich_until_done L vars R ex [] pool cx w = Inr (None, pool, cx, w)"
| "enrich_until_done L vars R ex ((t, h) # qs) pool cx w =
     bindG (ex cx (SetQuestion L new_Msg (Fqdn L h) t) w) (\<lambda>(r, cx, w).
       case usable_answer r of
         None \<Rightarrow> enrich_until_done L vars R ex qs pool cx w
       | Some answer \<Rightarrow> Inr (Some qs, enrich L vars (rt_now R w) answer pool, cx, w))"

fun enrich_rest ::
  "dnslib \<Rightarrow> resolver_vars \<Rightarrow> 'w runtime \<Rightarrow> 'w exchanger \<Rightarrow> (u16 \<times> string) list \<Rightarrow> nameserverPool \<Rightarrow> ctx \<Rightarrow> 'w \<Rightarrow>
     (nameserverPool \<times> ctx \<times> 'w) go" where
  "enrich_rest L vars R ex [] pool cx w = Inr (pool, cx, w)"
| "enrich_rest L vars R ex ((t, h) # qs) pool cx w =
     bindG (ex cx (SetQuestion L new_Msg (Fqdn L h) t) w) (\<lambda>(r, cx, w).
       case usable_answer r of
         None \<Rightarrow> enrich_rest L vars R ex qs pool cx w
       | Some answer \<Rightarrow> enrich_rest L vars R ex qs (enrich L vars (rt_now R w) answer pool) cx w)"

definition enrichment_queries :: "resolver_vars \<Rightarrow> bool \<Rightarrow> string list \<Rightarrow> (u16 \<times> string) list" where
  "enrichment_queries vars ip6 hosts =
     (let hosts = (if length hosts > DesireNumberOfNameserversPerZone vars
                   then take (DesireNumberOfNameserversPerZone vars) hosts else hosts);
          types = (if ip6 then [TypeA, TypeAAAA] else [TypeA])
      in List.product types hosts)"

definition enrichPool ::
  "dnslib \<Rightarrow> resolver_vars \<Rightarrow> 'w runtime \<Rightarrow> 'w exchanger \<Rightarrow> nameserverPool \<Rightarrow> ctx \<Rightarrow> 'w \<Rightarrow>
     (goerr option \<times> nameserverPool \<times> ctx \<times> 'w) go" where
  "enrichPool L vars R ex pool cx w =
     (if length (hostsWithoutAddresses pool) = 0 then Inr (Some (Wrap [RErr ErrFailedEnrichingPool]), pool, cx, w)
      else
        let (ip6, w) = rt_ip6 R w;
            start = rt_now R w
        in bindG (enrich_until_done L vars R ex (enrichment_queries vars ip6 (hostsWithoutAddresses pool)) pool cx w)
             (\<lambda>(done, pool, cx, w).
               case done of
                 None \<Rightarrow> Inr (Some (Wrap [RErr ErrFailedEnrichingPool]), pool, cx, w)
               | Some qs \<Rightarrow>
                   if rt_now R w - start > 3 * Second then
                     Inr (Some (Wrap [RErr ErrFailedEnrichingPool]), pool, cx, w)
                   else
                     let (ip6, w) = rt_ip6 R w;
                         err = (if status vars ip6 pool = PoolPrimed \<or> status vars ip6 pool = PrimedButNeedsEnhancing
                                then None else Some (Wrap [RErr ErrFailedEnrichingPool]))
                     in bindG (enrich_rest L vars R ex qs pool cx w) (\<lambda>(pool, cx, w). Inr (err, pool, cx, w))))"

definition finish_zone ::
  "('z, 'w) zone_env \<Rightarrow> string \<Rightarrow> string \<Rightarrow> nameserverPool \<Rightarrow> ctx \<Rightarrow> 'w \<Rightarrow>
     (('z option \<times> goerr option) \<times> ctx \<times> 'w) go" where
  "finish_zone E name parent pool cx w =
     (let (z, w) = zm_new E name parent pool w in Inr ((Some z, None), cx, w))"

definition createZone ::
  "dnslib \<Rightarrow> resolver_vars \<Rightarrow> 'w runtime \<Rightarrow> ('z, 'w) zone_env \<Rightarrow> 'w exchanger \<Rightarrow> string \<Rightarrow> string \<Rightarrow>
     (rr_hdr \<times> string) list \<Rightarrow> rr list \<Rightarrow> ctx \<Rightarrow> 'w \<Rightarrow> (('z option \<times> goerr option) \<times> ctx \<times> 'w) go" where
  "createZone L vars R E ex name parent nameservers extra cx w =
     (let name = CanonicalName L name;
          parent = CanonicalName L parent
      in if name = parent \<or> \<not> IsSubDomain L parent name then
           Inr ((None, Some (Wrap [RErr ErrFailedCreatingZoneAndPool])), cx, w)
         else
           let pool = newNameserverPool L vars (rt_now R w) nameservers extra;
               (ip6, w) = rt_ip6 R w
           in case status vars ip6 pool of
                PrimedButNeedsEnhancing \<Rightarrow>
                  if \<not> LazyEnrichment vars then
                    bindG (enrichPool L vars R ex pool cx w) (\<lambda>(_, pool, cx, w). finish_zone E name parent pool cx w)
                  else finish_zone E name parent pool cx w
              | PoolPrimed \<Rightarrow> finish_zone E name parent pool cx w
              | PoolHasHostnamesButNoIpAddresses \<Rightarrow>
                  bindG (enrichPool L vars R ex pool cx w) (\<lambda>(err, pool, cx, w).
                    if err \<noteq> None then Inr ((None, err), cx, w) else finish_zone E name parent pool cx w)
              | _ \<Rightarrow> Inr ((None, Some (Wrap [RErr ErrFailedCreatingZoneAndPool])), cx, w))"

section \<open>Lemmas\<close>

lemma enrichment_queries_bound:
  "length (enrichment_queries vars ip6 hosts) \<le> 2 * DesireNumberOfNameserversPerZone vars"
  by (simp add: enrichment_queries_def Let_def length_product)

lemma finish_zone_Inr:
  "finish_zone E name parent pool cx w = Inr ((zo, e), cx', w') \<longleftrightarrow>
     (\<exists>z. zm_new E name parent pool w = (z, w') \<and> zo = Some z \<and> e = None \<and> cx' = cx)"
  by (auto simp: finish_zone_def split: prod.split)

lemma finish_zone_returns: "finish_zone E name parent pool cx w \<noteq> Inl p"
  by (simp add: finish_zone_def split: prod.split)

text \<open>A zone that is made lies strictly below its parent, under canonical names.\<close>

lemma createZone_cases:
  assumes "createZone L vars R E ex name parent nss extra cx w = Inr ((zo, e), cx', w')"
  shows "zo = None \<and> e \<noteq> None \<or>
     (\<exists>z pool w1. zo = Some z \<and> e = None \<and> zm_new E (CanonicalName L name) (CanonicalName L parent) pool w1 = (z, w') \<and>
        CanonicalName L name \<noteq> CanonicalName L parent \<and> IsSubDomain L (CanonicalName L parent) (CanonicalName L name))"
proof -
  obtain ip6 w1 where ip6: "rt_ip6 R w = (ip6, w1)" by (cases "rt_ip6 R w")
  show ?thesis
    using assms unfolding createZone_def Let_def ip6 prod.case
    by (auto simp: bindG_eq_Inr_iff finish_zone_Inr split: NameserverPoolStatus.split_asm if_split_asm)
qed

lemma createZone_rejects:
  "CanonicalName L name = CanonicalName L parent \<or> \<not> IsSubDomain L (CanonicalName L parent) (CanonicalName L name) \<Longrightarrow>
     createZone L vars R E ex name parent nss extra cx w = Inr ((None, Some (Wrap [RErr ErrFailedCreatingZoneAndPool])), cx, w)"
  by (auto simp: createZone_def Let_def)

section \<open>The interface that the resolver relies on\<close>

text \<open>
  What the resolver relies on of a zone implementation: names are canonical and never change,
  a clone is refused unless its name lies strictly below that of its parent, and every
  method comes to an end.
\<close>

locale zone_provider =
  fixes L :: dnslib and E :: "('z, 'w) zone_env"
  assumes new_names: "zm_new E n p pool w = (z, w') \<Longrightarrow> zm_name E z = n \<and> zm_parent E z = p"
    and clone_names: "zm_clone E z n p w = Inr (z', w') \<Longrightarrow>
      zm_name E z' = canonicalName L n \<and> zm_parent E z' = canonicalName L p"
    and clone_returns: "returns (zm_clone E z n p w) \<longleftrightarrow> canonicalName L n \<noteq> canonicalName L p \<and> IsSubDomain L p n"
    and clone_panic: "\<not> returns (zm_clone E z n p w) \<Longrightarrow> zm_clone E z n p w = Inl (Panic ''invalid clone'')"
    and exchange_ends: "nofuel (zm_exchange E z m w)"
    and soa_ends: "nofuel (zm_soa E z n w)"
    and dnskeys_ends: "nofuel (zm_dnskeys E z w)"
    and exchange_query: "zm_exchange E z m w = Inr (r, m', w') \<Longrightarrow> same_query m m'"
begin

lemma clone_ends: "nofuel (zm_clone E z n p w)"
  using clone_panic [of z n p w] by (cases "zm_clone E z n p w") auto

lemma createZone_names:
  assumes "createZone L vars R E ex name parent nss extra cx w = Inr ((Some z, e), cx', w')"
  shows "zm_name E z = CanonicalName L name \<and> zm_parent E z = CanonicalName L parent \<and>
     zm_name E z \<noteq> zm_parent E z \<and> IsSubDomain L (zm_parent E z) (zm_name E z)"
  using createZone_cases [OF assms] by (auto dest: new_names)

end

end
