(* ===== verification/Auth.thy ===== *)
theory Auth
  imports Dnssec_Authenticator Zone_Factory
begin

text \<open>
  auth.go: the resolver's authenticator, which feeds responses to the \<open>Authenticator\<close> of the
  dnssec package through a queue that one goroutine serves.

  The first part models the operations as the resolver sees them, on the schedule in which
  each goroutine runs to its end where it is started: an input is handed to
  \<open>AddResponse\<close> when it is put into the queue, and the keys of its zone are fetched then.

  The second part models the concurrency itself: a step relation over the channel of
  capacity 8, the wait group, the \<open>finished\<close> flag, the goroutines that look for DS
  records, the worker and the calling goroutine, with a panic state for a send on a closed
  channel and for a negative wait group. Its lemmas show that no schedule panics, that none
  deadlocks, and that \<open>result\<close> continues only after every accepted input was processed.
\<close>

section \<open>auth.go\<close>

record authenticator =
  au_auth :: Authenticator
  au_errors :: "goerr list"
  au_finished :: bool

definition newAuthenticator :: "dnslib \<Rightarrow> dnssec_cfg \<Rightarrow> (nat \<Rightarrow> nat \<Rightarrow> sigclock) \<Rightarrow> question \<Rightarrow> authenticator" where
  "newAuthenticator L dcfg clk q = \<lparr>au_auth = NewAuth L dcfg clk q, au_errors = [], au_finished = False\<rparr>"

text \<open>\<open>authZoneWrapper\<close>: a zone of the resolver as a zone of the dnssec package.\<close>

definition authZone :: "('z, 'w) zone_env \<Rightarrow> 'z \<Rightarrow> 'w \<Rightarrow> (Zone \<times> 'w) go" where
  "authZone E z w =
     bindG (zm_dnskeys E z w) (\<lambda>((keys, err), w).
       Inr (\<lparr>zName = zm_name E z, GetDNSKEYRecords = (case err of Some e \<Rightarrow> Inl e | None \<Rightarrow> Inr keys)\<rparr>, w))"

text \<open>One iteration of the worker \<open>start\<close>.\<close>

definition worker ::
  "dnslib \<Rightarrow> dnssec_cfg \<Rightarrow> ('z, 'w) zone_env \<Rightarrow> 'z \<Rightarrow> msg \<Rightarrow> authenticator \<Rightarrow> 'w \<Rightarrow> (authenticator \<times> 'w) go" where
  "worker L dcfg E z m a w =
     bindG (authZone E z w) (\<lambda>(zone, w).
     bindG (AddResponse L dcfg (au_auth a) zone m) (\<lambda>(err, d).
       Inr (a\<lparr>au_auth := d, au_errors := au_errors a @ (case err of Some e \<Rightarrow> [e] | None \<Rightarrow> [])\<rparr>, w)))"

definition ds_query :: "dnslib \<Rightarrow> u16 \<Rightarrow> string \<Rightarrow> msg" where
  "ds_query L udpsz qname =
     (let m = SetQuestion L new_Msg (Fqdn L qname) TypeDS;
          m = SetEdns0 L m udpsz True
      in m\<lparr>RecursionDesired := False\<rparr>)"

definition addDelegationSignerLink ::
  "dnslib \<Rightarrow> dnssec_cfg \<Rightarrow> ('z, 'w) zone_env \<Rightarrow> u16 \<Rightarrow> 'z \<Rightarrow> string \<Rightarrow> authenticator \<Rightarrow> 'w \<Rightarrow>
     (authenticator \<times> 'w) go" where
  "addDelegationSignerLink L dcfg E udpsz z qname a w =
     (if au_finished a then Inr (a, w)
      else
        bindG (zm_dnskeys E z w) (\<lambda>(_, w).
        bindG (zm_exchange E z (ds_query L udpsz qname) w) (\<lambda>(response, _, w).
          case response of
            None \<Rightarrow> Inr (a, w)
          | Some r \<Rightarrow>
              (case Msg r of
                 None \<Rightarrow> Inr (a, w)
               | Some m \<Rightarrow> (if Err r = None then worker L dcfg E z m a w else Inr (a, w))))))"

definition addResponse ::
  "dnslib \<Rightarrow> dnssec_cfg \<Rightarrow> ('z, 'w) zone_env \<Rightarrow> 'z \<Rightarrow> msg \<Rightarrow> authenticator \<Rightarrow> 'w \<Rightarrow> (authenticator \<times> 'w) go" where
  "addResponse L dcfg E z m a w = (if au_finished a then Inr (a, w) else worker L dcfg E z m a w)"

text \<open>
  Several errors are combined into one that is then dropped: the source goes on to
  \<open>Result\<close> of the dnssec package.
\<close>

definition auth_result :: "dnslib \<Rightarrow> dnssec_cfg \<Rightarrow> authenticator \<Rightarrow> (conclusion \<times> authenticator) go" where
  "auth_result L dcfg a =
     (let a = a\<lparr>au_finished := True\<rparr> in
      case au_errors a of
        [e] \<Rightarrow> Inr ((Unknown, NotFound, Some e), a)
      | _ \<Rightarrow> bindG (Result L dcfg (au_auth a)) (\<lambda>(c, d). Inr (c, a\<lparr>au_auth := d\<rparr>)))"

definition resultTTLAnswer :: "dnssec_cfg \<Rightarrow> authenticator \<Rightarrow> u16 \<Rightarrow> u32 \<times> bool" where
  "resultTTLAnswer dcfg a t = ResultTTLAnswer dcfg (au_auth a) t"

definition resultTTLAuthority :: "dnssec_cfg \<Rightarrow> authenticator \<Rightarrow> u16 \<Rightarrow> u32 \<times> bool" where
  "resultTTLAuthority dcfg a t = ResultTTLAuthority dcfg (au_auth a) t"

section \<open>The goroutines of auth.go\<close>

text \<open>
  A link goroutine is waiting for the answer of the zone, or has an input to send, or has
  only its deferred \<open>Done\<close> left.
\<close>

datatype 'i link = Asking | Sending 'i | Leaving

datatype 'i caller = Idle | Adding 'i | Waiting | Closed

datatype 'i server = Ready | Busy 'i | Exited

record 'i conc =
  queue :: "'i list"
  closed :: bool
  finished :: bool
  processing :: int
  links :: "'i link list"
  caller :: "'i caller"
  server :: "'i server"
  accepted :: "'i list"
  processed :: "'i list"
  panicked :: bool

abbreviation (input) queue_capacity :: nat where "queue_capacity \<equiv> 8"

definition conc_init :: "'i conc" where
  "conc_init = \<lparr>queue = [], closed = False, finished = False, processing = 0, links = [], caller = Idle,
     server = Ready, accepted = [], processed = [], panicked = False\<rparr>"

text \<open>\<^verbatim>\<open>WaitGroup.Done\<close>: a negative counter is a panic.\<close>

definition wg_Done :: "'i conc \<Rightarrow> 'i conc" where
  "wg_Done s = s\<lparr>processing := processing s - 1, panicked := panicked s \<or> processing s - 1 < 0\<rparr>"

text \<open>\<^verbatim>\<open>a.queue <- i\<close>, when it does not block: a panic if the channel is closed.\<close>

definition send :: "'i \<Rightarrow> 'i conc \<Rightarrow> 'i conc" where
  "send i s = (if closed s then s\<lparr>panicked := True\<rparr> else s\<lparr>queue := queue s @ [i]\<rparr>)"

definition can_send :: "'i conc \<Rightarrow> bool" where
  "can_send s \<longleftrightarrow> closed s \<or> length (queue s) < queue_capacity"

inductive step :: "'i conc \<Rightarrow> 'i conc \<Rightarrow> bool" where
  link_start: "caller s = Idle \<Longrightarrow> \<not> finished s \<Longrightarrow>
     step s (s\<lparr>processing := processing s + 1, links := links s @ [Asking]\<rparr>)"
| link_no_answer: "k < length (links s) \<Longrightarrow> links s ! k = Asking \<Longrightarrow> step s (s\<lparr>links := (links s)[k := Leaving]\<rparr>)"
| link_answer: "k < length (links s) \<Longrightarrow> links s ! k = Asking \<Longrightarrow>
     step s (s\<lparr>processing := processing s + 1, links := (links s)[k := Sending i], accepted := accepted s @ [i]\<rparr>)"
| link_send: "k < length (links s) \<Longrightarrow> links s ! k = Sending i \<Longrightarrow> can_send s \<Longrightarrow>
     step s (send i (s\<lparr>links := (links s)[k := Leaving]\<rparr>))"
| link_done: "k < length (links s) \<Longrightarrow> links s ! k = Leaving \<Longrightarrow>
     step s (wg_Done (s\<lparr>links := take k (links s) @ drop (Suc k) (links s)\<rparr>))"
| add_start: "caller s = Idle \<Longrightarrow> \<not> finished s \<Longrightarrow>
     step s (s\<lparr>processing := processing s + 1, caller := Adding i, accepted := accepted s @ [i]\<rparr>)"
| add_send: "caller s = Adding i \<Longrightarrow> can_send s \<Longrightarrow> step s (send i (s\<lparr>caller := Idle\<rparr>))"
| take_input: "server s = Ready \<Longrightarrow> queue s = i # q \<Longrightarrow> step s (s\<lparr>queue := q, server := Busy i\<rparr>)"
| input_done: "server s = Busy i \<Longrightarrow> step s (wg_Done (s\<lparr>server := Ready, processed := processed s @ [i]\<rparr>))"
| server_exit: "server s = Ready \<Longrightarrow> queue s = [] \<Longrightarrow> closed s \<Longrightarrow> step s (s\<lparr>server := Exited\<rparr>)"
| finish: "caller s = Idle \<Longrightarrow> step s (s\<lparr>finished := True, caller := Waiting\<rparr>)"
| close: "caller s = Waiting \<Longrightarrow> processing s = 0 \<Longrightarrow> step s (s\<lparr>closed := True, caller := Closed\<rparr>)"

inductive reachable :: "'i conc \<Rightarrow> bool" where
  init: "reachable conc_init"
| next_state: "reachable s \<Longrightarrow> step s t \<Longrightarrow> reachable t"

inductive_cases conc_step_cases [consumes 1]: "step s t"

text \<open>
  The invariant. Each goroutine and each input on its way holds units of the wait group, and
  every accepted input is somewhere on its way or processed.
\<close>

fun link_units :: "'i link \<Rightarrow> int" where
  "link_units Asking = 1" | "link_units (Sending i) = 2" | "link_units Leaving = 1"

fun link_items :: "'i link \<Rightarrow> 'i list" where
  "link_items (Sending i) = [i]" | "link_items _ = []"

fun caller_items :: "'i caller \<Rightarrow> 'i list" where
  "caller_items (Adding i) = [i]" | "caller_items _ = []"

fun server_items :: "'i server \<Rightarrow> 'i list" where
  "server_items (Busy i) = [i]" | "server_items _ = []"

definition units :: "'i conc \<Rightarrow> int" where
  "units s = sum_list (map link_units (links s)) + int (length (queue s)) +
     int (length (caller_items (caller s))) + int (length (server_items (server s)))"

definition under_way :: "'i conc \<Rightarrow> 'i multiset" where
  "under_way s = mset (concat (map link_items (links s))) + mset (queue s) +
     mset (caller_items (caller s)) + mset (server_items (server s))"

definition conc_inv :: "'i conc \<Rightarrow> bool" where
  "conc_inv s \<longleftrightarrow> processing s = units s \<and> mset (accepted s) = mset (processed s) + under_way s \<and>
     (finished s \<longleftrightarrow> caller s = Waiting \<or> caller s = Closed) \<and> (closed s \<longleftrightarrow> caller s = Closed) \<and>
     (closed s \<longrightarrow> processing s = 0) \<and> (server s = Exited \<longrightarrow> closed s) \<and>
     length (queue s) \<le> queue_capacity \<and> \<not> panicked s"

text \<open>After \<open>finished\<close> is set, each step uses up some of what is left to do.\<close>

fun link_work :: "'i link \<Rightarrow> nat" where
  "link_work Asking = 5" | "link_work (Sending i) = 4" | "link_work Leaving = 1"

definition work_left :: "'i conc \<Rightarrow> nat" where
  "work_left s = sum_list (map link_work (links s)) + 2 * length (queue s) +
     (case server s of Ready \<Rightarrow> 1 | Busy _ \<Rightarrow> 2 | Exited \<Rightarrow> 0) + (case caller s of Closed \<Rightarrow> 0 | _ \<Rightarrow> 1)"

lemma link_units_ge: "1 \<le> link_units l"
  by (cases l) simp_all

lemma sum_units_ge: "int (length ls) \<le> sum_list (map link_units ls)"
proof (induction ls)
  case (Cons l ls)
  with link_units_ge [of l] show ?case by simp
qed simp

text \<open>Once no unit is left, nothing is under way.\<close>

lemma no_units:
  assumes "units s = 0"
  shows "links s = []" "queue s = []" "caller_items (caller s) = []" "server_items (server s) = []"
proof -
  have "int (length (links s)) + int (length (queue s)) + int (length (caller_items (caller s))) +
      int (length (server_items (server s))) \<le> 0"
    using assms sum_units_ge [of "links s"] by (simp add: units_def)
  then have "length (links s) = 0 \<and> length (queue s) = 0 \<and> length (caller_items (caller s)) = 0 \<and>
      length (server_items (server s)) = 0" by linarith
  then show "links s = []" "queue s = []" "caller_items (caller s) = []" "server_items (server s) = []" by simp_all
qed

lemma link_split:
  assumes "k < length ls"
  obtains xs l ys where "ls = xs @ l # ys" "ls ! k = l" "take k ls @ drop (Suc k) ls = xs @ ys"
    "\<And>l'. ls[k := l'] = xs @ l' # ys"
  using assms that [OF id_take_nth_drop] upd_conv_take_nth_drop [OF assms] by blast

lemma not_closed:
  assumes "conc_inv s" "0 < units s"
  shows "\<not> closed s"
  using assms by (auto simp: conc_inv_def)

lemma units_nonneg: "0 \<le> units s"
  using sum_units_ge [of "links s"] by (simp add: units_def)

lemma link_unit_positive:
  assumes "k < length (links s)"
  shows "0 < units s"
  using assms sum_units_ge [of "links s"] by (simp add: units_def)

lemma step_inv_link:
  assumes inv: "conc_inv s" and k: "k < length (links s)"
  shows "links s ! k = Asking \<Longrightarrow> conc_inv (s\<lparr>links := (links s)[k := Leaving]\<rparr>)"
    and "links s ! k = Asking \<Longrightarrow>
      conc_inv (s\<lparr>processing := processing s + 1, links := (links s)[k := Sending i], accepted := accepted s @ [i]\<rparr>)"
    and "links s ! k = Sending i \<Longrightarrow> can_send s \<Longrightarrow> conc_inv (send i (s\<lparr>links := (links s)[k := Leaving]\<rparr>))"
    and "links s ! k = Leaving \<Longrightarrow> conc_inv (wg_Done (s\<lparr>links := take k (links s) @ drop (Suc k) (links s)\<rparr>))"
proof -
  obtain xs l ys where l: "links s = xs @ l # ys" "links s ! k = l"
    "take k (links s) @ drop (Suc k) (links s) = xs @ ys" "\<And>l. (links s)[k := l] = xs @ l # ys"
    using link_split [OF k] by blast
  have opn: "\<not> closed s" "caller s \<noteq> Closed"
    using not_closed [OF inv link_unit_positive [OF k]] inv by (auto simp: conc_inv_def)
  let ?rest = "sum_list (map link_units xs) + sum_list (map link_units ys) + int (length (queue s)) +
     int (length (caller_items (caller s))) + int (length (server_items (server s)))"
  let ?items = "mset (concat (map link_items xs)) + mset (concat (map link_items ys)) + mset (queue s) +
     mset (caller_items (caller s)) + mset (server_items (server s))"
  have u: "units s = link_units (links s ! k) + ?rest" "under_way s = mset (link_items (links s ! k)) + ?items"
    unfolding l(2) by (simp_all add: units_def under_way_def l(1))
  show "conc_inv (s\<lparr>links := (links s)[k := Leaving]\<rparr>)" if "links s ! k = Asking"
    using inv u opn that by (simp add: conc_inv_def units_def under_way_def l(4))
  show "conc_inv (s\<lparr>processing := processing s + 1, links := (links s)[k := Sending i], accepted := accepted s @ [i]\<rparr>)"
    if "links s ! k = Asking"
    using inv u opn that by (simp add: conc_inv_def units_def under_way_def l(4))
  show "conc_inv (send i (s\<lparr>links := (links s)[k := Leaving]\<rparr>))" if "links s ! k = Sending i" "can_send s"
    using inv u opn that by (simp add: conc_inv_def units_def under_way_def l(4) send_def can_send_def)
  show "conc_inv (wg_Done (s\<lparr>links := take k (links s) @ drop (Suc k) (links s)\<rparr>))" if "links s ! k = Leaving"
    using inv u opn that sum_units_ge [of xs] sum_units_ge [of ys]
    by (simp add: conc_inv_def units_def under_way_def l(3) wg_Done_def)
qed

lemma step_inv: "step s t \<Longrightarrow> conc_inv s \<Longrightarrow> conc_inv t"
proof (induction rule: step.induct)
  case (add_send s i)
  then have "\<not> closed s" by (auto simp: conc_inv_def)
  with add_send show ?case
    by (simp add: conc_inv_def units_def under_way_def send_def can_send_def)
next
  case (take_input s i q)
  then have "0 < units s" using sum_units_ge [of "links s"] by (simp add: units_def)
  with take_input have "\<not> closed s" using not_closed by blast
  with take_input show ?case by (auto simp: conc_inv_def units_def under_way_def)
next
  case (input_done s i)
  then have "0 < units s" using sum_units_ge [of "links s"] by (simp add: units_def)
  with input_done not_closed [OF input_done(2)] show ?case
    by (auto simp: conc_inv_def units_def under_way_def wg_Done_def)
next
  case (server_exit s)
  then show ?case unfolding conc_inv_def units_def under_way_def by clarsimp
next
  case (close s)
  then show ?case by (simp add: conc_inv_def units_def under_way_def)
next
  case (finish s)
  then show ?case unfolding conc_inv_def units_def under_way_def by clarsimp
next
  case (link_start s)
  then show ?case unfolding conc_inv_def units_def under_way_def by clarsimp
next
  case (add_start s i)
  then show ?case unfolding conc_inv_def units_def under_way_def by clarsimp
qed (rule step_inv_link; assumption)+

lemma reachable_inv: "reachable s \<Longrightarrow> conc_inv s"
proof (induction rule: reachable.induct)
  case init
  then show ?case by (simp add: conc_init_def conc_inv_def units_def under_way_def)
qed (rule step_inv)

lemma reachable_steps: "step\<^sup>*\<^sup>* s t \<Longrightarrow> reachable s \<Longrightarrow> reachable t"
  by (induction rule: rtranclp_induct) (auto intro: reachable.intros)

text \<open>When the channel has been closed, every accepted input has been processed.\<close>

lemma closed_processed:
  assumes "conc_inv s" "closed s"
  shows "mset (processed s) = mset (accepted s)"
proof -
  have "units s = 0" using assms by (simp add: conc_inv_def)
  from no_units [OF this] have "under_way s = {#}" by (simp add: under_way_def)
  then show ?thesis using assms(1) by (simp add: conc_inv_def)
qed

section \<open>Deadlock and termination\<close>

text \<open>Only the state in which the caller has closed the queue and the worker has left is final.\<close>

lemma progress:
  assumes inv: "conc_inv s" and final: "\<not> (caller s = Closed \<and> server s = Exited)"
  shows "\<exists>t. step s t"
proof (cases "server s")
  case (Busy i)
  show ?thesis by (rule exI, rule step.input_done [OF Busy])
next
  case Exited
  then show ?thesis using inv final by (auto simp: conc_inv_def)
next
  case ready: Ready
  show ?thesis
  proof (cases "queue s")
    case (Cons i q)
    show ?thesis by (rule exI, rule step.take_input [OF ready Cons])
  next
    case empty: Nil
    then have room: "can_send s" by (simp add: can_send_def)
    show ?thesis
    proof (cases "links s")
      case (Cons l ls)
      then have k: "0 < length (links s)" "links s ! 0 = l" by simp_all
      then show ?thesis
        using step.link_no_answer [OF k(1)] step.link_send [OF k(1) _ room] step.link_done [OF k(1)] by (cases l) auto
    next
      case Nil
      show ?thesis
      proof (cases "caller s")
        case Idle
        show ?thesis by (rule exI, rule step.finish [OF Idle])
      next
        case (Adding i)
        show ?thesis by (rule exI, rule step.add_send [OF Adding room])
      next
        case Waiting
        then have "processing s = 0" using inv Nil ready empty by (simp add: conc_inv_def units_def)
        with Waiting show ?thesis by (intro exI, rule step.close)
      next
        case Closed
        then have "closed s" using inv by (simp add: conc_inv_def)
        then show ?thesis by (intro exI, rule step.server_exit [OF ready empty])
      qed
    qed
  qed
qed

lemma work_left_links:
  assumes "k < length (links s)"
  shows "link_work l < link_work (links s ! k) \<Longrightarrow> work_left (s\<lparr>links := (links s)[k := l]\<rparr>) < work_left s"
    and "links s ! k = Sending i \<Longrightarrow> work_left (send i (s\<lparr>links := (links s)[k := Leaving]\<rparr>)) < work_left s"
    and "links s ! k = Leaving \<Longrightarrow> work_left (wg_Done (s\<lparr>links := take k (links s) @ drop (Suc k) (links s)\<rparr>)) < work_left s"
proof -
  obtain xs l0 ys where l: "links s = xs @ l0 # ys" "links s ! k = l0"
    "take k (links s) @ drop (Suc k) (links s) = xs @ ys" "\<And>l'. (links s)[k := l'] = xs @ l' # ys"
    using link_split [OF assms] by blast
  have w: "sum_list (map link_work (links s)) = link_work (links s ! k) + sum_list (map link_work xs) + sum_list (map link_work ys)"
    unfolding l(2) by (simp add: l(1))
  show "link_work l < link_work (links s ! k) \<Longrightarrow> work_left (s\<lparr>links := (links s)[k := l]\<rparr>) < work_left s"
    "links s ! k = Sending i \<Longrightarrow> work_left (send i (s\<lparr>links := (links s)[k := Leaving]\<rparr>)) < work_left s"
    "links s ! k = Leaving \<Longrightarrow> work_left (wg_Done (s\<lparr>links := take k (links s) @ drop (Suc k) (links s)\<rparr>)) < work_left s"
    by (simp_all add: work_left_def w l(3,4) send_def wg_Done_def)
qed

lemma work_left_mono: "links s = links t \<Longrightarrow> queue s = queue t \<Longrightarrow> server s = server t \<Longrightarrow> caller s = caller t \<Longrightarrow>
   work_left s = work_left t"
  by (simp add: work_left_def)

lemma step_uses_work:
  assumes "step s t" "caller s = Waiting \<or> caller s = Closed"
  shows "work_left t < work_left s \<and> (caller t = Waiting \<or> caller t = Closed)"
  using assms
proof (induction rule: step.induct)
  case (link_answer k s i)
  have "work_left (s\<lparr>processing := processing s + 1, links := (links s)[k := Sending i], accepted := accepted s @ [i]\<rparr>) =
      work_left (s\<lparr>links := (links s)[k := Sending i]\<rparr>)" by (rule work_left_mono) simp_all
  with link_answer work_left_links(1) [OF link_answer(1), of "Sending i"] show ?case by simp
next
  case (link_no_answer k s)
  with work_left_links(1) [OF link_no_answer(1), of Leaving] show ?case by simp
next
  case (link_send k s i)
  with work_left_links(2) [OF link_send(1,2)] show ?case by (simp add: send_def)
next
  case (link_done k s)
  with work_left_links(3) [OF link_done(1,2)] show ?case by (simp add: wg_Done_def)
qed (auto simp: work_left_def wg_Done_def)

text \<open>Every run that goes on after that is finite, so \<open>result\<close> gets past its wait.\<close>

lemma no_infinite_run:
  assumes "caller s = Waiting \<or> caller s = Closed" "f 0 = s" "\<And>n. step (f n) (f (Suc n))"
  shows False
proof -
  have inv: "caller (f n) = Waiting \<or> caller (f n) = Closed" for n
    by (induction n) (use assms step_uses_work in auto)
  have "work_left (f (Suc n)) < work_left (f n)" for n using step_uses_work [OF assms(3) inv] by simp
  then have "work_left (f n) + n \<le> work_left (f 0)" for n
  proof (induction n)
    case (Suc n)
    have "work_left (f (Suc n)) + Suc n \<le> work_left (f n) + n" using Suc.prems [of n] by simp
    also have "\<dots> \<le> work_left (f 0)" by (rule Suc.IH) (rule Suc.prems)
    finally show ?case .
  qed simp
  from this [of "Suc (work_left (f 0))"] show False by simp
qed

lemma run_ends:
  assumes "conc_inv s" "caller s = Waiting \<or> caller s = Closed"
  shows "\<exists>t. step\<^sup>*\<^sup>* s t \<and> caller t = Closed \<and> server t = Exited"
  using assms
proof (induction "work_left s" arbitrary: s rule: less_induct)
  case less
  show ?case
  proof (cases "caller s = Closed \<and> server s = Exited")
    case False
    then obtain t where t: "step s t" using progress [OF less.prems(1)] by blast
    from less.hyps [of t] step_uses_work [OF t less.prems(2)] step_inv [OF t less.prems(1)]
    obtain u where "step\<^sup>*\<^sup>* t u" "caller u = Closed" "server u = Exited" by blast
    with t show ?thesis by (meson converse_rtranclp_into_rtranclp)
  qed blast
qed

section \<open>The operations\<close>

lemma authZone_name: "authZone E z w = Inr (zone, w') \<Longrightarrow> zName zone = zm_name E z"
  by (auto simp: authZone_def bindG_eq_Inr_iff)

text \<open>A finished authenticator takes no more inputs.\<close>

lemma finished_ignores:
  "au_finished a \<Longrightarrow> addResponse L dcfg E z m a w = Inr (a, w)"
  "au_finished a \<Longrightarrow> addDelegationSignerLink L dcfg E udpsz z n a w = Inr (a, w)"
  by (simp_all add: addResponse_def addDelegationSignerLink_def)

lemma worker_frame: "worker L dcfg E z m a w = Inr (a', w') \<Longrightarrow> au_finished a' = au_finished a"
  by (auto simp: worker_def bindG_eq_Inr_iff)

end
