(* ===== verification/Cname.thy ===== *)
theory Cname
  imports Session "HOL-Library.Sublist"
begin

text \<open>
  cname.go: following the CNAME records of an answer. The response is changed in place, so
  \<open>cname\<close> returns it together with the error.
\<close>

section \<open>cname.go\<close>

definition cname_query :: "dnslib \<Rightarrow> u16 \<Rightarrow> msg \<Rightarrow> u16 \<Rightarrow> string \<Rightarrow> msg" where
  "cname_query L udpsz qmsg qtype target =
     (let m = SetQuestion L new_Msg target qtype in
      if isSetDO L qmsg then SetEdns0 L m udpsz True else m)"

definition add_cname_response :: "msg \<Rightarrow> msg \<Rightarrow> msg" where
  "add_cname_response m c =
     m\<lparr>Answer := Answer m @ Answer c, Ns := Ns m @ Ns c, Extra := Extra m @ Extra c,
       Authoritative := Authoritative m \<and> Authoritative c, Rcode := max (Rcode m) (Rcode c)\<rparr>"

fun cname_loop ::
  "dnslib \<Rightarrow> u16 \<Rightarrow> 'w exchanger \<Rightarrow> msg \<Rightarrow> u16 \<Rightarrow> (rr_hdr \<times> string) list \<Rightarrow> msg \<Rightarrow> AuthenticationResult \<Rightarrow> ctx \<Rightarrow> 'w \<Rightarrow>
     (goerr option \<times> msg \<times> AuthenticationResult \<times> ctx \<times> 'w) go" where
  "cname_loop L udpsz ex qmsg qtype [] m a cx w = Inr (None, m, a, cx, w)"
| "cname_loop L udpsz ex qmsg qtype ((h, t) # cs) m a cx w =
     (let target = CanonicalName L t in
      if recordsOfNameAndTypeExist (Answer m) target qtype \<or> recordsOfNameAndTypeExist (Answer m) target TypeCNAME
      then cname_loop L udpsz ex qmsg qtype cs m a cx w
      else
        bindG (ex cx (cname_query L udpsz qmsg qtype target) w) (\<lambda>(r, cx, w).
          case r of
            None \<Rightarrow> Inr (Some MsgErr, m, a, cx, w)
          | Some c \<Rightarrow>
              if Err c \<noteq> None then Inr (Err c, m, a, cx, w)
              else case Msg c of
                     None \<Rightarrow> Inr (Some MsgErr, m, a, cx, w)
                   | Some cm \<Rightarrow>
                       cname_loop L udpsz ex qmsg qtype cs (add_cname_response m cm) (Combine a (Auth c)) cx w))"

definition cname ::
  "dnslib \<Rightarrow> u16 \<Rightarrow> 'w exchanger \<Rightarrow> msg \<Rightarrow> Response \<Rightarrow> ctx \<Rightarrow> 'w \<Rightarrow> (goerr option \<times> Response \<times> ctx \<times> 'w) go" where
  "cname L udpsz ex qmsg r cx w =
     (case Msg r of
        None \<Rightarrow> Inl NilDereference
      | Some m \<Rightarrow>
          bindG (go_nth (Question qmsg) 0) (\<lambda>q.
          bindG (cname_loop L udpsz ex qmsg (Qtype q) (extractRecords as_CNAME (Answer m)) m (Auth r) cx w)
            (\<lambda>(err, m, a, cx, w). Inr (err, r\<lparr>Msg := Some m, Auth := a\<rparr>, cx, w))))"

section \<open>Lemmas\<close>

abbreviation cname_known :: "dnslib \<Rightarrow> u16 \<Rightarrow> msg \<Rightarrow> string \<Rightarrow> bool" where
  "cname_known L qtype m t \<equiv> recordsOfNameAndTypeExist (Answer m) (CanonicalName L t) qtype \<or>
     recordsOfNameAndTypeExist (Answer m) (CanonicalName L t) TypeCNAME"

lemma cname_loop_skip:
  "cname_known L qtype m t \<Longrightarrow>
     cname_loop L udpsz ex qmsg qtype ((h, t) # cs) m a cx w = cname_loop L udpsz ex qmsg qtype cs m a cx w"
  by (simp add: Let_def)

lemma cname_loop_step:
  assumes "\<not> cname_known L qtype m t"
    and "cname_loop L udpsz ex qmsg qtype ((h, t) # cs) m a cx w = Inr (err, m', a', cx', w')"
  obtains (stop) r where "ex cx (cname_query L udpsz qmsg qtype (CanonicalName L t)) w = Inr (r, cx', w')"
      "err \<noteq> None" "m' = m" "a' = a"
  | (follow) c cm cx1 w1 where "ex cx (cname_query L udpsz qmsg qtype (CanonicalName L t)) w = Inr (Some c, cx1, w1)"
      "Err c = None" "Msg c = Some cm"
      "cname_loop L udpsz ex qmsg qtype cs (add_cname_response m cm) (Combine a (Auth c)) cx1 w1 = Inr (err, m', a', cx', w')"
proof (cases "ex cx (cname_query L udpsz qmsg qtype (CanonicalName L t)) w")
  case (Inl p)
  with assms show thesis by (simp add: Let_def)
next
  case (Inr v)
  obtain r cx1 w1 where v: "v = (r, cx1, w1)" by (cases v)
  show thesis
  proof (cases r)
    case None
    with assms Inr v stop show thesis by (auto simp: Let_def)
  next
    case (Some c)
    note eq = assms(2) [simplified, unfolded Let_def if_not_P [OF assms(1)] Inr v Some, simplified]
    show thesis
    proof (cases "Err c = None")
      case True
      then show thesis
        using eq stop [of "Some c"] follow [of c] Inr v Some by (cases "Msg c") auto
    next
      case False
      then show thesis using eq stop [of "Some c"] Inr v Some by (auto split: if_split_asm)
    qed
  qed
qed

text \<open>
  Following CNAMEs only weakens the verdict, extends the sections, and keeps the message
  authoritative only if all followed answers are.
\<close>

lemma cname_loop_grows:
  "cname_loop L udpsz ex qmsg qtype cs m a cx w = Inr (err, m', a', cx', w') \<Longrightarrow>
     a \<le> a' \<and> prefix (Answer m) (Answer m') \<and> prefix (Ns m) (Ns m') \<and> prefix (Extra m) (Extra m') \<and>
     (Authoritative m' \<longrightarrow> Authoritative m) \<and> Rcode m \<le> Rcode m'"
proof (induction cs arbitrary: m a cx w)
  case (Cons x cs)
  obtain h t where x: "x = (h, t)" by (cases x)
  show ?case
  proof (cases "cname_known L qtype m t")
    case True
    from Cons.IH [OF Cons.prems [unfolded x cname_loop_skip [OF True]]] show ?thesis .
  next
    case False
    from this Cons.prems [unfolded x] show ?thesis
    proof (cases rule: cname_loop_step)
      case (follow c cm cx1 w1)
      from Cons.IH [OF follow(4)] show ?thesis
        by (auto simp: add_cname_response_def Combine_max prefix_def)
    qed simp
  qed
qed simp

text \<open>
  After a successful run the answer holds, for each CNAME record, a record of the type of the
  question or another CNAME record at the target, or the whole answer of the exchange for it.
\<close>

definition cname_followed ::
  "dnslib \<Rightarrow> u16 \<Rightarrow> 'w exchanger \<Rightarrow> msg \<Rightarrow> u16 \<Rightarrow> msg \<Rightarrow> AuthenticationResult \<Rightarrow> string \<Rightarrow> bool" where
  "cname_followed L udpsz ex qmsg qtype m a t \<longleftrightarrow>
     (\<exists>r \<in> set (Answer m). rr_name r = CanonicalName L t \<and> (rr_type r = qtype \<or> rr_type r = TypeCNAME)) \<or>
     (\<exists>cx w c cm cx' w'. ex cx (cname_query L udpsz qmsg qtype (CanonicalName L t)) w = Inr (Some c, cx', w') \<and>
        Err c = None \<and> Msg c = Some cm \<and> set (Answer cm) \<subseteq> set (Answer m) \<and> Auth c \<le> a)"

lemma cname_followed_mono:
  "cname_followed L udpsz ex qmsg qtype m a t \<Longrightarrow> set (Answer m) \<subseteq> set (Answer m') \<Longrightarrow> a \<le> a' \<Longrightarrow>
     cname_followed L udpsz ex qmsg qtype m' a' t"
  unfolding cname_followed_def by (meson order_trans subsetD subset_trans)

lemma cname_loop_follows:
  "cname_loop L udpsz ex qmsg qtype cs m a cx w = Inr (None, m', a', cx', w') \<Longrightarrow> (h, t) \<in> set cs \<Longrightarrow>
     cname_followed L udpsz ex qmsg qtype m' a' t"
proof (induction cs arbitrary: m a cx w)
  case (Cons x cs)
  obtain h0 t0 where x: "x = (h0, t0)" by (cases x)
  have sub: "set (Answer m) \<subseteq> set (Answer m')" "a \<le> a'"
    using cname_loop_grows [OF Cons.prems(1)] by (auto dest: set_mono_prefix)
  show ?case
  proof (cases "cname_known L qtype m t0")
    case True
    then have "cname_followed L udpsz ex qmsg qtype m a t0"
      unfolding recordsOfNameAndTypeExist_iff cname_followed_def by blast
    with Cons.IH [OF Cons.prems(1) [unfolded x cname_loop_skip [OF True]]] Cons.prems(2) cname_followed_mono [OF _ sub]
    show ?thesis by (auto simp: x)
  next
    case False
    from this Cons.prems(1) [unfolded x] show ?thesis
    proof (cases rule: cname_loop_step)
      case (follow c cm cx1 w1)
      have "set (Answer (add_cname_response m cm)) \<subseteq> set (Answer m')" "Combine a (Auth c) \<le> a'"
        using cname_loop_grows [OF follow(4)] by (auto dest: set_mono_prefix)
      then have "cname_followed L udpsz ex qmsg qtype m' a' t0"
        unfolding cname_followed_def using follow by (fastforce simp: add_cname_response_def Combine_max)
      with Cons.IH [OF follow(4)] Cons.prems(2) show ?thesis by (auto simp: x)
    qed simp
  qed
qed simp

end
