(* ===== verification/Resolver_Exchange.thy ===== *)
theory Resolver_Exchange
  imports Auth Cname
begin

text \<open>
  resolver_exchange.go: the resolving algorithm. The functions that the source reaches through
  \<open>resolver.funcs\<close> are the ones that \<open>NewResolver\<close> puts there, so they call each other
  directly. The exchanger that \<open>getExchanger\<close> returns is the resolver itself: it is the
  argument \<open>ex\<close> of the functions that use it, and \<open>resolver_exchange\<close> ties the knot with
  a bound on the depth of the recursion. The main loop has a bound on its iterations. Both
  run out only with \<open>OutOfFuel\<close>, which the lemmas of Resolver\_Bounds exclude.

  The state is the pair of the zone store and the rest of the world; the methods of a zone
  are lifted to it. A method with a receiver or an argument that it mutates (the domain, the
  query message, the authenticator, the context) returns the new value.
\<close>

section \<open>The resolver and its state\<close>

record ('z, 'w) resolver =
  rs_lib :: dnslib
  rs_vars :: resolver_vars
  rs_config :: Config
  rs_dnssec :: dnssec_cfg
  rs_clock :: "'z zones \<times> 'w \<Rightarrow> nat \<Rightarrow> nat \<Rightarrow> sigclock"
  rs_runtime :: "'w runtime"
  rs_env :: "('z, 'w) zone_env"

type_synonym ('z, 'w) state = "'z zones \<times> 'w"

definition lift_world :: "('w \<Rightarrow> ('a \<times> 'w) go) \<Rightarrow> ('z, 'w) state \<Rightarrow> ('a \<times> ('z, 'w) state) go" where
  "lift_world f s = bindG (f (snd s)) (\<lambda>(x, w). Inr (x, (fst s, w)))"

definition lift_env :: "('z, 'w) zone_env \<Rightarrow> ('z, ('z, 'w) state) zone_env" where
  "lift_env E = \<lparr>zm_name = zm_name E, zm_parent = zm_parent E,
     zm_expired = (\<lambda>z s. zm_expired E z (snd s)),
     zm_clone = (\<lambda>z n p. lift_world (zm_clone E z n p)),
     zm_exchange = (\<lambda>z m s. bindG (zm_exchange E z m (snd s)) (\<lambda>(r, m, w). Inr (r, m, (fst s, w)))),
     zm_soa = (\<lambda>z n. lift_world (zm_soa E z n)),
     zm_dnskeys = (\<lambda>z. lift_world (zm_dnskeys E z)),
     zm_new = (\<lambda>n p pool s. let (z, w) = zm_new E n p pool (snd s) in (z, (fst s, w)))\<rparr>"

definition lift_runtime :: "'w runtime \<Rightarrow> ('z, 'w) state runtime" where
  "lift_runtime R = \<lparr>rt_now = (\<lambda>s. rt_now R (snd s)),
     rt_uuid = (\<lambda>s. let (i, w) = rt_uuid R (snd s) in (i, (fst s, w))),
     rt_ip6 = (\<lambda>s. let (b, w) = rt_ip6 R (snd s) in (b, (fst s, w)))\<rparr>"

definition zenv :: "('z, 'w) resolver \<Rightarrow> ('z, ('z, 'w) state) zone_env" where
  "zenv V = lift_env (rs_env V)"

definition rtime :: "('z, 'w) resolver \<Rightarrow> ('z, 'w) state runtime" where
  "rtime V = lift_runtime (rs_runtime V)"

definition store_zone :: "('z, 'w) resolver \<Rightarrow> 'z \<Rightarrow> ('z, 'w) state \<Rightarrow> ('z, 'w) state" where
  "store_zone V z s = (zones_add (rs_lib V) (zenv V) z (fst s), snd s)"

section \<open>checkForMissingZones\<close>

fun best_owner :: "dnslib \<Rightarrow> string \<Rightarrow> rr list \<Rightarrow> string \<Rightarrow> string" where
  "best_owner L zname [] nextRecordsOwner = nextRecordsOwner"
| "best_owner L zname (r # rs) nextRecordsOwner =
     (if nextRecordsOwner \<noteq> rr_name r \<and> IsSubDomain L zname (rr_name r) \<and>
         CountLabel L (rr_name r) > CountLabel L nextRecordsOwner
      then best_owner L zname rs (rr_name r)
      else best_owner L zname rs nextRecordsOwner)"

definition link_new_zone ::
  "('z, 'w) resolver \<Rightarrow> 'z \<Rightarrow> string \<Rightarrow> authenticator option \<Rightarrow> ('z, 'w) state \<Rightarrow>
     (authenticator option \<times> ('z, 'w) state) go" where
  "link_new_zone V z dsName auth s =
     (case auth of
        None \<Rightarrow> Inr (None, s)
      | Some a \<Rightarrow>
          bindG (addDelegationSignerLink (rs_lib V) (rs_dnssec V) (zenv V) (udpsize (rs_config V)) z dsName a s)
            (\<lambda>(a, s). Inr (Some a, s)))"

fun missing_loop ::
  "('z, 'w) resolver \<Rightarrow> string list \<Rightarrow> domain \<Rightarrow> 'z \<Rightarrow> authenticator option \<Rightarrow> ('z, 'w) state \<Rightarrow>
     ('z \<times> domain \<times> authenticator option \<times> ('z, 'w) state) go" where
  "missing_loop V [] d z auth s = Inr (z, d, auth, s)"
| "missing_loop V (missingDomain # names) d z auth s =
     bindG (zm_soa (zenv V) z missingDomain s) (\<lambda>((soa, err), s).
       if err = None \<and> soa \<noteq> None then
         bindG (zm_clone (zenv V) z missingDomain (zm_name (zenv V) z) s) (\<lambda>(newZone, s).
         bindG (link_new_zone V z (zm_name (zenv V) newZone) auth s) (\<lambda>(auth, s).
           missing_loop V names (next_label d) newZone auth (store_zone V newZone s)))
       else missing_loop V names (next_label d) z auth s)"

definition checkForMissingZones ::
  "('z, 'w) resolver \<Rightarrow> domain \<Rightarrow> 'z \<Rightarrow> msg \<Rightarrow> authenticator option \<Rightarrow> ('z, 'w) state \<Rightarrow>
     ('z \<times> domain \<times> authenticator option \<times> ('z, 'w) state) go" where
  "checkForMissingZones V d z rmsg auth s =
     (let records = Ns rmsg @ Answer rmsg in
      if length records = 0 then Inr (z, d, auth, s)
      else
        let nextRecordsOwner = best_owner (rs_lib V) (zm_name (zenv V) z) records ''.'' in
        if nextRecordsOwner = ''.'' then Inr (z, d, auth, s)
        else bindG (gap (rs_lib V) d nextRecordsOwner) (\<lambda>names. missing_loop V names d z auth s))"

section \<open>processDelegation\<close>

definition processDelegation ::
  "('z, 'w) resolver \<Rightarrow> ('z, 'w) state exchanger \<Rightarrow> 'z \<Rightarrow> msg \<Rightarrow> ctx \<Rightarrow> ('z, 'w) state \<Rightarrow>
     (('z option \<times> Response option) \<times> ctx \<times> ('z, 'w) state) go" where
  "processDelegation V ex z rmsg cx s =
     (let L = rs_lib V; E = zenv V; nameservers = extractRecords as_NS (Ns rmsg) in
      case nameservers of
        [] \<Rightarrow> Inr ((None, Some (newResponseError (Wrap [RErr ErrNextNameserversNotFound]))), cx, s)
      | ns # _ \<Rightarrow>
          let nextZoneName = canonicalName L (Name (fst ns)) in
          if nextZoneName = zm_name E z \<or> \<not> IsSubDomain L (zm_name E z) nextZoneName then
            Inr ((None, Some (newResponseError (Wrap [RErr ErrNextNameserversNotFound]))), cx, s)
          else
            bindG (createZone L (rs_vars V) (rtime V) E ex nextZoneName (zm_name E z) nameservers (Extra rmsg) cx s)
              (\<lambda>((zo, err), cx, s).
                case err of
                  Some e \<Rightarrow> Inr ((None, Some (newResponseError e)), cx, s)
                | None \<Rightarrow>
                    (case zo of
                       None \<Rightarrow> Inl NilDereference
                     | Some newZone \<Rightarrow> Inr ((Some newZone, None), cx, store_zone V newZone s))))"

section \<open>finaliseResponse\<close>

definition set_ttl :: "u32 \<Rightarrow> rr \<Rightarrow> rr" where
  "set_ttl t r = set_Header ((Header r)\<lparr>Ttl := t\<rparr>) r"

text \<open>The loop over a section; \<open>ttls\<close> caches the values per type.\<close>

fun limit_ttls :: "(u16 \<Rightarrow> u32 \<times> bool) \<Rightarrow> (u16 \<times> (u32 \<times> bool)) list \<Rightarrow> rr list \<Rightarrow> rr list" where
  "limit_ttls lookup ttls [] = []"
| "limit_ttls lookup ttls (r # rs) =
     (let (rtypeTTL, ttls) =
            (case map_of ttls (rr_type r) of
               Some v \<Rightarrow> (v, ttls)
             | None \<Rightarrow> (lookup (rr_type r), (rr_type r, lookup (rr_type r)) # ttls));
          (ttl, found) = rtypeTTL
      in (if found then set_ttl (min ttl (rr_ttl r)) r else r) # limit_ttls lookup ttls rs)"

definition authenticate_response ::
  "('z, 'w) resolver \<Rightarrow> authenticator option \<Rightarrow> Response \<Rightarrow> msg \<Rightarrow> (Response \<times> msg) go" where
  "authenticate_response V auth response m =
     (case auth of
        None \<Rightarrow> Inr (response, m)
      | Some a \<Rightarrow>
          bindG (auth_result (rs_lib V) (rs_dnssec V) a) (\<lambda>((state, doe, err), a).
            let response = response\<lparr>Auth := state, Doe := doe, Err := err\<rparr> in
            if state = Secure then
              Inr (response,
                m\<lparr>Answer := limit_ttls (resultTTLAnswer (rs_dnssec V) a) [] (Answer m),
                  Ns := limit_ttls (resultTTLAuthority (rs_dnssec V) a) [] (Ns m)\<rparr>)
            else Inr (response, m)))"

definition trim_sections :: "resolver_vars \<Rightarrow> msg \<Rightarrow> msg" where
  "trim_sections v m =
     (let m = (if RemoveAuthoritySectionForPositiveAnswers v \<and> length (Answer m) > 0 \<and>
                  \<not> recordsOfTypeExist (Ns m) TypeSOA then m\<lparr>Ns := []\<rparr> else m)
      in if RemoveAdditionalSectionForPositiveAnswers v \<and> length (Answer m) > 0 \<and>
            \<not> recordsOfTypeExist (Ns m) TypeSOA
         then m\<lparr>Extra := (case first_OPT (Extra m) of Some opt \<Rightarrow> [OPT opt] | None \<Rightarrow> [])\<rparr>
         else m)"

definition dedup_sections :: "dnslib \<Rightarrow> msg \<Rightarrow> msg" where
  "dedup_sections L m =
     (let m = (if length (Answer m) > 0 then m\<lparr>Answer := Dedup L (Answer m)\<rparr> else m);
          m = (if length (Ns m) > 0 then m\<lparr>Ns := Dedup L (Ns m)\<rparr> else m)
      in if length (Extra m) > 0 then m\<lparr>Extra := Dedup L (Extra m)\<rparr> else m)"

definition apply_verdict :: "resolver_vars \<Rightarrow> msg \<Rightarrow> AuthenticationResult \<Rightarrow> msg \<Rightarrow> msg" where
  "apply_verdict v qmsg state m =
     (if \<not> CheckingDisabled qmsg then
        let m = m\<lparr>AuthenticatedData := (state = Secure)\<rparr> in
        if state = Bogus then
          let m = m\<lparr>Rcode := RcodeServerFailure\<rparr> in
          if SuppressBogusResponseSections v then m\<lparr>Answer := [], Ns := [], Extra := []\<rparr> else m
        else m
      else m)"

definition finish_response ::
  "('z, 'w) resolver \<Rightarrow> authenticator option \<Rightarrow> msg \<Rightarrow> Response \<Rightarrow> msg \<Rightarrow> ctx \<Rightarrow> ('z, 'w) state \<Rightarrow> Response" where
  "finish_response V auth qmsg response m cx s =
     (let response =
            (if Rcode m = RcodeSuccess \<or> Rcode m = RcodeNameError then response else response\<lparr>Err := Some MsgErr\<rparr>);
          m = dedup_sections (rs_lib V) (trim_sections (rs_vars V) m);
          m = (case auth of Some _ \<Rightarrow> apply_verdict (rs_vars V) qmsg (Auth response) m | None \<Rightarrow> m);
          start = (case ctxStartTime cx of Some t \<Rightarrow> t | None \<Rightarrow> 0)
      in response\<lparr>Msg := Some m, Duration := rt_now (rtime V) s - start\<rparr>)"

definition finaliseResponse ::
  "('z, 'w) resolver \<Rightarrow> ('z, 'w) state exchanger \<Rightarrow> authenticator option \<Rightarrow> msg \<Rightarrow> Response \<Rightarrow> ctx \<Rightarrow> ('z, 'w) state \<Rightarrow>
     (Response \<times> ctx \<times> ('z, 'w) state) go" where
  "finaliseResponse V ex auth qmsg response cx s =
     (case Msg response of
        None \<Rightarrow> Inl NilDereference
      | Some m \<Rightarrow>
          bindG (authenticate_response V auth response m) (\<lambda>(response, m).
          bindG (go_nth (Question qmsg) 0) (\<lambda>q.
            if Qtype q \<noteq> TypeCNAME \<and> recordsOfTypeExist (Answer m) TypeCNAME then
              bindG (cname (rs_lib V) (udpsize (rs_config V)) ex qmsg (response\<lparr>Msg := Some m\<rparr>) cx s)
                (\<lambda>(err, response, cx, s).
                  if err \<noteq> None then Inr (zero_Response\<lparr>Err := err\<rparr>, cx, s)
                  else
                    (case Msg response of
                       None \<Rightarrow> Inl NilDereference
                     | Some m \<Rightarrow> Inr (finish_response V auth qmsg response m cx s, cx, s)))
            else Inr (finish_response V auth qmsg response m cx s, cx, s))))"

section \<open>resolveLabel\<close>

definition is_delegation :: "msg \<Rightarrow> bool" where
  "is_delegation m \<longleftrightarrow> length (Answer m) = 0 \<and> recordsOfTypeExist (Ns m) TypeNS \<and> \<not> recordsOfTypeExist (Ns m) TypeSOA"

text \<open>Fetching the keys ahead of their use, and handing the response to the authenticator.\<close>

definition prefetch_keys ::
  "('z, 'w) resolver \<Rightarrow> authenticator option \<Rightarrow> 'z \<Rightarrow> ('z, 'w) state \<Rightarrow> ('z, 'w) state go" where
  "prefetch_keys V auth z s =
     (if auth \<noteq> None then bindG (zm_dnskeys (zenv V) z s) (\<lambda>(_, s). Inr s) else Inr s)"

definition give_response ::
  "('z, 'w) resolver \<Rightarrow> authenticator option \<Rightarrow> 'z \<Rightarrow> msg \<Rightarrow> ('z, 'w) state \<Rightarrow>
     (authenticator option \<times> ('z, 'w) state) go" where
  "give_response V auth z m s =
     (case auth of
        None \<Rightarrow> Inr (None, s)
      | Some a \<Rightarrow> bindG (addResponse (rs_lib V) (rs_dnssec V) (zenv V) z m a s) (\<lambda>(a, s). Inr (Some a, s)))"

type_synonym ('z, 'w) label_result =
  "(('z option \<times> Response option) \<times> domain \<times> msg \<times> authenticator option \<times> ctx \<times> ('z, 'w) state) go"

definition resolveLabel ::
  "('z, 'w) resolver \<Rightarrow> ('z, 'w) state exchanger \<Rightarrow> domain \<Rightarrow> 'z option \<Rightarrow> msg \<Rightarrow> authenticator option \<Rightarrow> ctx \<Rightarrow>
     ('z, 'w) state \<Rightarrow> ('z, 'w) label_result" where
  "resolveLabel V ex d zo qmsg auth cx s =
     (case zo of
        None \<Rightarrow> Inr ((None, Some (newResponseError (Wrap [RErr ErrInternalError]))), d, qmsg, auth, cx, s)
      | Some z \<Rightarrow>
          bindG (prefetch_keys V auth z s) (\<lambda>s.
          bindG (zm_exchange (zenv V) z qmsg s) (\<lambda>(response, qmsg, s).
            if HasError response then Inr ((None, response), d, qmsg, auth, cx, s)
            else
              case (case response of Some r \<Rightarrow> (case Msg r of Some m \<Rightarrow> Some (r, m) | None \<Rightarrow> None) | None \<Rightarrow> None) of
                None \<Rightarrow> Inr ((None, Some (newResponseError (Wrap [RErr ErrEmptyResponse]))), d, qmsg, auth, cx, s)
              | Some (r, m) \<Rightarrow>
                  bindG (checkForMissingZones V d z m auth s) (\<lambda>(z, d, auth, s).
                  bindG (give_response V auth z m s) (\<lambda>(auth, s).
                    if is_delegation m then
                      bindG (processDelegation V ex z m cx s) (\<lambda>(res, cx, s). Inr (res, d, qmsg, auth, cx, s))
                    else
                      bindG (finaliseResponse V ex auth qmsg r cx s) (\<lambda>(r, cx, s).
                        Inr ((None, Some r), d, qmsg, auth, cx, s)))))))"

section \<open>exchange\<close>

definition count_query :: "ctx \<Rightarrow> u32 \<times> ctx" where
  "count_query cx =
     (let n = (case ctxSessionQueries cx of Some n \<Rightarrow> n | None \<Rightarrow> 0) + 1
      in (n, cx\<lparr>ctxSessionQueries := Some n\<rparr>))"

fun exchange_loop ::
  "('z, 'w) resolver \<Rightarrow> ('z, 'w) state exchanger \<Rightarrow> nat \<Rightarrow> domain \<Rightarrow> 'z option \<Rightarrow> msg \<Rightarrow> authenticator option \<Rightarrow> ctx \<Rightarrow>
     ('z, 'w) state \<Rightarrow> (Response option \<times> ctx \<times> ('z, 'w) state) go" where
  "exchange_loop V ex 0 d zo qmsg auth cx s = Inl OutOfFuel"
| "exchange_loop V ex (Suc n) d zo qmsg auth cx s =
     (if \<not> Domain.more d then Inr (Some (newResponseError (RErr ErrUnableToResolveAnswer)), cx, s)
      else
        let (count, cx) = count_query cx in
        if count > MaxQueriesPerRequest (rs_vars V) then
          Inr (Some (newResponseError (Wrap [RErr ErrMaxQueriesPerRequestReached])), cx, s)
        else
          let known = zones_get (rs_lib V) (zenv V) s (fst s) (current d) in
          if known \<noteq> None \<and> \<not> last_label d then exchange_loop V ex n (next_label d) known qmsg auth cx s
          else
            bindG (resolveLabel V ex d zo qmsg auth cx s) (\<lambda>((zo, response), d, qmsg, auth, cx, s).
              case response of
                Some r \<Rightarrow> Inr (Some r, cx, s)
              | None \<Rightarrow> exchange_loop V ex n (next_label d) zo qmsg auth cx s))"

definition setup_ctx ::
  "('z, 'w) resolver \<Rightarrow> ctx \<Rightarrow> ('z, 'w) state \<Rightarrow> (ctx \<times> ('z, 'w) state) go" where
  "setup_ctx V cx s =
     (let start = rt_now (rtime V) s;
          cx = (if ctxStartTime cx = None then cx\<lparr>ctxStartTime := Some start\<rparr> else cx)
      in bindG (case CtxTrace cx of
                  Some t \<Rightarrow> Inr (t, s)
                | None \<Rightarrow>
                    let (t, s) = newTraceWithStart (rtime V) start s in bindG (ShortID t) (\<lambda>_. Inr (t, s)))
           (\<lambda>(t, s).
             let cx = cx\<lparr>CtxTrace := Some (t\<lparr>Iterations := Iterations t + 1\<rparr>)\<rparr>;
                 cx = (if ctxSessionQueries cx = None then cx\<lparr>ctxSessionQueries := Some 0\<rparr> else cx)
             in Inr (cx, s)))"

text \<open>The DS links between the zones that are already known, without the root's own.\<close>

fun link_known ::
  "('z, 'w) resolver \<Rightarrow> 'z list \<Rightarrow> authenticator option \<Rightarrow> ('z, 'w) state \<Rightarrow>
     (authenticator option \<times> ('z, 'w) state) go" where
  "link_known V (z0 # z1 # zs) auth s =
     bindG (link_new_zone V z1 (zm_name (zenv V) z0) auth s) (\<lambda>(auth, s). link_known V (z1 # zs) auth s)"
| "link_known V _ auth s = Inr (auth, s)"

definition start_auth :: "('z, 'w) resolver \<Rightarrow> msg \<Rightarrow> ('z, 'w) state \<Rightarrow> authenticator option go" where
  "start_auth V qmsg s =
     (if isSetDO (rs_lib V) qmsg then
        bindG (go_nth (Question qmsg) 0) (\<lambda>q. Inr (Some (newAuthenticator (rs_lib V) (rs_dnssec V) (rs_clock V s) q)))
      else Inr None)"

definition exchange :: "('z, 'w) resolver \<Rightarrow> ('z, 'w) state exchanger \<Rightarrow> ('z, 'w) state exchanger" where
  "exchange V ex cx qmsg s =
     bindG (setup_ctx V cx s) (\<lambda>(cx, s).
     bindG (start_auth V qmsg s) (\<lambda>auth.
     bindG (go_nth (Question qmsg) 0) (\<lambda>q.
       let knownZones = getZoneList (rs_lib V) (zenv V) s (fst s) (qName q) in
       bindG (link_known V knownZones auth s) (\<lambda>(auth, s).
       bindG (go_nth knownZones 0) (\<lambda>z.
         let (err, d) = windTo (rs_lib V) (newDomain (rs_lib V) (qName q)) (zm_name (zenv V) z) in
         case err of
           Some e \<Rightarrow> Inr (Some (newResponseError e), cx, s)
         | None \<Rightarrow>
             exchange_loop V ex (unat (MaxQueriesPerRequest (rs_vars V)) + 2) d (Some z) qmsg auth cx s)))))"

fun resolver_exchange :: "('z, 'w) resolver \<Rightarrow> nat \<Rightarrow> ('z, 'w) state exchanger" where
  "resolver_exchange V 0 cx qmsg s = Inl OutOfFuel"
| "resolver_exchange V (Suc n) cx qmsg s = exchange V (resolver_exchange V n) cx qmsg s"

definition Exchange ::
  "('z, 'w) resolver \<Rightarrow> ctx \<Rightarrow> msg \<Rightarrow> ('z, 'w) state \<Rightarrow> (Response option \<times> ('z, 'w) state) go" where
  "Exchange V cx qmsg s =
     (if \<not> RecursionDesired qmsg then Inr (Some (newResponseError (RErr ErrNotRecursionDesired)), s)
      else
        bindG (resolver_exchange V (unat (MaxQueriesPerRequest (rs_vars V)) + 1) cx qmsg s) (\<lambda>(response, _, s).
          case response of
            None \<Rightarrow> Inr (None, s)
          | Some r \<Rightarrow>
              (case Msg r of
                 None \<Rightarrow> Inr (Some r, s)
               | Some m \<Rightarrow> Inr (Some (r\<lparr>Msg := Some (m\<lparr>RecursionAvailable := True\<rparr>)\<rparr>), s))))"

text \<open>
  Documented behaviour of the library's name functions on all names: \<open>CanonicalName\<close> is
  idempotent, \<open>IsSubDomain\<close> does not depend on the spelling, and nothing lies above the root.
\<close>

definition lib_names :: "dnslib \<Rightarrow> bool" where
  "lib_names L \<longleftrightarrow> CanonicalName L ''.'' = ''.'' \<and> (\<forall>n. CanonicalName L (CanonicalName L n) = CanonicalName L n) \<and>
     (\<forall>p n. IsSubDomain L (CanonicalName L p) (CanonicalName L n) = IsSubDomain L p n) \<and>
     (\<forall>p. IsSubDomain L p ''.'' \<longrightarrow> CanonicalName L p = ''.'')"

text \<open>A zone with a canonical name that lies strictly below its parent.\<close>

definition below_parent :: "('z, 'w) resolver \<Rightarrow> 'z \<Rightarrow> bool" where
  "below_parent V z \<longleftrightarrow> zm_name (zenv V) z \<noteq> ''.'' \<and> CanonicalName (rs_lib V) (zm_name (zenv V) z) = zm_name (zenv V) z \<and>
     zm_parent (zenv V) z \<noteq> zm_name (zenv V) z \<and> IsSubDomain (rs_lib V) (zm_parent (zenv V) z) (zm_name (zenv V) z)"

text \<open>The store holds each zone under its name, below its parent; the root stays what it is.\<close>

definition store_inv :: "('z, 'w) resolver \<Rightarrow> 'z option \<Rightarrow> ('z, 'w) state \<Rightarrow> bool" where
  "store_inv V root s \<longleftrightarrow> map_of (fst s) ''.'' = root \<and> distinct (map fst (fst s)) \<and>
     (\<forall>(n, z) \<in> set (fst s). n = zm_name (zenv V) z \<and> (n = ''.'' \<or> below_parent V z))"

text \<open>What an exchanger keeps, on every run that returns.\<close>

abbreviation ok :: "'a go \<Rightarrow> ('a \<Rightarrow> bool) \<Rightarrow> bool" where
  "ok m Q \<equiv> wpG (\<lambda>_. True) m Q"

definition keeps :: "(('z, 'w) state \<Rightarrow> bool) \<Rightarrow> ('z, 'w) state exchanger \<Rightarrow> bool" where
  "keeps I ex \<longleftrightarrow> (\<forall>cx m s. I s \<longrightarrow> ok (ex cx m s) (\<lambda>(r, cx', s'). I s'))"

section \<open>The lifted interface\<close>

lemma lift_world_Inr: "lift_world f s = Inr (x, s') \<longleftrightarrow> f (snd s) = Inr (x, snd s') \<and> fst s' = fst s"
  by (cases s') (auto simp: lift_world_def bindG_eq_Inr_iff)

lemma lift_world_returns [simp]: "returns (lift_world f s) = returns (f (snd s))"
  by (cases "f (snd s)") (auto simp: lift_world_def)

lemma lift_world_ends: "nofuel (f (snd s)) \<Longrightarrow> nofuel (lift_world f s)"
  by (auto simp: lift_world_def intro!: nofuel_bindG split: prod.split)

lemma lift_env_simps [simp]:
  "zm_name (lift_env E) = zm_name E" "zm_parent (lift_env E) = zm_parent E"
  "zm_clone (lift_env E) z n p = lift_world (zm_clone E z n p)"
  "zm_soa (lift_env E) z n = lift_world (zm_soa E z n)" "zm_dnskeys (lift_env E) z = lift_world (zm_dnskeys E z)"
  by (simp_all add: lift_env_def)

lemma lift_new_Pair:
  "zm_new (lift_env E) n p pool s = (z, s') \<longleftrightarrow> zm_new E n p pool (snd s) = (z, snd s') \<and> fst s' = fst s"
  by (cases s') (auto simp: lift_env_def split: prod.split)

lemma lift_exchange_Inr:
  "zm_exchange (lift_env E) z m s = Inr (r, m', s') \<longleftrightarrow> zm_exchange E z m (snd s) = Inr (r, m', snd s') \<and> fst s' = fst s"
  by (cases s') (auto simp: lift_env_def bindG_eq_Inr_iff)

context zone_provider
begin

lemma lifted_provider: "zone_provider L (lift_env E)"
proof
  show "\<And>n p pool s z s'. zm_new (lift_env E) n p pool s = (z, s') \<Longrightarrow> zm_name (lift_env E) z = n \<and> zm_parent (lift_env E) z = p"
    by (auto simp: lift_new_Pair dest: new_names)
  show "\<And>z n p s z' s'. zm_clone (lift_env E) z n p s = Inr (z', s') \<Longrightarrow>
      zm_name (lift_env E) z' = canonicalName L n \<and> zm_parent (lift_env E) z' = canonicalName L p"
    by (auto simp: lift_world_Inr dest: clone_names)
  show "\<And>z n p s. \<not> returns (zm_clone (lift_env E) z n p s) \<Longrightarrow>
      zm_clone (lift_env E) z n p s = Inl (Panic ''invalid clone'')"
    by (simp, simp add: lift_world_def clone_panic)
  show "\<And>z m s. nofuel (zm_exchange (lift_env E) z m s)"
    using exchange_ends by (auto simp: lift_env_def intro!: nofuel_bindG split: prod.split)
qed (auto simp: clone_returns lift_exchange_Inr dest: exchange_query intro!: lift_world_ends soa_ends dnskeys_ends)

end

text \<open>A resolver whose zones keep the contract; so do the lifted ones.\<close>

locale resolver_zones = base: zone_provider "rs_lib V" "rs_env V" for V :: "('z, 'w) resolver"

sublocale resolver_zones \<subseteq> zone_provider "rs_lib V" "zenv V"
  unfolding zenv_def by (rule base.lifted_provider)

section \<open>The zone store\<close>

lemma lib_namesD:
  assumes "lib_names L"
  shows canonical_dot: "CanonicalName L ''.'' = ''.''"
    and canonical_idem: "CanonicalName L (CanonicalName L n) = CanonicalName L n"
    and subdomain_spelling: "IsSubDomain L (CanonicalName L p) (CanonicalName L n) = IsSubDomain L p n"
    and above_root: "IsSubDomain L p ''.'' \<Longrightarrow> CanonicalName L p = ''.''"
  using assms unfolding lib_names_def by blast+

lemma below_parentI:
  assumes "lib_names (rs_lib V)" "zm_name (zenv V) z = CanonicalName (rs_lib V) n"
    "zm_parent (zenv V) z = CanonicalName (rs_lib V) p"
    "CanonicalName (rs_lib V) n \<noteq> CanonicalName (rs_lib V) p" "IsSubDomain (rs_lib V) p n"
  shows "below_parent V z"
proof -
  let ?p = "CanonicalName (rs_lib V) p" and ?n = "CanonicalName (rs_lib V) n"
  have sub: "IsSubDomain (rs_lib V) ?p ?n" using assms(1,5) by (simp add: subdomain_spelling)
  have "?n \<noteq> ''.''"
  proof
    assume "?n = ''.''"
    with sub above_root [OF assms(1), of ?p] assms(1,4) show False by (simp add: canonical_idem)
  qed
  with sub assms show ?thesis by (simp add: below_parent_def canonical_idem)
qed

lemma store_zone_inv:
  assumes s: "store_inv V root s" and z: "below_parent V z"
  shows "store_inv V root (store_zone V z s)"
proof -
  let ?n = "zm_name (zenv V) z"
  have "set (AList.update k z zs) \<subseteq> insert (k, z) (set zs)" for k :: string and zs by (induction zs) auto
  then have sub: "set (AList.update ?n z (fst s)) \<subseteq> insert (?n, z) (set (fst s))" .
  have c: "canonicalName (rs_lib V) ?n = ?n" "?n \<noteq> ''.''"
    using z by (simp_all add: below_parent_def canonicalName_def)
  have "m = zm_name (zenv V) y \<and> (m = ''.'' \<or> below_parent V y)"
    if "(m, y) \<in> set (AList.update ?n z (fst s))" for m y
    using subsetD [OF sub that] s z by (auto simp: store_inv_def)
  moreover have "map_of (AList.update ?n z (fst s)) ''.'' = root" using s c(2) by (simp add: store_inv_def update_conv')
  moreover have "distinct (map fst (AList.update ?n z (fst s)))" using s by (simp add: store_inv_def distinct_update)
  ultimately show ?thesis unfolding store_inv_def store_zone_def zones_add_def c(1) fst_conv by blast
qed

lemma store_inv_fst: "store_inv V root s \<Longrightarrow> fst s' = fst s \<Longrightarrow> store_inv V root s'"
  by (simp add: store_inv_def)

lemma ok_trivial: "(\<And>x. Q x) \<Longrightarrow> ok m Q"
  by (cases m) simp_all

lemma keepsD: "keeps I ex \<Longrightarrow> I s \<Longrightarrow> ok (ex cx m s) (\<lambda>(r, cx', s'). I s')"
  unfolding keeps_def by blast

lemma zenv_wp [wp_simps]:
  "wpG X (zm_exchange (zenv V) z m s) Q = wpG X (zm_exchange (rs_env V) z m (snd s)) (\<lambda>(r, m, w). Q (r, m, (fst s, w)))"
  "wpG X (zm_soa (zenv V) z n s) Q1 = wpG X (zm_soa (rs_env V) z n (snd s)) (\<lambda>(x, w). Q1 (x, (fst s, w)))"
  "wpG X (zm_dnskeys (zenv V) z s) Q2 = wpG X (zm_dnskeys (rs_env V) z (snd s)) (\<lambda>(x, w). Q2 (x, (fst s, w)))"
  "wpG X (zm_clone (zenv V) z n p s) Q3 = wpG X (zm_clone (rs_env V) z n p (snd s)) (\<lambda>(x, w). Q3 (x, (fst s, w)))"
  by (simp_all add: zenv_def lift_env_def lift_world_def wpG_bindG case_prod_unfold)

end
