(* ===== verification/Resolver_Store.thy ===== *)
theory Resolver_Store
  imports Resolver_Exchange
begin

text \<open>
  What every run of the resolver keeps: the invariant \<open>store_inv\<close> of the zone store and any
  property \<open>J\<close> of the rest of the world that the methods of the zones and the runtime keep.
\<close>

definition state_inv :: "('z, 'w) resolver \<Rightarrow> ('w \<Rightarrow> bool) \<Rightarrow> 'z option \<Rightarrow> ('z, 'w) state \<Rightarrow> bool" where
  "state_inv V J root s \<longleftrightarrow> store_inv V root s \<and> J (snd s)"

text \<open>A resolver whose zones and runtime keep \<open>J\<close>.\<close>

locale resolver_inv = resolver_zones V for V :: "('z, 'w) resolver" +
  fixes J :: "'w \<Rightarrow> bool"
  assumes J_exchange: "J w \<Longrightarrow> ok (zm_exchange (rs_env V) z m w) (\<lambda>(r, m', w'). J w')"
    and J_soa: "J w \<Longrightarrow> ok (zm_soa (rs_env V) z n w) (\<lambda>(x, w'). J w')"
    and J_dnskeys: "J w \<Longrightarrow> ok (zm_dnskeys (rs_env V) z w) (\<lambda>(x, w'). J w')"
    and J_clone: "J w \<Longrightarrow> ok (zm_clone (rs_env V) z n p w) (\<lambda>(x, w'). J w')"
    and J_new: "J w \<Longrightarrow> J (snd (zm_new (rs_env V) n p pool w))"
    and J_ip6: "J w \<Longrightarrow> J (snd (rt_ip6 (rs_runtime V) w))"
    and J_uuid: "J w \<Longrightarrow> J (snd (rt_uuid (rs_runtime V) w))"

text \<open>The functions that call the exchanger keep what it keeps.\<close>

lemma cname_loop_keeps:
  "keeps I ex \<Longrightarrow> I s \<Longrightarrow> ok (cname_loop L sz ex qmsg t cs m a cx s) (\<lambda>(e, m', a', cx', s'). I s')"
proof (induction cs arbitrary: m a cx s)
  case (Cons c cs)
  obtain h n where c: "c = (h, n)" by (cases c)
  show ?case
    using Cons.IH [OF Cons.prems(1)] Cons.prems(2)
    by (auto simp: c Let_def wpG_bindG split: option.split intro!: wpG_mono [OF keepsD [OF Cons.prems]])
qed simp

lemma cname_keeps:
  "keeps I ex \<Longrightarrow> I s \<Longrightarrow> ok (cname L sz ex qmsg r cx s) (\<lambda>(e, r', cx', s'). I s')"
  by (auto simp: cname_def wp_simps split: option.split intro!: wpG_mono [OF cname_loop_keeps])

lemma enrich_until_done_keeps:
  "keeps I ex \<Longrightarrow> I s \<Longrightarrow> ok (enrich_until_done L v R ex qs pool cx s) (\<lambda>(d, pool', cx', s'). I s')"
proof (induction qs arbitrary: pool cx s)
  case (Cons q qs)
  obtain t h where q: "q = (t, h)" by (cases q)
  show ?case
    using Cons.IH [OF Cons.prems(1)]
    by (auto simp: q wpG_bindG split: option.split intro!: wpG_mono [OF keepsD [OF Cons.prems]])
qed simp

lemma enrich_rest_keeps:
  "keeps I ex \<Longrightarrow> I s \<Longrightarrow> ok (enrich_rest L v R ex qs pool cx s) (\<lambda>(pool', cx', s'). I s')"
proof (induction qs arbitrary: pool cx s)
  case (Cons q qs)
  obtain t h where q: "q = (t, h)" by (cases q)
  show ?case
    using Cons.IH [OF Cons.prems(1)]
    by (auto simp: q wpG_bindG split: option.split intro!: wpG_mono [OF keepsD [OF Cons.prems]])
qed simp

text \<open>The steps that leave the zone store alone.\<close>

context resolver_inv
begin

abbreviation frame :: "('z, 'w) state \<Rightarrow> ('z, 'w) state \<Rightarrow> bool" where
  "frame s s' \<equiv> fst s' = fst s \<and> J (snd s')"

lemma state_inv_frame: "state_inv V J root s \<Longrightarrow> frame s s' \<Longrightarrow> state_inv V J root s'"
  by (auto simp: state_inv_def intro: store_inv_fst)

lemma state_invD: "state_inv V J root s \<Longrightarrow> J (snd s)"
  by (simp add: state_inv_def)

lemma zone_calls_frame:
  "J (snd s) \<Longrightarrow> ok (zm_exchange (zenv V) z m s) (\<lambda>(r, m', s'). frame s s')"
  "J (snd s) \<Longrightarrow> ok (zm_soa (zenv V) z n s) (\<lambda>(x, s'). frame s s')"
  "J (snd s) \<Longrightarrow> ok (zm_dnskeys (zenv V) z s) (\<lambda>(y, s'). frame s s')"
  "J (snd s) \<Longrightarrow> ok (zm_clone (zenv V) z n p s) (\<lambda>(z', s'). frame s s')"
  using J_exchange J_soa J_dnskeys J_clone by (auto simp: zenv_wp case_prod_unfold)

lemma worker_frame_J:
  "J (snd s) \<Longrightarrow> ok (worker L dcfg (zenv V) z m a s) (\<lambda>(a', s'). frame s s')"
  unfolding worker_def authZone_def wpG_bindG
  by (rule wpG_mono [OF zone_calls_frame(3)])
     (auto simp: wpG_bindG intro!: ok_trivial [where m = "AddResponse L dcfg (au_auth a) zone m" for zone])

lemma addDS_frame:
  assumes "J (snd s)"
  shows "ok (addDelegationSignerLink L dcfg (zenv V) sz z n a s) (\<lambda>(a', s'). frame s s')"
proof (cases "au_finished a")
  case False
  have rest: "ok (bindG (zm_exchange (zenv V) z (ds_query L sz n) s1) (\<lambda>(response, _, s).
          case response of None \<Rightarrow> Inr (a, s)
          | Some r \<Rightarrow> (case Msg r of None \<Rightarrow> Inr (a, s)
               | Some m \<Rightarrow> (if Err r = None then worker L dcfg (zenv V) z m a s else Inr (a, s)))))
      (\<lambda>(a', s'). frame s s')" if "frame s s1" for s1
    unfolding wpG_bindG
    by (rule wpG_mono [OF zone_calls_frame(1)])
       (use that in \<open>auto split: option.split intro!: wpG_mono [OF worker_frame_J]\<close>)
  show ?thesis
    unfolding addDelegationSignerLink_def if_not_P [OF False] wpG_bindG [of _ "zm_dnskeys (zenv V) z s"]
    by (rule wpG_mono [OF zone_calls_frame(3) [OF assms]]) (auto intro!: rest)
qed (use assms in \<open>simp add: addDelegationSignerLink_def\<close>)

lemma link_frame: "J (snd s) \<Longrightarrow> ok (link_new_zone V z n auth s) (\<lambda>(auth', s'). frame s s')"
  by (auto simp: link_new_zone_def wpG_bindG split: option.split intro!: wpG_mono [OF addDS_frame])

lemma give_response_frame: "J (snd s) \<Longrightarrow> ok (give_response V auth z m s) (\<lambda>(auth', s'). frame s s')"
  by (auto simp: give_response_def addResponse_def wpG_bindG split: option.split intro!: wpG_mono [OF worker_frame_J])

lemma prefetch_frame: "J (snd s) \<Longrightarrow> ok (prefetch_keys V auth z s) (\<lambda>s'. frame s s')"
  by (auto simp: prefetch_keys_def wpG_bindG intro!: wpG_mono [OF zone_calls_frame(3)])

lemma link_known_frame: "J (snd s) \<Longrightarrow> ok (link_known V zs auth s) (\<lambda>(auth', s'). frame s s')"
proof (induction zs arbitrary: auth s rule: induct_list012)
  case (3 z0 z1 zs)
  show ?case unfolding link_known.simps wpG_bindG
    by (rule wpG_mono [OF link_frame [OF "3.prems"]]) (auto intro!: wpG_mono [OF "3.IH"(2)])
qed auto

lemma setup_ctx_frame: "J (snd s) \<Longrightarrow> ok (setup_ctx V cx s) (\<lambda>(cx', s'). frame s s')"
  using J_uuid [of "snd s"]
  by (auto simp: setup_ctx_def newTraceWithStart_def rtime_def lift_runtime_def Let_def wp_simps ShortID_def
      split: option.split prod.split)

text \<open>The steps that add zones.\<close>

lemma store_zone_state: "state_inv V J root s \<Longrightarrow> below_parent V z \<Longrightarrow> state_inv V J root (store_zone V z s)"
  by (simp add: state_inv_def store_zone_inv) (simp add: store_zone_def)

lemma missing_loop_inv:
  assumes "lib_names (rs_lib V)" "state_inv V J root s"
  shows "ok (missing_loop V names d z auth s) (\<lambda>(z', d', auth', s'). state_inv V J root s')"
  using assms(2)
proof (induction names arbitrary: d z auth s)
  case (Cons n names)
  let ?Q = "\<lambda>(z', d', auth', s'). state_inv V J root s'"
  have new: "ok (bindG (zm_clone (zenv V) z n (zm_name (zenv V) z) s1) (\<lambda>(newZone, s).
      bindG (link_new_zone V z (zm_name (zenv V) newZone) auth s) (\<lambda>(auth, s).
        missing_loop V names (next_label d) newZone auth (store_zone V newZone s)))) ?Q"
    if s1: "state_inv V J root s1" for s1
  proof (cases "zm_clone (zenv V) z n (zm_name (zenv V) z) s1")
    case (Inr v)
    obtain nz s2 where v: "v = (nz, s2)" by (cases v)
    have s2: "state_inv V J root s2"
      using wpG_Inr [OF zone_calls_frame(4) [OF state_invD [OF s1]] Inr] v by (auto intro: state_inv_frame [OF s1])
    have "below_parent V nz"
      using clone_names [OF Inr [unfolded v]] clone_returns [of z n "zm_name (zenv V) z" s1] Inr
      by (intro below_parentI [OF assms(1)]) (auto simp: canonicalName_def)
    then have "ok (missing_loop V names (next_label d) nz auth' (store_zone V nz s3)) ?Q" if "frame s2 s3" for auth' s3
      by (intro Cons.IH store_zone_state state_inv_frame [OF s2 that])
    then show ?thesis
      unfolding Inr v bindG_Inr prod.case wpG_bindG
      by (intro wpG_mono [OF link_frame [OF state_invD [OF s2]]]) auto
  qed simp
  show ?case unfolding missing_loop.simps wpG_bindG [of _ "zm_soa (zenv V) z n s"]
    by (rule wpG_mono [OF zone_calls_frame(2) [OF state_invD [OF Cons.prems]]])
       (auto intro!: new Cons.IH state_inv_frame [OF Cons.prems])
qed simp

lemma checkForMissingZones_inv:
  assumes "lib_names (rs_lib V)" "state_inv V J root s"
  shows "ok (checkForMissingZones V d z m auth s) (\<lambda>(z', d', auth', s'). state_inv V J root s')"
  using assms
  by (auto simp: checkForMissingZones_def Let_def wpG_bindG intro!: ok_trivial [where m = "gap (rs_lib V) d n" for n] missing_loop_inv)

lemma ip6_inv: "state_inv V J root s \<Longrightarrow> state_inv V J root (snd (rt_ip6 (rtime V) s))"
  using J_ip6 [of "snd s"] by (auto simp: state_inv_def store_inv_def rtime_def lift_runtime_def split: prod.split)

lemma finish_zone_inv:
  "state_inv V J root s \<Longrightarrow> ok (finish_zone (zenv V) n p pool cx s) (\<lambda>(x, cx', s'). state_inv V J root s')"
  using J_new [of "snd s" n p pool]
  by (auto simp: finish_zone_def zenv_def lift_env_def state_inv_def store_inv_def split: prod.split)

lemma enrichPool_keeps:
  assumes ex: "keeps (state_inv V J root) ex" and s: "state_inv V J root s"
  shows "ok (enrichPool L v (rtime V) ex pool cx s) (\<lambda>(e, pool', cx', s'). state_inv V J root s')"
  using ip6_inv [OF s]
  by (auto simp: enrichPool_def Let_def case_prod_beta wpG_bindG s split: option.split
      intro!: wpG_mono [OF enrich_until_done_keeps [OF ex]] wpG_mono [OF enrich_rest_keeps [OF ex]] ip6_inv)

lemma createZone_keeps:
  assumes ex: "keeps (state_inv V J root) ex" and s: "state_inv V J root s"
  shows "ok (createZone L v (rtime V) (zenv V) ex name parent nss extra cx s) (\<lambda>(x, cx', s'). state_inv V J root s')"
  by (auto simp: createZone_def Let_def case_prod_beta wpG_bindG s ip6_inv [OF s] split: NameserverPoolStatus.split
      intro!: finish_zone_inv wpG_mono [OF enrichPool_keeps [OF ex]])

lemma createZone_inv:
  assumes L: "lib_names (rs_lib V)" and ex: "keeps (state_inv V J root) ex" and s: "state_inv V J root s"
  shows "ok (createZone (rs_lib V) v (rtime V) (zenv V) ex n p nss extra cx s)
     (\<lambda>((zo, e), cx', s'). state_inv V J root s' \<and> (\<forall>z. zo = Some z \<longrightarrow> below_parent V z))"
proof (cases "createZone (rs_lib V) v (rtime V) (zenv V) ex n p nss extra cx s")
  case (Inr x)
  obtain zo err cx' s' where x: "x = ((zo, err), cx', s')" by (metis prod.exhaust)
  have "state_inv V J root s'"
    using wpG_Inr [OF createZone_keeps [OF ex s] Inr] x by simp
  moreover have "below_parent V z" if "zo = Some z" for z
    using createZone_names [OF Inr [unfolded x that]]
    by (intro below_parentI [OF L, of _ n p]) (auto simp: subdomain_spelling [OF L])
  ultimately show ?thesis unfolding Inr x by simp
qed simp

lemma processDelegation_inv:
  assumes "lib_names (rs_lib V)" "keeps (state_inv V J root) ex" "state_inv V J root s"
  shows "ok (processDelegation V ex z m cx s) (\<lambda>(x, cx', s'). state_inv V J root s')"
  using assms(3)
  by (auto simp: processDelegation_def Let_def wpG_bindG store_zone_state split: list.split option.split
      intro!: wpG_mono [OF createZone_inv [OF assms]])

lemma finaliseResponse_inv:
  assumes "keeps (state_inv V J root) ex" "state_inv V J root s"
  shows "ok (finaliseResponse V ex auth qmsg r cx s) (\<lambda>(r', cx', s'). state_inv V J root s')"
  using assms
  by (auto simp: finaliseResponse_def wp_simps split: option.split
      intro!: ok_trivial [where m = "authenticate_response V auth r m" for m] wpG_mono [OF cname_keeps [OF assms]])

text \<open>What \<open>resolveLabel\<close> does with the reply of a zone.\<close>

lemma give_reply_inv:
  assumes L: "lib_names (rs_lib V)" and ex: "keeps (state_inv V J root) ex" and s: "state_inv V J root s"
  shows "ok (bindG (give_response V auth z m s) (\<lambda>(auth, s).
          if is_delegation m then bindG (processDelegation V ex z m cx s) (\<lambda>(res, cx, s). Inr (res, d, q, auth, cx, s))
          else bindG (finaliseResponse V ex auth q r cx s) (\<lambda>(r, cx, s). Inr ((None, Some r), d, q, auth, cx, s))))
     (\<lambda>(x, d', q', auth', cx', s'). state_inv V J root s')" (is "ok _ ?Q")
proof -
  have after: "ok (bindG (processDelegation V ex z m cx s1) (\<lambda>(res, cx, s). Inr (res, d, q, auth1, cx, s))) ?Q"
    "ok (bindG (finaliseResponse V ex auth1 q r cx s1) (\<lambda>(r, cx, s). Inr ((None, Some r), d, q, auth1, cx, s))) ?Q"
    if "state_inv V J root s1" for s1 auth1
    by (auto simp: wpG_bindG intro!: wpG_mono [OF processDelegation_inv [OF L ex that]] wpG_mono [OF finaliseResponse_inv [OF ex that]])
  show ?thesis
    unfolding wpG_bindG [of _ "give_response V auth z m s"]
    by (rule wpG_mono [OF give_response_frame [OF state_invD [OF s]]]) (auto intro!: after state_inv_frame [OF s])
qed

lemma reply_inv:
  assumes L: "lib_names (rs_lib V)" and ex: "keeps (state_inv V J root) ex" and s: "state_inv V J root s"
  shows "ok (bindG (checkForMissingZones V d z m auth s) (\<lambda>(z, d, auth, s).
        bindG (give_response V auth z m s) (\<lambda>(auth, s).
          if is_delegation m then bindG (processDelegation V ex z m cx s) (\<lambda>(res, cx, s). Inr (res, d, q, auth, cx, s))
          else bindG (finaliseResponse V ex auth q r cx s) (\<lambda>(r, cx, s). Inr ((None, Some r), d, q, auth, cx, s)))))
     (\<lambda>(x, d', q', auth', cx', s'). state_inv V J root s')"
  unfolding wpG_bindG [of _ "checkForMissingZones V d z m auth s"]
  by (rule wpG_mono [OF checkForMissingZones_inv [OF L s]]) (auto intro!: give_reply_inv [OF L ex])

lemma resolveLabel_inv:
  assumes L: "lib_names (rs_lib V)" and ex: "keeps (state_inv V J root) ex" and s: "state_inv V J root s"
  shows "ok (resolveLabel V ex d zo qmsg auth cx s) (\<lambda>(x, d', q', auth', cx', s'). state_inv V J root s')"
proof (cases zo)
  case (Some z)
  let ?Q = "\<lambda>(x, d', q', auth', cx', s'). state_inv V J root s'"
  have "ok (prefetch_keys V auth z s) (\<lambda>s1. state_inv V J root s1)"
    by (rule wpG_mono [OF prefetch_frame [OF state_invD [OF s]]]) (rule state_inv_frame [OF s])
  then show ?thesis
    unfolding resolveLabel_def Some option.case wpG_bindG [of _ "prefetch_keys V auth z s"]
  proof (rule wpG_mono)
    fix s1
    assume s1: "state_inv V J root s1"
    show "ok (bindG (zm_exchange (zenv V) z qmsg s1) (\<lambda>(response, qmsg, s).
            if HasError response then Inr ((None, response), d, qmsg, auth, cx, s)
            else
              case (case response of Some r \<Rightarrow> (case Msg r of Some m \<Rightarrow> Some (r, m) | None \<Rightarrow> None) | None \<Rightarrow> None) of
                None \<Rightarrow> Inr ((None, Some (newResponseError (Wrap [RErr ErrEmptyResponse]))), d, qmsg, auth, cx, s)
              | Some (r, m) \<Rightarrow>
                  bindG (checkForMissingZones V d z m auth s) (\<lambda>(z, d, auth, s).
                  bindG (give_response V auth z m s) (\<lambda>(auth, s).
                    if is_delegation m then
                      bindG (processDelegation V ex z m cx s) (\<lambda>(res, cx, s). Inr (res, d, qmsg, auth, cx, s))
                    else
                      bindG (finaliseResponse V ex auth qmsg r cx s) (\<lambda>(r, cx, s).
                        Inr ((None, Some r), d, qmsg, auth, cx, s)))))) ?Q"
      unfolding wpG_bindG [of _ "zm_exchange (zenv V) z qmsg s1"]
      by (rule wpG_mono [OF zone_calls_frame(1) [OF state_invD [OF s1]]])
         (auto split: option.split intro!: reply_inv [OF L ex] state_inv_frame [OF s1])
  qed
qed (simp add: resolveLabel_def s)

lemma exchange_loop_inv:
  assumes L: "lib_names (rs_lib V)" and ex: "keeps (state_inv V J root) ex"
  shows "state_inv V J root s \<Longrightarrow> ok (exchange_loop V ex n d zo qmsg auth cx s) (\<lambda>(r, cx', s'). state_inv V J root s')"
proof (induction n arbitrary: d zo qmsg auth cx s)
  case (Suc n)
  obtain count cx1 where c: "count_query cx = (count, cx1)" by fastforce
  show ?case
    by (auto simp: Let_def c wpG_bindG Suc split: option.split
        intro!: wpG_mono [OF resolveLabel_inv [OF L ex Suc.prems]] Suc.IH)
qed simp

lemma exchange_inv:
  assumes L: "lib_names (rs_lib V)" and ex: "keeps (state_inv V J root) ex"
  shows "keeps (state_inv V J root) (exchange V ex)"
  unfolding keeps_def
proof (intro allI impI)
  fix cx qmsg s
  assume s: "state_inv V J root s"
  let ?Q = "\<lambda>(r, cx', s'). state_inv V J root s'"
  have loop: "ok (case windTo (rs_lib V) d0 n of (err, d) \<Rightarrow>
        (case err of Some e \<Rightarrow> Inr (Some (newResponseError e), cx1, s1)
         | None \<Rightarrow> exchange_loop V ex k d (Some z) qmsg auth cx1 s1)) ?Q"
    if "state_inv V J root s1" for d0 n cx1 s1 k z auth
    using that by (auto split: prod.split option.split intro!: exchange_loop_inv [OF L ex])
  have linked: "ok (link_known V zs auth s1) (\<lambda>(auth', s2). state_inv V J root s2)" if "state_inv V J root s1" for zs auth s1
    by (rule wpG_mono [OF link_known_frame [OF state_invD [OF that]]]) (auto intro: state_inv_frame [OF that])
  have "ok (setup_ctx V cx s) (\<lambda>(cx1, s1). state_inv V J root s1)"
    by (rule wpG_mono [OF setup_ctx_frame [OF state_invD [OF s]]]) (auto intro: state_inv_frame [OF s])
  then show "ok (exchange V ex cx qmsg s) ?Q"
    unfolding exchange_def wpG_bindG Let_def wpG_go_nth
    by (rule wpG_mono) (auto simp: wpG_bindG wpG_go_nth
        intro!: ok_trivial [where m = "start_auth V qmsg s1" for s1] wpG_mono [OF linked] loop)
qed

lemma resolver_exchange_inv:
  assumes "lib_names (rs_lib V)"
  shows "keeps (state_inv V J root) (resolver_exchange V n)"
proof (induction n)
  case (Suc n)
  have "resolver_exchange V (Suc n) = exchange V (resolver_exchange V n)" by (intro ext) simp
  with exchange_inv [OF assms Suc] show ?case by simp
qed (simp add: keeps_def)

end

end
