(* ===== verification/Resolver_Auth.thy ===== *)
theory Resolver_Auth
  imports Resolver_Exchange
begin

text \<open>
  What the resolver does to an authenticator: it only feeds it. A property \<open>K\<close> of the
  authenticator of the dnssec package, if there is one, that \<open>AddResponse\<close> keeps therefore holds wherever the
  resolver passes the authenticator on. The interface \<open>auth_keeper\<close> states that once; it is
  used for the end of the calls in Resolver\_Bounds and for the chain of trust in
  Resolver\_Validation.
\<close>

definition auth_holds :: "(Authenticator option \<Rightarrow> bool) \<Rightarrow> authenticator option \<Rightarrow> bool" where
  "auth_holds K auth = K (map_option au_auth auth)"

lemma auth_holds_simps [simp]: "auth_holds K None = K None" "auth_holds K (Some a) = K (Some (au_auth a))"
  by (simp_all add: auth_holds_def)

locale auth_keeper =
  fixes V :: "('z, 'w) resolver" and X :: "panic \<Rightarrow> bool" and K :: "Authenticator option \<Rightarrow> bool"
  assumes K_AddResponse: "K (Some d) \<Longrightarrow> wpG X (AddResponse (rs_lib V) (rs_dnssec V) d zone m) (\<lambda>(e, d'). K (Some d'))"
    and zone_calls: "wpG X (zm_exchange (zenv V) z q s) (\<lambda>_. True)" "wpG X (zm_soa (zenv V) z n s) (\<lambda>_. True)"
      "wpG X (zm_dnskeys (zenv V) z s) (\<lambda>_. True)" "wpG X (zm_clone (zenv V) z n p s) (\<lambda>_. True)"
    and index_panic: "X IndexOutOfRange"
begin

lemma worker_holds:
  "K (Some (au_auth a)) \<Longrightarrow> wpG X (worker (rs_lib V) (rs_dnssec V) (zenv V) z m a s) (\<lambda>(a', s'). K (Some (au_auth a')))"
  unfolding worker_def authZone_def wpG_bindG
  by (rule wpG_mono [OF zone_calls(3)]) (auto simp: wpG_bindG intro!: wpG_mono [OF K_AddResponse])

lemma addDS_holds:
  assumes "K (Some (au_auth a))"
  shows "wpG X (addDelegationSignerLink (rs_lib V) (rs_dnssec V) (zenv V) sz z n a s) (\<lambda>(a', s'). K (Some (au_auth a')))"
proof (cases "au_finished a")
  case False
  have "wpG X (bindG (zm_exchange (zenv V) z (ds_query (rs_lib V) sz n) s1) (\<lambda>(response, _, s).
          case response of None \<Rightarrow> Inr (a, s)
          | Some r \<Rightarrow> (case Msg r of None \<Rightarrow> Inr (a, s)
               | Some m \<Rightarrow> (if Err r = None then worker (rs_lib V) (rs_dnssec V) (zenv V) z m a s else Inr (a, s)))))
      (\<lambda>(a', s'). K (Some (au_auth a')))" for s1
    unfolding wpG_bindG
    by (rule wpG_mono [OF zone_calls(1)]) (use assms in \<open>auto split: option.split intro!: worker_holds\<close>)
  with False show ?thesis
    unfolding addDelegationSignerLink_def if_not_P [OF False] wpG_bindG [of _ "zm_dnskeys (zenv V) z s"]
    by (intro wpG_mono [OF zone_calls(3)]) auto
qed (use assms in \<open>simp add: addDelegationSignerLink_def\<close>)

lemma link_new_zone_holds:
  "auth_holds K auth \<Longrightarrow> wpG X (link_new_zone V z n auth s) (\<lambda>(auth', s'). auth_holds K auth')"
  by (auto simp: link_new_zone_def wpG_bindG split: option.split intro!: wpG_mono [OF addDS_holds])

lemma give_response_holds:
  "auth_holds K auth \<Longrightarrow> wpG X (give_response V auth z m s) (\<lambda>(auth', s'). auth_holds K auth')"
  by (auto simp: give_response_def addResponse_def wpG_bindG split: option.split intro!: wpG_mono [OF worker_holds])

lemma prefetch_keys_calls: "wpG X (prefetch_keys V auth z s) (\<lambda>_. True)"
  by (auto simp: prefetch_keys_def wpG_bindG intro!: wpG_mono [OF zone_calls(3)])

lemma link_known_holds:
  "auth_holds K auth \<Longrightarrow> wpG X (link_known V zs auth s) (\<lambda>(auth', s'). auth_holds K auth')"
proof (induction zs arbitrary: auth s rule: induct_list012)
  case (3 z0 z1 zs)
  show ?case unfolding link_known.simps wpG_bindG
    by (rule wpG_mono [OF link_new_zone_holds [OF "3.prems"]]) (auto intro!: "3.IH"(2))
qed auto

lemma missing_loop_holds:
  "auth_holds K auth \<Longrightarrow> wpG X (missing_loop V names d z auth s) (\<lambda>(z', d', auth', s'). auth_holds K auth')"
proof (induction names arbitrary: d z auth s)
  case (Cons n names)
  have clone: "wpG X (bindG (zm_clone (zenv V) z n (zm_name (zenv V) z) s1) (\<lambda>(newZone, s).
      bindG (link_new_zone V z (zm_name (zenv V) newZone) auth s) (\<lambda>(auth, s).
        missing_loop V names (next_label d) newZone auth (store_zone V newZone s)))) (\<lambda>(z', d', auth', s'). auth_holds K auth')" for s1
    unfolding wpG_bindG
    by (rule wpG_mono [OF zone_calls(4)]) (auto simp: wpG_bindG intro!: wpG_mono [OF link_new_zone_holds [OF Cons.prems]] Cons.IH)
  show ?case unfolding missing_loop.simps wpG_bindG [of _ "zm_soa (zenv V) z n s"]
    by (rule wpG_mono [OF zone_calls(2)]) (use Cons.prems in \<open>auto intro!: clone Cons.IH\<close>)
qed simp

lemma gap_calls: "wpG X (gap L d n) (\<lambda>_. True)"
proof -
  have "wpG X (mapG f xs) (\<lambda>_. True)" if "\<And>x. wpG X (f x) (\<lambda>_. True)" for f :: "nat \<Rightarrow> string go" and xs
    by (induction xs) (auto simp: wpG_bindG intro!: wpG_mono [OF that] wpG_mono)
  then show ?thesis using index_panic by (auto simp: gap_def Let_def wp_simps)
qed

lemma checkForMissingZones_holds:
  "auth_holds K auth \<Longrightarrow> wpG X (checkForMissingZones V d z m auth s) (\<lambda>(z', d', auth', s'). auth_holds K auth')"
  by (auto simp: checkForMissingZones_def Let_def wpG_bindG intro!: wpG_mono [OF gap_calls] missing_loop_holds)

end

end
