(* ===== verification/Dnssec_Ends.thy ===== *)
theory Dnssec_Ends
  imports Dnssec_Authenticator
begin

text \<open>
  The functions of the dnssec package come to an end: none of them runs out of fuel, whatever
  the library and the messages are. The resolver's termination proof uses this for the calls
  that it makes into the authenticator.
\<close>

lemma try_keys_ends [nofuel_intros]: "nofuel (try_keys L sig ks)"
  by (induction ks arbitrary: sig) (auto split: option.split)

lemma authenticate_one_ends [nofuel_intros]: "nofuel (authenticate_one L t zone rrs ks s)"
  by (auto simp: authenticate_one_def Let_def intro!: nofuel_intros)

lemma authenticate_all_ends [nofuel_intros]: "nofuel (authenticate_all L clk i zone rrs ks ss)"
  by (induction ss arbitrary: i) (auto intro!: nofuel_intros)

lemma authenticate_ends [nofuel_intros]: "nofuel (authenticate L clk zone rrs ks sect)"
  by (auto simp: authenticate_def Let_def intro!: nofuel_intros)

lemma ds_matches_ends [nofuel_intros]: "nofuel (ds_matches L d k)"
  by (auto simp: ds_matches_def split: option.split)

lemma find_key_ends [nofuel_intros]: "nofuel (find_key L d ks)"
  by (induction ks) (auto intro!: nofuel_intros)

lemma keySigningKeys_ends [nofuel_intros]: "nofuel (keySigningKeys L dss ks)"
  by (induction dss) (auto intro!: nofuel_intros)

lemma verifyDNSKEYs_ends [nofuel_intros]: "nofuel (verifyDNSKEYs L cfg clk r keys dss)"
  by (auto simp: verifyDNSKEYs_def Let_def split: option.split prod.split intro!: nofuel_intros)

lemma verifyRRSETs_ends [nofuel_intros]: "nofuel (verifyRRSETs L cfg clk1 clk2 r keys)"
  by (auto simp: verifyRRSETs_def split: option.split prod.split intro!: nofuel_intros)

lemma go_nth_int_ends [nofuel_intros]: "nofuel (go_nth_int xs i)"
  by (simp add: go_nth_int_def)

lemma wildcard_proofs_end [nofuel_intros]:
  "nofuel (nsec_wildcard L nsec r)" "nofuel (nsec3_wildcard L nsec3 sig)"
  by (auto simp: nsec_wildcard_def nsec3_wildcard_def nsec3_PerformExpandedWildcardProof_def Let_def intro!: nofuel_intros)

lemma positive_loop_ends [nofuel_intros]: "nofuel (positive_loop L nsec nsec3 sigs r seen ver)"
  by (induction sigs arbitrary: r seen ver) (auto intro!: nofuel_intros)

lemma validate_ends [nofuel_intros]:
  "nofuel (validateDelegatingResponse L r)" "nofuel (validatePositiveResponse L r)" "nofuel (validateNegativeResponse L r)"
  by (auto simp: validateDelegatingResponse_def validatePositiveResponse_def validateNegativeResponse_def Let_def
      intro!: nofuel_intros)

lemma classify_response_ends [nofuel_intros]: "nofuel (classify_response L r)"
  by (auto simp: classify_response_def return_step_def Let_def split: prod.split intro!: nofuel_intros)

lemma verify_ends [nofuel_intros]: "nofuel (verify L cfg clk zone m dss)"
  by (auto simp: verify_def Let_def split: sum.split prod.split intro!: nofuel_intros)

text \<open>The authenticator, for a verifier that ends.\<close>

definition verifier_ends :: "Authenticator \<Rightarrow> bool" where
  "verifier_ends a \<longleftrightarrow> (\<forall>n z m dss. nofuel (a_verify a n z m dss))"

lemma NewAuth_ends: "verifier_ends (NewAuth L cfg clk q)"
  by (simp add: verifier_ends_def NewAuth_def Let_def verify_ends)

lemma processResponse_ends:
  assumes "verifier_ends a"
  shows "nofuel (processResponse L cfg a zone m)"
  using assms by (auto simp: processResponse_def verifier_ends_def split: option.split intro!: nofuel_intros)

lemma add_loop_ends:
  "verifier_ends a \<Longrightarrow> wpG (\<lambda>p. p \<noteq> OutOfFuel) (add_loop L cfg a) (\<lambda>(e, a'). verifier_ends a')"
proof (induction L cfg a rule: add_loop.induct)
  case (1 L cfg a)
  show ?case
  proof (cases "inputBufferIdx a < length (inputBuffer a) \<and> inputBuffer a ! inputBufferIdx a \<noteq> None")
    case True
    then obtain inp where i: "inputBufferIdx a < length (inputBuffer a)" "inputBuffer a ! inputBufferIdx a = Some inp" by auto
    show ?thesis
    proof (cases "processResponse L cfg a (in_zone inp) (in_msg inp)")
      case (Inl p)
      with processResponse_ends [OF "1.prems"] i show ?thesis
        by (subst add_loop.simps) (auto simp: nofuel_def)
    next
      case (Inr v)
      obtain e a' where v: "v = (e, a')" by (cases v)
      have a': "verifier_ends a'" using processResponse_frame(4) [OF Inr [unfolded v]] "1.prems" by (simp add: verifier_ends_def)
      have next_ok: "verifier_ends (a'\<lparr>inputBufferIdx := inputBufferIdx a' + 1\<rparr>)" using a' by (simp add: verifier_ends_def)
      show ?thesis
        using i Inr v a' "1.IH" [OF i Inr v [symmetric]] next_ok by (subst add_loop.simps) (cases e, auto)
    qed
  next
    case False
    with "1.prems" show ?thesis by (subst add_loop.simps) (auto split: option.split)
  qed
qed

lemma result_loop_ends:
  "verifier_ends a \<Longrightarrow> wpG (\<lambda>p. p \<noteq> OutOfFuel) (result_loop L cfg a) (\<lambda>(e, a'). verifier_ends a')"
proof (induction L cfg a rule: result_loop.induct)
  case (1 L cfg a)
  show ?case
  proof (cases "inputBufferIdx a < length (inputBuffer a)")
    case idx: True
    show ?thesis
    proof (cases "inputBuffer a ! inputBufferIdx a")
      case None
      have "verifier_ends (a\<lparr>inputBufferIdx := inputBufferIdx a + 1\<rparr>)" using "1.prems" by (simp add: verifier_ends_def)
      with "1.IH"(1) [OF idx None] idx None show ?thesis by (subst result_loop.simps) simp
    next
      case (Some inp)
      show ?thesis
      proof (cases "processResponse L cfg a (in_zone inp) (in_msg inp)")
        case (Inl p)
        with processResponse_ends [OF "1.prems"] idx Some show ?thesis
          by (subst result_loop.simps) (auto simp: nofuel_def)
      next
        case (Inr v)
        obtain e a' where v: "v = (e, a')" by (cases v)
        have a': "verifier_ends a'" using processResponse_frame(4) [OF Inr [unfolded v]] "1.prems" by (simp add: verifier_ends_def)
        have next_ok: "verifier_ends (a'\<lparr>inputBufferIdx := inputBufferIdx a' + 1\<rparr>)" using a' by (simp add: verifier_ends_def)
        show ?thesis
          using idx Some Inr v a' "1.IH"(2) [OF idx Some Inr v [symmetric]] next_ok by (subst result_loop.simps) (cases e, auto)
      qed
    qed
  next
    case False
    with "1.prems" show ?thesis by (subst result_loop.simps) simp
  qed
qed

lemma AddResponse_ends:
  assumes "verifier_ends a"
  shows "wpG (\<lambda>p. p \<noteq> OutOfFuel) (AddResponse L cfg a zone m) (\<lambda>(e, a'). verifier_ends a')"
  using assms by (auto simp: AddResponse_def wp_simps Let_def verifier_ends_def intro!: add_loop_ends [unfolded verifier_ends_def])

lemma chain_loop_ends [nofuel_intros]: "nofuel (chain_loop L previous rs)"
  by (induction rs arbitrary: previous) (auto simp: insecure_step_def split: option.split intro!: nofuel_intros)

lemma conclude_ends [nofuel_intros]: "nofuel (conclude L q rs)"
  by (auto simp: conclude_def split: option.split intro!: nofuel_intros)

lemma Result_ends:
  assumes "verifier_ends a"
  shows "nofuel (Result L cfg a)"
  unfolding wpG_nofuel Result_def wpG_bindG
  by (rule wpG_mono [OF result_loop_ends [OF assms]])
     (auto simp: wpG_bindG split: option.split intro!: conclude_ends [unfolded wpG_nofuel])

end
