(* ===== verification/Resolver_Bounds.thy ===== *)
theory Resolver_Bounds
  imports Resolver_Auth Dnssec_Ends
begin

text \<open>
  Termination of the resolver. The query counter of a session grows with every iteration of
  the main loop, and the loop stops once it exceeds \<open>MaxQueriesPerRequest\<close>. Nested exchanges
  (for CNAME targets and for the addresses of nameservers) share the counter and start only
  from an iteration below the limit, so their depth is bounded too. The counter is a 32-bit
  word: it may exceed the limit, once per refused exchange, and the bound on the excess below
  keeps it from wrapping around.
\<close>

section \<open>Bounds on the counter\<close>

definition queries :: "ctx \<Rightarrow> nat" where
  "queries cx = (case ctxSessionQueries cx of Some n \<Rightarrow> unat n | None \<Rightarrow> 0)"

abbreviation ends :: "'a go \<Rightarrow> ('a \<Rightarrow> bool) \<Rightarrow> bool" where
  "ends m Q \<equiv> wpG (\<lambda>p. p \<noteq> OutOfFuel) m Q"

abbreviation (input) top_count :: nat where "top_count \<equiv> 2 ^ 32 - 2"

text \<open>
  An exchanger within bounds, for counters from \<open>lo\<close> on: it ends, the counter does not
  fall and exceeds \<open>M\<close> by at most \<open>k\<close> (or by one more than before), and only a response with
  an error leaves it above \<open>M\<close>.
\<close>

definition within :: "nat \<Rightarrow> nat \<Rightarrow> nat \<Rightarrow> 's exchanger \<Rightarrow> bool" where
  "within M k lo ex \<longleftrightarrow> (\<forall>cx m s. lo \<le> queries cx \<longrightarrow> queries cx \<le> top_count \<longrightarrow>
     ends (ex cx m s) (\<lambda>(r, cx', s'). queries cx \<le> queries cx' \<and> queries cx' \<le> max (queries cx + 1) (M + k) \<and>
       (HasError r \<or> queries cx' \<le> M)))"

definition auth_ends :: "Authenticator option \<Rightarrow> bool" where
  "auth_ends d = (case d of None \<Rightarrow> True | Some d \<Rightarrow> verifier_ends d)"

lemma auth_ends_simps [simp]: "auth_ends None" "auth_ends (Some d) = verifier_ends d"
  by (simp_all add: auth_ends_def)

lemma withinD:
  "within M k lo ex \<Longrightarrow> lo \<le> queries cx \<Longrightarrow> queries cx \<le> top_count \<Longrightarrow>
     ends (ex cx m s) (\<lambda>(r, cx', s'). queries cx \<le> queries cx' \<and> queries cx' \<le> max (queries cx + 1) (M + k) \<and>
       (HasError r \<or> queries cx' \<le> M))"
  unfolding within_def by blast

lemma count_query_queries:
  assumes "queries cx \<le> top_count" "count_query cx = (n, cx')"
  shows "unat n = queries cx + 1" "queries cx' = queries cx + 1"
proof -
  let ?c = "case ctxSessionQueries cx of Some n \<Rightarrow> n | None \<Rightarrow> 0"
  have c: "unat ?c = queries cx" by (simp add: queries_def split: option.split)
  have "unat ?c + unat (1 :: u32) < 2 ^ LENGTH(32)" using assms(1) unfolding c by simp
  then have "unat (?c + 1) = unat ?c + 1" by (simp add: unat_add_lem [THEN iffD1])
  moreover have "n = ?c + 1" "ctxSessionQueries cx' = Some (?c + 1)" using assms(2) by (auto simp: count_query_def Let_def)
  ultimately show "unat n = queries cx + 1" "queries cx' = queries cx + 1" using c by (simp_all add: queries_def)
qed

section \<open>The functions that call the exchanger\<close>

lemma cname_loop_within:
  assumes ex: "within M k lo ex" and k: "1 \<le> k" "M \<le> top_count"
  shows "lo \<le> queries cx \<Longrightarrow> queries cx \<le> M \<Longrightarrow>
     ends (cname_loop L sz ex qmsg t cs m a cx s)
       (\<lambda>(e, m', a', cx', s'). queries cx \<le> queries cx' \<and> queries cx' \<le> M + k \<and> (e \<noteq> None \<or> queries cx' \<le> M))"
proof (induction cs arbitrary: m a cx s)
  case (Cons c cs)
  obtain h n where c: "c = (h, n)" by (cases c)
  let ?P = "\<lambda>cx (e, m', a', cx', s'). queries cx \<le> queries cx' \<and> queries cx' \<le> M + k \<and> (e \<noteq> None \<or> queries cx' \<le> M)"
  have call: "ends (ex cx q s) (\<lambda>(r, cx', s'). queries cx \<le> queries cx' \<and> queries cx' \<le> M + k \<and> (HasError r \<or> queries cx' \<le> M))" for q
    by (rule wpG_mono [OF withinD [OF ex]]) (use Cons.prems k in auto)
  have rec: "ends (cname_loop L sz ex qmsg t cs m1 a1 cx1 s1) (?P cx)" if "queries cx \<le> queries cx1" "queries cx1 \<le> M" for m1 a1 cx1 s1
    by (rule wpG_mono [OF Cons.IH]) (use that Cons.prems in auto)
  show ?case
    unfolding c cname_loop.simps Let_def
  proof (split if_split, intro conjI impI)
    show "ends (cname_loop L sz ex qmsg t cs m a cx s) (?P cx)" by (rule rec) (use Cons.prems in auto)
    show "ends (bindG (ex cx (cname_query L sz qmsg t (CanonicalName L n)) s) (\<lambda>(r, cx, w).
        case r of None \<Rightarrow> Inr (Some MsgErr, m, a, cx, w)
        | Some c \<Rightarrow> if Err c \<noteq> None then Inr (Err c, m, a, cx, w)
            else case Msg c of None \<Rightarrow> Inr (Some MsgErr, m, a, cx, w)
              | Some cm \<Rightarrow> cname_loop L sz ex qmsg t cs (add_cname_response m cm) (Combine a (Auth c)) cx w)) (?P cx)"
      unfolding wpG_bindG by (rule wpG_mono [OF call]) (auto split: option.split intro!: rec [simplified])
  qed
qed simp

lemma cname_within:
  assumes "within M k lo ex" "1 \<le> k" "M \<le> top_count" "lo \<le> queries cx" "queries cx \<le> M"
  shows "ends (cname L sz ex qmsg r cx s)
     (\<lambda>(e, r', cx', s'). queries cx \<le> queries cx' \<and> queries cx' \<le> M + k \<and> (e \<noteq> None \<or> queries cx' \<le> M))"
  by (auto simp: cname_def wp_simps split: option.split intro!: wpG_mono [OF cname_loop_within [OF assms]])

lemma enrich_until_done_within:
  assumes ex: "within M k lo ex"
  shows "lo \<le> queries cx \<Longrightarrow> queries cx \<le> M + k + j \<Longrightarrow> M + k + j + length qs \<le> top_count \<Longrightarrow>
     ends (enrich_until_done L v R ex qs pool cx s) (\<lambda>(d, pool', cx', s'). queries cx \<le> queries cx' \<and>
       queries cx' + (case d of None \<Rightarrow> 0 | Some qs' \<Rightarrow> length qs') \<le> M + k + j + length qs \<and>
       (case d of None \<Rightarrow> 0 | Some qs' \<Rightarrow> length qs') \<le> length qs)"
proof (induction qs arbitrary: j pool cx s)
  case (Cons q qs)
  obtain t h where q: "q = (t, h)" by (cases q)
  have call: "ends (ex cx m s) (\<lambda>(r, cx', s'). queries cx \<le> queries cx' \<and> queries cx' \<le> M + k + (j + 1))" for m
    by (rule wpG_mono [OF withinD [OF ex]]) (use Cons.prems in auto)
  have rec: "ends (enrich_until_done L v R ex qs pool cx1 s1) (\<lambda>(d, pool', cx', s'). queries cx \<le> queries cx' \<and>
       queries cx' + (case d of None \<Rightarrow> 0 | Some qs' \<Rightarrow> length qs') \<le> M + k + j + length (q # qs) \<and>
       (case d of None \<Rightarrow> 0 | Some qs' \<Rightarrow> length qs') \<le> length (q # qs))"
    if "queries cx \<le> queries cx1" "queries cx1 \<le> M + k + (j + 1)" for cx1 s1
    by (rule wpG_mono [OF Cons.IH [of _ "j + 1"]]) (use that Cons.prems in auto)
  show ?case
    unfolding q enrich_until_done.simps wpG_bindG
    by (rule wpG_mono [OF call]) (auto split: option.split intro!: rec [unfolded q, simplified])
qed simp

lemma enrich_rest_within:
  assumes ex: "within M k lo ex"
  shows "lo \<le> queries cx \<Longrightarrow> queries cx \<le> M + k + j \<Longrightarrow> M + k + j + length qs \<le> top_count \<Longrightarrow>
     ends (enrich_rest L v R ex qs pool cx s) (\<lambda>(pool', cx', s'). queries cx \<le> queries cx' \<and> queries cx' \<le> M + k + j + length qs)"
proof (induction qs arbitrary: j pool cx s)
  case (Cons q qs)
  obtain t h where q: "q = (t, h)" by (cases q)
  have call: "ends (ex cx m s) (\<lambda>(r, cx', s'). queries cx \<le> queries cx' \<and> queries cx' \<le> M + k + (j + 1))" for m
    by (rule wpG_mono [OF withinD [OF ex]]) (use Cons.prems in auto)
  have rec: "ends (enrich_rest L v R ex qs pool1 cx1 s1)
      (\<lambda>(pool', cx', s'). queries cx \<le> queries cx' \<and> queries cx' \<le> M + k + j + length (q # qs))"
    if "queries cx \<le> queries cx1" "queries cx1 \<le> M + k + (j + 1)" for pool1 cx1 s1
    by (rule wpG_mono [OF Cons.IH [of _ "j + 1"]]) (use that Cons.prems in auto)
  show ?case
    unfolding q enrich_rest.simps wpG_bindG
    by (rule wpG_mono [OF call]) (auto split: option.split intro!: rec [unfolded q, simplified])
qed simp

text \<open>Enrichment makes at most \<open>B\<close> exchanges.\<close>

lemma enrichPool_within:
  assumes ex: "within M k lo ex" and B: "2 * DesireNumberOfNameserversPerZone v \<le> B" "M + k + B \<le> top_count"
    and c: "lo \<le> queries cx" "queries cx \<le> M"
  shows "ends (enrichPool L v R ex pool cx s) (\<lambda>(e, pool', cx', s'). queries cx \<le> queries cx' \<and> queries cx' \<le> M + k + B)"
proof (cases "hostsWithoutAddresses pool = []")
  case False
  obtain ip6 s1 where ip6: "rt_ip6 R s = (ip6, s1)" by (cases "rt_ip6 R s")
  let ?qs = "enrichment_queries v ip6 (hostsWithoutAddresses pool)"
  have len: "length ?qs \<le> B" using enrichment_queries_bound [of v ip6 "hostsWithoutAddresses pool"] B(1) by linarith
  have first: "ends (enrich_until_done L v R ex ?qs pool cx s1) (\<lambda>(d, pool', cx', s'). queries cx \<le> queries cx' \<and>
       queries cx' + (case d of None \<Rightarrow> 0 | Some qs' \<Rightarrow> length qs') \<le> M + k + B \<and>
       (case d of None \<Rightarrow> 0 | Some qs' \<Rightarrow> length qs') \<le> B)"
    by (rule wpG_mono [OF enrich_until_done_within [OF ex, of _ 0]]) (use c B len in auto)
  have rest: "ends (enrich_rest L v R ex qs pool' cx' s')
      (\<lambda>(pool', cx'', s'). queries cx \<le> queries cx'' \<and> queries cx'' \<le> M + k + B)"
    if "queries cx \<le> queries cx'" "queries cx' + length qs \<le> M + k + B" "length qs \<le> B" for qs pool' cx' s'
  proof (rule wpG_mono [OF enrich_rest_within [OF ex, of _ "B - length qs"]])
    show "lo \<le> queries cx'" "queries cx' \<le> M + k + (B - length qs)" "M + k + (B - length qs) + length qs \<le> top_count"
      using that c B by auto
  qed (use that c B in auto)
  show ?thesis
    using False
    by (auto simp: enrichPool_def Let_def ip6 wpG_bindG split: option.split prod.split
        intro!: wpG_mono [OF first] wpG_mono [OF rest])
qed (use c in \<open>simp add: enrichPool_def\<close>)

lemma createZone_within:
  assumes "within M k lo ex" "2 * DesireNumberOfNameserversPerZone v \<le> B" "M + k + B \<le> top_count"
    and c: "lo \<le> queries cx" "queries cx \<le> M"
  shows "ends (createZone L v R E ex n p nss extra cx s) (\<lambda>(x, cx', s'). queries cx \<le> queries cx' \<and> queries cx' \<le> M + k + B)"
proof -
  have fin: "ends (finish_zone E n p pool cx' s') (\<lambda>(x, cx'', s'). queries cx \<le> queries cx'' \<and> queries cx'' \<le> M + k + B)"
    if "queries cx \<le> queries cx'" "queries cx' \<le> M + k + B" for n p pool cx' s'
    using that by (auto simp: finish_zone_def split: prod.split)
  obtain ip6 s1 where ip6: "rt_ip6 R s = (ip6, s1)" by (cases "rt_ip6 R s")
  show ?thesis
    using c by (auto simp: createZone_def Let_def ip6 wpG_bindG split: NameserverPoolStatus.split
        intro!: fin wpG_mono [OF enrichPool_within [OF assms]])
qed

section \<open>The authenticator\<close>

sublocale resolver_zones \<subseteq> ending: auth_keeper V "\<lambda>p. p \<noteq> OutOfFuel" auth_ends
  using exchange_ends soa_ends dnskeys_ends clone_ends
  by unfold_locales (simp_all add: AddResponse_ends wpG_nofuel [symmetric])

context resolver_zones
begin

lemma auth_result_ends:
  assumes "verifier_ends (au_auth a)"
  shows "nofuel (auth_result L dcfg a)"
  using Result_ends [OF assms]
  by (auto simp: auth_result_def Let_def split: list.split intro!: nofuel_bindG)

lemma authenticate_response_ends:
  assumes "auth_holds auth_ends auth"
  shows "ends (authenticate_response V auth r m) (\<lambda>_. True)"
proof (cases auth)
  case (Some a)
  have "nofuel (auth_result (rs_lib V) (rs_dnssec V) a)" using auth_result_ends assms Some by simp
  then show ?thesis
    unfolding wpG_nofuel authenticate_response_def Some option.case wpG_bindG by (rule wpG_mono) (auto simp: Let_def)
qed (simp add: authenticate_response_def)

section \<open>The resolver\<close>

lemma processDelegation_within:
  assumes "within M k lo ex" "2 * DesireNumberOfNameserversPerZone (rs_vars V) \<le> B" "M + k + B \<le> top_count"
    and c: "lo \<le> queries cx" "queries cx \<le> M"
  shows "ends (processDelegation V ex z m cx s) (\<lambda>((zo, ro), cx', s'). queries cx \<le> queries cx' \<and>
     queries cx' \<le> M + k + B \<and> (ro = None \<or> HasError ro))"
  using c by (auto simp: processDelegation_def Let_def wpG_bindG split: list.split option.split
      intro!: wpG_mono [OF createZone_within [OF assms]])

lemma finaliseResponse_within:
  assumes "within M k lo ex" "1 \<le> k" "M \<le> top_count" "lo \<le> queries cx" "queries cx \<le> M" "auth_holds auth_ends auth"
  shows "ends (finaliseResponse V ex auth qmsg r cx s)
     (\<lambda>(r', cx', s'). queries cx \<le> queries cx' \<and> queries cx' \<le> M + k \<and> (HasError (Some r') \<or> queries cx' \<le> M))"
  using assms(5)
  by (auto simp: finaliseResponse_def wp_simps split: option.split
      intro!: wpG_mono [OF authenticate_response_ends [OF assms(6)]] wpG_mono [OF cname_within [OF assms(1-5)]])

text \<open>The part of \<open>resolveLabel\<close> that follows a response from the zone.\<close>

lemma after_response_within:
  assumes ex: "within M k lo ex" and k: "1 \<le> k" and B: "2 * DesireNumberOfNameserversPerZone (rs_vars V) \<le> B" "M + k + B \<le> top_count"
    and c: "lo \<le> queries cx" "queries cx \<le> M" and a: "auth_holds auth_ends auth"
  shows "ends (bindG (checkForMissingZones V d z m auth s) (\<lambda>(z, d, auth, s).
      bindG (give_response V auth z m s) (\<lambda>(auth, s).
        if is_delegation m then bindG (processDelegation V ex z m cx s) (\<lambda>(res, cx, s). Inr (res, d, qmsg, auth, cx, s))
        else bindG (finaliseResponse V ex auth qmsg r cx s) (\<lambda>(r, cx, s). Inr ((None, Some r), d, qmsg, auth, cx, s)))))
     (\<lambda>((zo, ro), d', q', auth', cx', s'). queries cx \<le> queries cx' \<and> queries cx' \<le> M + k + B \<and> auth_holds auth_ends auth' \<and>
       (ro = None \<or> HasError ro \<or> queries cx' \<le> M))"
proof -
  let ?Q = "\<lambda>((zo, ro), d', q', auth', cx', s'). queries cx \<le> queries cx' \<and> queries cx' \<le> M + k + B \<and> auth_holds auth_ends auth' \<and>
       (ro = None \<or> HasError ro \<or> queries cx' \<le> M)"
  have M: "M \<le> top_count" using B(2) by simp
  have fin: "ends (if is_delegation m then bindG (processDelegation V ex z m cx s) (\<lambda>(res, cx, s). Inr (res, d, qmsg, auth, cx, s))
        else bindG (finaliseResponse V ex auth qmsg r cx s) (\<lambda>(r, cx, s). Inr ((None, Some r), d, qmsg, auth, cx, s))) ?Q"
    if "auth_holds auth_ends auth" for z d auth s
    using that
    by (auto simp: wpG_bindG intro!: wpG_mono [OF processDelegation_within [OF ex B c]] wpG_mono [OF finaliseResponse_within [OF ex k M c that]])
  have give: "ends (bindG (give_response V auth z m s) (\<lambda>(auth, s).
        if is_delegation m then bindG (processDelegation V ex z m cx s) (\<lambda>(res, cx, s). Inr (res, d, qmsg, auth, cx, s))
        else bindG (finaliseResponse V ex auth qmsg r cx s) (\<lambda>(r, cx, s). Inr ((None, Some r), d, qmsg, auth, cx, s)))) ?Q"
    if "auth_holds auth_ends auth" for z d auth s
    unfolding wpG_bindG [of _ "give_response V auth z m s"]
    by (rule wpG_mono [OF ending.give_response_holds [OF that]]) (simp only: case_prod_beta fin)
  show ?thesis
    unfolding wpG_bindG [of _ "checkForMissingZones V d z m auth s"]
    by (rule wpG_mono [OF ending.checkForMissingZones_holds [OF a]]) (auto simp only: prod.case split: prod.split_asm intro!: give)
qed

lemma resolveLabel_within:
  assumes ex: "within M k lo ex" and k: "1 \<le> k" and B: "2 * DesireNumberOfNameserversPerZone (rs_vars V) \<le> B" "M + k + B \<le> top_count"
    and c: "lo \<le> queries cx" "queries cx \<le> M" and a: "auth_holds auth_ends auth"
  shows "ends (resolveLabel V ex d zo qmsg auth cx s)
     (\<lambda>((zo, ro), d', q', auth', cx', s'). queries cx \<le> queries cx' \<and> queries cx' \<le> M + k + B \<and> auth_holds auth_ends auth' \<and>
       (ro = None \<or> HasError ro \<or> queries cx' \<le> M))"
proof (cases zo)
  case (Some z)
  show ?thesis
    unfolding resolveLabel_def Some option.case wpG_bindG [of _ "prefetch_keys V auth z s"]
      wpG_bindG [of _ "zm_exchange (zenv V) z qmsg s1" for s1]
    by (rule wpG_mono [OF ending.prefetch_keys_calls], rule wpG_mono [OF ending.zone_calls(1)])
       (use c a in \<open>auto split: option.split intro!: after_response_within [OF assms]\<close>)
qed (use c a in \<open>simp add: resolveLabel_def\<close>)

lemma exchange_loop_within:
  assumes ex: "queries cx < M \<longrightarrow> within M k lo ex \<and> lo \<le> queries cx + 1" and k: "1 \<le> k"
    and B: "2 * DesireNumberOfNameserversPerZone (rs_vars V) \<le> B" "M + k + B \<le> top_count"
    and M: "unat (MaxQueriesPerRequest (rs_vars V)) = M"
    and n: "M - queries cx < n" and c: "queries cx \<le> top_count" and a: "auth_holds auth_ends auth"
  shows "ends (exchange_loop V ex n d zo qmsg auth cx s) (\<lambda>(r, cx', s'). queries cx \<le> queries cx' \<and>
     queries cx' \<le> max (queries cx + 1) (M + (k + B + 1)) \<and> (HasError r \<or> queries cx' \<le> M))"
  using ex n c a
proof (induction n arbitrary: d zo qmsg auth cx s)
  case (Suc n)
  obtain count cx1 where q: "count_query cx = (count, cx1)" by (cases "count_query cx")
  note cnt = count_query_queries [OF Suc.prems(3) q]
  have over: "count > MaxQueriesPerRequest (rs_vars V) \<longleftrightarrow> M \<le> queries cx"
    using cnt(1) M by (simp add: word_less_nat_alt) linarith
  show ?case
  proof (cases "M \<le> queries cx")
    case True
    then show ?thesis using over q cnt(2) by (auto simp: Let_def)
  next
    case False
    then have lt: "queries cx < M" and ok: "within M k lo ex" "lo \<le> queries cx1" "queries cx1 \<le> M"
      using Suc.prems(1) cnt(2) by auto
    define Q where "Q = (\<lambda>(r :: Response option, cx', s' :: ('z, 'w) state). queries cx \<le> queries cx' \<and>
       queries cx' \<le> max (queries cx + 1) (M + (k + B + 1)) \<and> (HasError r \<or> queries cx' \<le> M))"
    have Q: "Q (r, cx2, s2)" if "queries cx1 \<le> queries cx2" "queries cx2 \<le> M + k + B" "HasError r \<or> queries cx2 \<le> M" for r cx2 s2
      using that cnt(2) by (auto simp: Q_def)
    have rec: "ends (exchange_loop V ex n d zo qmsg auth cx2 s) Q"
      if "queries cx1 \<le> queries cx2" "queries cx2 \<le> M + k + B" "auth_holds auth_ends auth" for d zo qmsg auth cx2 s
    proof (rule wpG_mono [OF Suc.IH])
      show "queries cx2 < M \<longrightarrow> within M k lo ex \<and> lo \<le> queries cx2 + 1" using ok that by auto
      show "M - queries cx2 < n" "queries cx2 \<le> top_count" using that lt Suc.prems(2) cnt(2) B(2) by auto
    qed (use that cnt(2) in \<open>auto simp: Q_def\<close>)
    have label: "ends (bindG (resolveLabel V ex d zo qmsg auth cx1 s) (\<lambda>((zo, response), d, qmsg, auth, cx, s).
        case response of Some r \<Rightarrow> Inr (Some r, cx, s)
        | None \<Rightarrow> exchange_loop V ex n (next_label d) zo qmsg auth cx s)) Q"
      unfolding wpG_bindG
      by (rule wpG_mono [OF resolveLabel_within [OF ok(1) k B ok(2,3) Suc.prems(4)]])
         (auto split: option.split intro!: rec Q)
    have "ends (exchange_loop V ex (Suc n) d zo qmsg auth cx s) Q"
      using over False label rec [OF order_refl _ Suc.prems(4)] ok(3) cnt(2)
      by (auto simp: q Let_def Q_def)
    then show ?thesis by (simp only: Q_def)
  qed
qed simp

lemma setup_ctx_within: "ends (setup_ctx V cx s) (\<lambda>(cx', s'). queries cx' = queries cx)"
  by (auto simp: setup_ctx_def newTraceWithStart_def Let_def wp_simps ShortID_def queries_def
      split: option.split prod.split)

lemma start_auth_ends: "ends (start_auth V qmsg s) (auth_holds auth_ends)"
  by (auto simp: start_auth_def wp_simps newAuthenticator_def NewAuth_ends)

lemma exchange_within:
  assumes ex: "queries cx < M \<longrightarrow> within M k lo ex \<and> lo \<le> queries cx + 1" and k: "1 \<le> k"
    and B: "2 * DesireNumberOfNameserversPerZone (rs_vars V) \<le> B" "M + k + B \<le> top_count"
    and M: "unat (MaxQueriesPerRequest (rs_vars V)) = M" and c: "queries cx \<le> top_count"
  shows "ends (exchange V ex cx qmsg s) (\<lambda>(r, cx', s'). queries cx \<le> queries cx' \<and>
     queries cx' \<le> max (queries cx + 1) (M + (k + B + 1)) \<and> (HasError r \<or> queries cx' \<le> M))"
proof -
  let ?Q = "\<lambda>(r, cx', s'). queries cx \<le> queries cx' \<and>
     queries cx' \<le> max (queries cx + 1) (M + (k + B + 1)) \<and> (HasError r \<or> queries cx' \<le> M)"
  have loop: "ends (exchange_loop V ex (M + 2) d zo qmsg auth cx1 s1) ?Q"
    if "queries cx1 = queries cx" "auth_holds auth_ends auth" for d zo auth cx1 s1
    by (rule wpG_mono [OF exchange_loop_within [OF _ k B M]]) (use that ex c in auto)
  have wind: "ends (case windTo (rs_lib V) d0 n of (err, d) \<Rightarrow>
        (case err of Some e \<Rightarrow> Inr (Some (newResponseError e), cx1, s1)
         | None \<Rightarrow> exchange_loop V ex (M + 2) d (Some z) qmsg auth cx1 s1)) ?Q"
    if "queries cx1 = queries cx" "auth_holds auth_ends auth" for d0 n z auth cx1 s1
    using that loop by (auto split: prod.split option.split)
  show ?thesis
    unfolding exchange_def wpG_bindG Let_def M wpG_go_nth
    by (rule wpG_mono [OF setup_ctx_within])
       (auto simp: wpG_bindG wpG_go_nth intro!: wpG_mono [OF start_auth_ends] wpG_mono [OF ending.link_known_holds] wind [simplified])
qed

text \<open>With fuel \<open>n\<close> the resolver handles counters from \<open>M + 1 - n\<close> on.\<close>

lemma resolver_exchange_within:
  assumes B: "2 * DesireNumberOfNameserversPerZone (rs_vars V) \<le> B" and M: "unat (MaxQueriesPerRequest (rs_vars V)) = M"
    and room: "M + (B + 1) * (M + 2) \<le> top_count" and n: "0 < n" "n \<le> M + 1"
  shows "within M ((B + 1) * (n + 1)) (M + 1 - n) (resolver_exchange V n)"
  using n
proof (induction n)
  case (Suc n)
  have k: "(B + 1) * (Suc n + 1) = (B + 1) * (n + 1) + B + 1" by simp
  have le: "(B + 1) * (n + 1) + B \<le> (B + 1) * (M + 2)"
  proof -
    have "(B + 1) * (Suc n + 1) \<le> (B + 1) * (M + 2)" using Suc.prems(2) by (intro mult_le_mono2) simp
    then show ?thesis by simp
  qed
  have step: "ends (exchange V (resolver_exchange V n) cx m s) (\<lambda>(r, cx', s'). queries cx \<le> queries cx' \<and>
     queries cx' \<le> max (queries cx + 1) (M + ((B + 1) * (n + 1) + B + 1)) \<and> (HasError r \<or> queries cx' \<le> M))"
    if c: "M + 1 - Suc n \<le> queries cx" "queries cx \<le> top_count" for cx m s
  proof (rule exchange_within [where lo = "M + 1 - n"])
    show "queries cx < M \<longrightarrow> within M ((B + 1) * (n + 1)) (M + 1 - n) (resolver_exchange V n) \<and> M + 1 - n \<le> queries cx + 1"
      using Suc c by (cases n) (auto simp del: resolver_exchange.simps)
    show "M + (B + 1) * (n + 1) + B \<le> top_count" using le room by linarith
  qed (use B M c in auto)
  show ?case unfolding within_def k resolver_exchange.simps using step by (simp add: add.assoc)
qed simp

end

end
