(* ===== verification/Resolver_Validation.thy ===== *)
theory Resolver_Validation
  imports Resolver_Auth
begin

text \<open>
  What the resolver's verdict means: the response that \<open>finaliseResponse\<close> builds carries the
  AD bit only for the result \<open>Secure\<close>, and that result comes from a run of the authenticator
  of the dnssec package on the question of the request, so a chain of trust stands behind it.
\<close>

text \<open>An authenticator for the question \<open>q\<close> that was only fed with responses.\<close>

definition fed :: "dnslib \<Rightarrow> dnssec_cfg \<Rightarrow> question \<Rightarrow> Authenticator \<Rightarrow> bool" where
  "fed L dcfg q d \<longleftrightarrow> (\<exists>clk ins. add_all L dcfg (NewAuth L dcfg clk q) ins = Inr d)"

text \<open>A run of the authenticator that ends in \<open>Secure\<close>, with the chain that it found.\<close>

definition secure_run :: "dnslib \<Rightarrow> dnssec_cfg \<Rightarrow> question \<Rightarrow> bool" where
  "secure_run L dcfg q \<longleftrightarrow> (\<exists>clk ins doe d. authenticated L dcfg clk q ins = Inr ((Secure, doe, None), d) \<and>
     chain_of_trust L dcfg (results d) \<and> answered q (last (results d)))"

definition bogus_refused :: "resolver_vars \<Rightarrow> msg \<Rightarrow> bool" where
  "bogus_refused v m \<longleftrightarrow> Rcode m = RcodeServerFailure \<and>
     (SuppressBogusResponseSections v \<longrightarrow> Answer m = [] \<and> Ns m = [] \<and> Extra m = [])"

definition valid_response :: "('z, 'w) resolver \<Rightarrow> question \<Rightarrow> bool \<Rightarrow> Response \<Rightarrow> bool" where
  "valid_response V q cd r \<longleftrightarrow> (\<forall>m. Msg r = Some m \<longrightarrow>
     (\<not> cd \<longrightarrow> (AuthenticatedData m \<longleftrightarrow> Auth r = Secure) \<and> (Auth r = Bogus \<longrightarrow> bogus_refused (rs_vars V) m)) \<and>
     (Auth r = Secure \<longrightarrow> secure_run (rs_lib V) (rs_dnssec V) q))"

lemma add_all_append: "add_all L cfg a (ins @ ins') = bindG (add_all L cfg a ins) (\<lambda>a. add_all L cfg a ins')"
  by (induction ins arbitrary: a) (auto simp: bindG_def split: sum.split)

lemma fed_NewAuth: "fed L dcfg q (NewAuth L dcfg clk q)"
  unfolding fed_def by (metis add_all.simps(1))

lemma fed_AddResponse:
  assumes "fed L dcfg q d" "AddResponse L dcfg d zone m = Inr (e, d')"
  shows "fed L dcfg q d'"
proof -
  obtain clk ins where "add_all L dcfg (NewAuth L dcfg clk q) ins = Inr d" using assms(1) by (auto simp: fed_def)
  then have "add_all L dcfg (NewAuth L dcfg clk q) (ins @ [\<lparr>in_zone = zone, in_msg = m\<rparr>]) = Inr d'"
    using assms(2) by (simp add: add_all_append)
  then show ?thesis unfolding fed_def by blast
qed

lemma fed_Result:
  assumes "fed L dcfg q d" "Result L dcfg d = Inr ((Secure, doe, e), d')"
  shows "secure_run L dcfg q"
proof -
  obtain clk ins where run: "add_all L dcfg (NewAuth L dcfg clk q) ins = Inr d" using assms(1) by (auto simp: fed_def)
  note chain = secure_result_has_chain_of_trust [OF run assms(2)]
  have "authenticated L dcfg clk q ins = Inr ((Secure, doe, None), d')"
    using run assms(2) chain by (simp add: authenticated_def)
  with chain show ?thesis unfolding secure_run_def by blast
qed

lemma auth_result_secure:
  assumes "fed L dcfg q (au_auth a)" "auth_result L dcfg a = Inr ((Secure, doe, e), a')"
  shows "secure_run L dcfg q"
  using assms(2) unfolding auth_result_def
  by (auto simp: Let_def bindG_eq_Inr_iff split: list.split_asm intro: fed_Result [OF assms(1)])

lemma authenticate_response_secure:
  assumes "fed (rs_lib V) (rs_dnssec V) q (au_auth a)"
  shows "ok (authenticate_response V (Some a) r m) (\<lambda>(r', m'). Auth r' = Secure \<longrightarrow> secure_run (rs_lib V) (rs_dnssec V) q)"
  by (rule wpG_I) (auto simp: authenticate_response_def bindG_eq_Inr_iff Let_def split: if_split_asm dest: auth_result_secure [OF assms])

text \<open>Following CNAME records does not make a verdict better.\<close>

lemma Secure_least: "a \<le> Secure \<longleftrightarrow> a = Secure"
  by (cases a) (simp_all add: less_eq_AuthenticationResult_def)

lemma cname_secure: "ok (cname L sz ex qmsg r cx s) (\<lambda>(e, r', cx', s'). Auth r' = Secure \<longrightarrow> Auth r = Secure)"
proof -
  have "Auth r \<le> Auth r'" if "cname L sz ex qmsg r cx s = Inr (e, r', cx', s')" for e r' cx' s'
    using that unfolding cname_def by (auto simp: bindG_eq_Inr_iff dest: cname_loop_grows split: option.split_asm)
  then show ?thesis by (intro wpG_I) (fastforce simp: Secure_least)+
qed

lemma finish_response_valid:
  assumes "Auth r = Secure \<Longrightarrow> secure_run (rs_lib V) (rs_dnssec V) q"
  shows "valid_response V q (CheckingDisabled qmsg) (finish_response V (Some a) qmsg r m cx s)"
  using assms
  by (auto simp: valid_response_def finish_response_def Let_def apply_verdict_def bogus_refused_def split: if_split_asm)

lemma finaliseResponse_valid:
  assumes "fed (rs_lib V) (rs_dnssec V) q (au_auth a)"
  shows "ok (finaliseResponse V ex (Some a) qmsg r cx s) (\<lambda>(r', cx', s'). valid_response V q (CheckingDisabled qmsg) r')"
proof (cases "Msg r")
  case (Some m)
  have none: "valid_response V q cd (zero_Response\<lparr>Err := e\<rparr>)" for cd e
    by (simp add: valid_response_def zero_Response_def)
  have fin: "ok (bindG (go_nth (Question qmsg) 0) (\<lambda>qq.
            if Qtype qq \<noteq> TypeCNAME \<and> recordsOfTypeExist (Answer m1) TypeCNAME then
              bindG (cname (rs_lib V) (udpsize (rs_config V)) ex qmsg (r1\<lparr>Msg := Some m1\<rparr>) cx s)
                (\<lambda>(err, response, cx, s).
                  if err \<noteq> None then Inr (zero_Response\<lparr>Err := err\<rparr>, cx, s)
                  else
                    (case Msg response of
                       None \<Rightarrow> Inl NilDereference
                     | Some m \<Rightarrow> Inr (finish_response V (Some a) qmsg response m cx s, cx, s)))
            else Inr (finish_response V (Some a) qmsg r1 m1 cx s, cx, s)))
        (\<lambda>(r', cx', s'). valid_response V q (CheckingDisabled qmsg) r')"
    if "Auth r1 = Secure \<longrightarrow> secure_run (rs_lib V) (rs_dnssec V) q" for r1 m1
    using that none
    by (auto simp: wp_simps split: option.split intro!: finish_response_valid wpG_mono [OF cname_secure])
  show ?thesis
    unfolding finaliseResponse_def Some option.case wpG_bindG [of _ "authenticate_response V (Some a) r m"]
    by (rule wpG_mono [OF authenticate_response_secure [OF assms]]) (auto simp only: prod.case split: prod.split_asm intro!: fin)
qed (simp add: finaliseResponse_def)

section \<open>The main loop\<close>

text \<open>The authenticator of a request with the question \<open>q\<close>.\<close>

definition feeding :: "('z, 'w) resolver \<Rightarrow> question \<Rightarrow> Authenticator option \<Rightarrow> bool" where
  "feeding V q d = (case d of None \<Rightarrow> False | Some d \<Rightarrow> fed (rs_lib V) (rs_dnssec V) q d)"

lemma feeding_simps [simp]: "\<not> feeding V q None" "feeding V q (Some d) = fed (rs_lib V) (rs_dnssec V) q d"
  by (simp_all add: feeding_def)

sublocale resolver_zones \<subseteq> trusting: auth_keeper V "\<lambda>_. True" "feeding V q" for q
proof
  show "ok (AddResponse (rs_lib V) (rs_dnssec V) d zone m) (\<lambda>(e, d'). feeding V q (Some d'))" if "feeding V q (Some d)" for d zone m
    using that by (intro wpG_I) (auto intro: fed_AddResponse)
qed (auto intro: ok_trivial)

text \<open>A response is an error or valid.\<close>

definition good :: "('z, 'w) resolver \<Rightarrow> question \<Rightarrow> bool \<Rightarrow> Response option \<Rightarrow> bool" where
  "good V q cd r \<longleftrightarrow> HasError r \<or> (\<forall>x. r = Some x \<longrightarrow> valid_response V q cd x)"

lemma good_simps [simp]: "good V q cd None" "HasError r \<Longrightarrow> good V q cd r" "valid_response V q cd x \<Longrightarrow> good V q cd (Some x)"
  by (auto simp: good_def)

text \<open>What holds after a label of the query name was resolved.\<close>

fun label_good ::
  "('z, 'w) resolver \<Rightarrow> question \<Rightarrow> msg \<Rightarrow>
     ('z option \<times> Response option) \<times> domain \<times> msg \<times> authenticator option \<times> ctx \<times> ('z, 'w) state \<Rightarrow> bool" where
  "label_good V q qmsg ((zo, ro), d, qmsg', auth, cx, s) \<longleftrightarrow>
     good V q (CheckingDisabled qmsg) ro \<and> same_query qmsg qmsg' \<and> auth_holds (feeding V q) auth"

lemma label_good_query: "label_good V q m x \<Longrightarrow> same_query m' m \<Longrightarrow> label_good V q m' x"
  by (cases "(V, q, m, x)" rule: label_good.cases) simp

lemma good_available:
  "good V q cd (Some x) \<Longrightarrow> Msg x = Some m \<Longrightarrow> good V q cd (Some (x\<lparr>Msg := Some (m\<lparr>RecursionAvailable := True\<rparr>)\<rparr>))"
  by (auto simp: good_def valid_response_def bogus_refused_def HasError_def)

lemma processDelegation_good:
  "ok (processDelegation V ex z m cx s) (\<lambda>((zo, ro), cx', s'). ro = None \<or> HasError ro)"
proof -
  have "ok (bindG (createZone L v R E ex n p nss extra cx s) (\<lambda>((zo, err), cx, s).
      case err of Some e \<Rightarrow> Inr ((None, Some (newResponseError e)), cx, s)
      | None \<Rightarrow> (case zo of None \<Rightarrow> Inl NilDereference | Some z \<Rightarrow> Inr ((Some z, None), cx, store_zone V z s))))
    (\<lambda>((zo, ro), cx', s'). ro = None \<or> HasError ro)" for L v R E n p nss extra
    unfolding wpG_bindG by (rule ok_trivial) (auto split: option.split)
  then show ?thesis by (auto simp: processDelegation_def Let_def split: list.split)
qed

context resolver_zones
begin

lemma after_response_good:
  assumes "auth_holds (feeding V q) auth"
  shows "ok (bindG (checkForMissingZones V d z m auth s) (\<lambda>(z, d, auth, s).
      bindG (give_response V auth z m s) (\<lambda>(auth, s).
        if is_delegation m then bindG (processDelegation V ex z m cx s) (\<lambda>(res, cx, s). Inr (res, d, qmsg, auth, cx, s))
        else bindG (finaliseResponse V ex auth qmsg r cx s) (\<lambda>(r, cx, s). Inr ((None, Some r), d, qmsg, auth, cx, s)))))
     (label_good V q qmsg)"
    (is "ok _ ?Q")
proof -
  have fin: "ok (if is_delegation m then bindG (processDelegation V ex z m cx s) (\<lambda>(res, cx, s). Inr (res, d, qmsg, auth, cx, s))
        else bindG (finaliseResponse V ex auth qmsg r cx s) (\<lambda>(r, cx, s). Inr ((None, Some r), d, qmsg, auth, cx, s))) ?Q"
    if a: "auth_holds (feeding V q) auth" for z d auth s
  proof -
    obtain a where auth: "auth = Some a" "fed (rs_lib V) (rs_dnssec V) q (au_auth a)" using a by (cases auth) simp_all
    then show ?thesis
      by (auto simp: wpG_bindG intro!: wpG_mono [OF processDelegation_good] wpG_mono [OF finaliseResponse_valid [OF auth(2)]])
  qed
  have give: "ok (bindG (give_response V auth z m s) (\<lambda>(auth, s).
        if is_delegation m then bindG (processDelegation V ex z m cx s) (\<lambda>(res, cx, s). Inr (res, d, qmsg, auth, cx, s))
        else bindG (finaliseResponse V ex auth qmsg r cx s) (\<lambda>(r, cx, s). Inr ((None, Some r), d, qmsg, auth, cx, s)))) ?Q"
    if "auth_holds (feeding V q) auth" for z d auth s
    unfolding wpG_bindG [of _ "give_response V auth z m s"]
    by (rule wpG_mono [OF trusting.give_response_holds [OF that]]) (simp only: case_prod_beta fin)
  show ?thesis
    unfolding wpG_bindG [of _ "checkForMissingZones V d z m auth s"]
    by (rule wpG_mono [OF trusting.checkForMissingZones_holds [OF assms]])
       (auto simp only: prod.case split: prod.split_asm intro!: give)
qed

lemma resolveLabel_good:
  assumes "auth_holds (feeding V q) auth"
  shows "ok (resolveLabel V ex d zo qmsg auth cx s)
     (label_good V q qmsg)"
proof (cases zo)
  case (Some z)
  have ex: "ok (zm_exchange (zenv V) z qmsg s1) (\<lambda>(r, q', s'). same_query qmsg q')" for s1
    by (rule wpG_I) (auto dest: exchange_query)
  have rest: "ok (bindG (checkForMissingZones V d z m auth s) (\<lambda>(z, d, auth, s).
      bindG (give_response V auth z m s) (\<lambda>(auth, s).
        if is_delegation m then bindG (processDelegation V ex z m cx s) (\<lambda>(res, cx, s). Inr (res, d, qm, auth, cx, s))
        else bindG (finaliseResponse V ex auth qm r cx s) (\<lambda>(r, cx, s). Inr ((None, Some r), d, qm, auth, cx, s)))))
     (label_good V q qmsg)"
    if "same_query qmsg qm" for m qm r s
    by (rule wpG_mono [OF after_response_good [OF assms]]) (use that in \<open>auto intro: label_good_query\<close>)
  show ?thesis
    unfolding resolveLabel_def Some option.case wpG_bindG [of _ "prefetch_keys V auth z s"]
      wpG_bindG [of _ "zm_exchange (zenv V) z qmsg s1" for s1]
    by (rule wpG_mono [OF trusting.prefetch_keys_calls], rule wpG_mono [OF ex])
       (use assms in \<open>auto split: option.split intro!: rest\<close>)
qed (use assms in \<open>simp add: resolveLabel_def\<close>)

lemma exchange_loop_good:
  assumes "auth_holds (feeding V q) auth"
  shows "ok (exchange_loop V ex n d zo qmsg auth cx s) (\<lambda>x. good V q (CheckingDisabled qmsg) (fst x))"
  using assms
proof (induction n arbitrary: d zo qmsg auth cx s)
  case (Suc n)
  have label: "ok (bindG (resolveLabel V ex d zo qmsg auth cx1 s) (\<lambda>((zo, response), d, qmsg, auth, cx, s).
        case response of Some r \<Rightarrow> Inr (Some r, cx, s)
        | None \<Rightarrow> exchange_loop V ex n (next_label d) zo qmsg auth cx s)) (\<lambda>x. good V q (CheckingDisabled qmsg) (fst x))" for cx1
    unfolding wpG_bindG
    by (rule wpG_mono [OF resolveLabel_good [OF Suc.prems]])
       (auto split: option.split intro!: wpG_mono [OF Suc.IH])
  obtain count cx1 where q: "count_query cx = (count, cx1)" by (cases "count_query cx")
  show ?case unfolding exchange_loop.simps q Let_def prod.case using label [of cx1] Suc.IH [OF Suc.prems] by simp
qed simp

lemma start_auth_fed:
  assumes "isSetDO (rs_lib V) qmsg" "Question qmsg = q # qs"
  shows "ok (start_auth V qmsg s) (auth_holds (feeding V q))"
  using assms by (simp add: start_auth_def wp_simps newAuthenticator_def fed_NewAuth)

lemma exchange_good:
  assumes "isSetDO (rs_lib V) qmsg" "Question qmsg = q # qs"
  shows "ok (exchange V ex cx qmsg s) (\<lambda>x. good V q (CheckingDisabled qmsg) (fst x))"
proof -
  have wind: "ok (case windTo (rs_lib V) d0 n of (err, d) \<Rightarrow>
        (case err of Some e \<Rightarrow> Inr (Some (newResponseError e), cx1, s1)
         | None \<Rightarrow> exchange_loop V ex k d (Some z) qmsg auth cx1 s1)) (\<lambda>x. good V q (CheckingDisabled qmsg) (fst x))"
    if "auth_holds (feeding V q) auth" for d0 n z auth cx1 s1 k
    using that exchange_loop_good by (auto split: prod.split option.split)
  show ?thesis
    unfolding exchange_def wpG_bindG Let_def wpG_go_nth
    by (rule wpG_mono [OF ok_trivial [where Q = "\<lambda>_. True"]])
       (auto simp: wpG_bindG wpG_go_nth intro!: wpG_mono [OF start_auth_fed [OF assms]] wpG_mono [OF trusting.link_known_holds] wind [simplified])
qed

lemma Exchange_good:
  assumes "isSetDO (rs_lib V) qmsg" "Question qmsg = q # qs"
  shows "ok (Exchange V cx qmsg s) (\<lambda>x. good V q (CheckingDisabled qmsg) (fst x))"
  unfolding Exchange_def
  by (auto simp: wpG_bindG split: option.split intro!: wpG_mono [OF exchange_good [OF assms]] good_available)

end

end
