(* ===== verification/Cache.thy ===== *)
theory Cache
  imports Resolver_Functions "HOL-Library.AList" "HOL-Library.Multiset"
begin

text \<open>
  cache/cache.go: the record cache. A message is split into RRsets, each stored under a 64-bit
  FNV-1a hash of the owner name and the name of the type. The store
  \<^verbatim>\<open>coredns/plugin/pkg/cache\<close> is library code: the record \<open>kvstore\<close> has one field
  per call, \<open>kv_ok\<close> states what its documentation promises. The Go maps \<open>rrsets\<close> and
  \<open>sigs\<close> are association lists; the order in which \<^verbatim>\<open>range\<close> visits a map is not
  specified, so it is the argument \<open>visit\<close>, a permutation.
\<close>

unbundle bit_operations_syntax

section \<open>Data\<close>

datatype ValidationStatus = VIndeterminate | VSecure | VInsecure | VBogus

record Entry =
  e_Name :: string
  e_Type :: u16
  e_Status :: ValidationStatus
  e_Rcode :: int
  e_Records :: "rr list"
  e_Signatures :: "rr list"
  e_TTL :: u32
  e_Expires :: gotime

text \<open>The library's store: \<open>'s\<close> is its state.\<close>

record 's kvstore =
  kv_New :: "int \<Rightarrow> 's"
  kv_Add :: "u64 \<Rightarrow> Entry \<Rightarrow> 's \<Rightarrow> 's"
  kv_Get :: "'s \<Rightarrow> u64 \<Rightarrow> Entry option"
  kv_Remove :: "u64 \<Rightarrow> 's \<Rightarrow> 's"
  kv_Len :: "'s \<Rightarrow> nat"

record 's Cache =
  c_cache :: "'s option"
  capacity :: int

definition DefaultCapacity :: int where
  "DefaultCapacity = 1000"

section \<open>Key\<close>

text \<open>\<^verbatim>\<open>hash/fnv\<close>, \<open>New64a\<close>: xor with the byte, then multiply by the prime.\<close>

definition fnv64a_byte :: "u64 \<Rightarrow> char \<Rightarrow> u64" where
  "fnv64a_byte h c = (h XOR of_nat (of_char c)) * 1099511628211"

definition fnv64a :: "string \<Rightarrow> u64" where
  "fnv64a s = foldl fnv64a_byte 14695981039346656037 s"

definition Key :: "dnslib \<Rightarrow> string \<Rightarrow> u16 \<Rightarrow> u64" where
  "Key L name qtype = fnv64a (CanonicalName L name @ TypeName L qtype)"

section \<open>Construction\<close>

type_synonym 's cache_option = "'s Cache \<Rightarrow> 's Cache"

definition WithCapacity :: "int \<Rightarrow> 's cache_option" where
  "WithCapacity n = (\<lambda>c. c\<lparr>capacity := n\<rparr>)"

definition NewCache :: "'s kvstore \<Rightarrow> 's cache_option list \<Rightarrow> 's Cache" where
  "NewCache K options =
     (let c = foldl (\<lambda>c opt. opt c) \<lparr>c_cache = None, capacity = DefaultCapacity\<rparr> options
      in c\<lparr>c_cache := Some (kv_New K (capacity c))\<rparr>)"

section \<open>UpdateWithTime\<close>

definition ignored_type :: "u16 \<Rightarrow> bool" where
  "ignored_type t \<longleftrightarrow> t = TypeOPT \<or> t = TypeTSIG \<or> t = TypeIXFR \<or> t = TypeAXFR \<or>
     t = TypeMAILB \<or> t = TypeMAILA \<or> t = TypeANY"

type_synonym groups = "(u64 \<times> rr list) list"

definition group_at :: "groups \<Rightarrow> u64 \<Rightarrow> rr list" where
  "group_at g k = (case map_of g k of Some rrs \<Rightarrow> rrs | None \<Rightarrow> [])"

definition append_at :: "u64 \<Rightarrow> rr \<Rightarrow> groups \<Rightarrow> groups" where
  "append_at k r g = AList.update k (group_at g k @ [r]) g"

fun group_loop :: "dnslib \<Rightarrow> gotime \<Rightarrow> rr list \<Rightarrow> groups \<Rightarrow> groups \<Rightarrow> (groups \<times> groups) go" where
  "group_loop L now [] rrsets sigs = Inr (rrsets, sigs)"
| "group_loop L now (r # rs) rrsets sigs =
     (if rr_type r = TypeRRSIG then
        (case as_RRSIG r of
           None \<Rightarrow> Inl (Panic ''interface conversion'')
         | Some sig \<Rightarrow>
             let k = Key L (rr_name r) (TypeCovered sig) in
             if ValidityPeriod L sig now then group_loop L now rs rrsets (append_at k r sigs)
             else group_loop L now rs rrsets (AList.update k [] sigs))
      else if ignored_type (rr_type r) then group_loop L now rs rrsets sigs
      else group_loop L now rs (append_at (Key L (rr_name r) (rr_type r)) r rrsets) sigs)"

definition signatures_usable :: "groups \<Rightarrow> u64 \<Rightarrow> bool" where
  "signatures_usable sigs k \<longleftrightarrow> length (group_at sigs k) \<noteq> 0 \<or> map_of sigs k = None"

fun store_loop :: "'s kvstore \<Rightarrow> gotime \<Rightarrow> groups \<Rightarrow> groups \<Rightarrow> 's \<Rightarrow> 's go" where
  "store_loop K now sigs [] s = Inr s"
| "store_loop K now sigs ((k, records) # rest) s =
     (if signatures_usable sigs k then
        bindG (go_nth records 0) (\<lambda>r.
          let h = Header r in
          if Ttl h > 0 then
            store_loop K now sigs rest
              (kv_Add K k \<lparr>e_Name = Name h, e_Type = Rrtype h, e_Status = VIndeterminate, e_Rcode = 0,
                 e_Records = records, e_Signatures = group_at sigs k, e_TTL = Ttl h,
                 e_Expires = now + uint (Ttl h) * Second\<rparr> s)
          else store_loop K now sigs rest s)
      else store_loop K now sigs rest s)"

definition UpdateWithTime ::
  "dnslib \<Rightarrow> 's kvstore \<Rightarrow> (groups \<Rightarrow> groups) \<Rightarrow> string \<Rightarrow> question \<Rightarrow> msg \<Rightarrow> gotime \<Rightarrow> 's \<Rightarrow>
     (goerr option \<times> 's) go" where
  "UpdateWithTime L K visit zone question m now s =
     (let allRRs = Answer m @ Ns m @ Extra m in
      if Truncated m then Inr (Some (CErr ErrCacheNoTruncated), s)
      else
        bindG (group_loop L now allRRs [] []) (\<lambda>(rrsets, sigs).
        bindG (store_loop K now sigs (visit rrsets) s) (\<lambda>s. Inr (None, s))))"

section \<open>GetWithTime\<close>

definition reply_of :: "dnslib \<Rightarrow> msg \<Rightarrow> Entry \<Rightarrow> msg" where
  "reply_of L qmsg val =
     (let m = new_Msg\<lparr>Rcode := RcodeServerFailure\<rparr>;
          m = m\<lparr>Answer := e_Records val @ e_Signatures val\<rparr>;
          m = m\<lparr>Rcode := e_Rcode val\<rparr>;
          m = SetReply L m qmsg;
          m = (case IsEdns0 L qmsg of Some edns0 \<Rightarrow> SetEdns0 L m (UDPSize L edns0) (Do L edns0) | None \<Rightarrow> m);
          m = m\<lparr>Authoritative := True\<rparr>
      in if e_Status val = VSecure then m\<lparr>AuthenticatedData := True\<rparr> else m)"

definition GetWithTime ::
  "dnslib \<Rightarrow> 's kvstore \<Rightarrow> string \<Rightarrow> msg option \<Rightarrow> gotime \<Rightarrow> 's \<Rightarrow> (msg option \<times> goerr option) \<times> 's" where
  "GetWithTime L K zone qo now s =
     (case qo of
        None \<Rightarrow> ((None, Some (CErr ErrEmptyQuestion)), s)
      | Some qmsg \<Rightarrow>
          (case Question qmsg of
             [] \<Rightarrow> ((None, Some (CErr ErrEmptyQuestion)), s)
           | question # _ \<Rightarrow>
               let m = new_Msg\<lparr>Rcode := RcodeServerFailure\<rparr>;
                   key = Key L (qName question) (Qtype question)
               in case kv_Get K s key of
                    None \<Rightarrow> ((Some m, Some (CErr ErrCacheMiss)), s)
                  | Some val \<Rightarrow>
                      if now > e_Expires val then ((Some m, Some (CErr ErrCacheExpired)), kv_Remove K key s)
                      else ((Some (reply_of L qmsg val), None), s)))"

text \<open>\<open>Update\<close> and \<open>Get\<close> pass the clock's reading; \<open>Len\<close> asks the store.\<close>

definition Update ::
  "dnslib \<Rightarrow> 's kvstore \<Rightarrow> (groups \<Rightarrow> groups) \<Rightarrow> ('w \<Rightarrow> gotime) \<Rightarrow> 'w \<Rightarrow> string \<Rightarrow> question \<Rightarrow> msg \<Rightarrow> 's \<Rightarrow>
     (goerr option \<times> 's) go" where
  "Update L K visit Now w zone question m s = UpdateWithTime L K visit zone question m (Now w) s"

definition Get ::
  "dnslib \<Rightarrow> 's kvstore \<Rightarrow> ('w \<Rightarrow> gotime) \<Rightarrow> 'w \<Rightarrow> string \<Rightarrow> msg option \<Rightarrow> 's \<Rightarrow>
     (msg option \<times> goerr option) \<times> 's" where
  "Get L K Now w zone qo s = GetWithTime L K zone qo (Now w) s"

definition Len :: "'s kvstore \<Rightarrow> 's \<Rightarrow> nat" where
  "Len K s = kv_Len K s"

section \<open>Specification vocabulary\<close>

text \<open>
  The documented behaviour of the store: an added element is found; adding may evict other
  elements, and changes none; a removed element is gone.
\<close>

definition kv_ok :: "'s kvstore \<Rightarrow> bool" where
  "kv_ok K \<longleftrightarrow>
     (\<forall>n k. kv_Get K (kv_New K n) k = None) \<and>
     (\<forall>s k e. kv_Get K (kv_Add K k e s) k = Some e) \<and>
     (\<forall>s k e k'. k' \<noteq> k \<longrightarrow> kv_Get K (kv_Add K k e s) k' \<in> {kv_Get K s k', None}) \<and>
     (\<forall>s k k'. kv_Get K (kv_Remove K k s) k' = (if k' = k then None else kv_Get K s k'))"

text \<open>The RRset and the signatures of a message that belong to a key, and the entry they make.\<close>

definition in_rrset :: "dnslib \<Rightarrow> u64 \<Rightarrow> rr \<Rightarrow> bool" where
  "in_rrset L k r \<longleftrightarrow> rr_type r \<noteq> TypeRRSIG \<and> \<not> ignored_type (rr_type r) \<and> Key L (rr_name r) (rr_type r) = k"

definition covering :: "dnslib \<Rightarrow> u64 \<Rightarrow> rr \<Rightarrow> bool" where
  "covering L k r \<longleftrightarrow> rr_type r = TypeRRSIG \<and>
     (case as_RRSIG r of Some sig \<Rightarrow> Key L (rr_name r) (TypeCovered sig) = k | None \<Rightarrow> False)"

definition sig_valid :: "dnslib \<Rightarrow> gotime \<Rightarrow> rr \<Rightarrow> bool" where
  "sig_valid L now r = (case as_RRSIG r of Some sig \<Rightarrow> ValidityPeriod L sig now | None \<Rightarrow> False)"

text \<open>The signatures after the last one that is outside its validity period.\<close>

definition kept_signatures :: "dnslib \<Rightarrow> gotime \<Rightarrow> u64 \<Rightarrow> rr list \<Rightarrow> rr list" where
  "kept_signatures L now k rrs = rev (takeWhile (sig_valid L now) (rev (filter (covering L k) rrs)))"

definition entry_for :: "dnslib \<Rightarrow> gotime \<Rightarrow> rr list \<Rightarrow> u64 \<Rightarrow> Entry option" where
  "entry_for L now rrs k =
     (let records = filter (in_rrset L k) rrs; kept = kept_signatures L now k rrs in
      case records of
        [] \<Rightarrow> None
      | r # _ \<Rightarrow>
          if (kept \<noteq> [] \<or> filter (covering L k) rrs = []) \<and> rr_ttl r > 0 then
            Some \<lparr>e_Name = rr_name r, e_Type = rr_type r, e_Status = VIndeterminate, e_Rcode = 0,
              e_Records = records, e_Signatures = kept, e_TTL = rr_ttl r,
              e_Expires = now + uint (rr_ttl r) * Second\<rparr>
          else None)"

text \<open>Every record whose header says RRSIG is one.\<close>

definition typed_signatures :: "rr list \<Rightarrow> bool" where
  "typed_signatures rrs \<longleftrightarrow> (\<forall>r \<in> set rrs. rr_type r = TypeRRSIG \<longrightarrow> as_RRSIG r \<noteq> None)"

text \<open>A store that has room for every element: nothing is evicted.\<close>

definition kv_roomy :: "'s kvstore \<Rightarrow> bool" where
  "kv_roomy K \<longleftrightarrow> (\<forall>s k e k'. k' \<noteq> k \<longrightarrow> kv_Get K (kv_Add K k e s) k' = kv_Get K s k')"

text \<open>What the two maps of \<open>UpdateWithTime\<close> hold after a prefix of the records.\<close>

definition grouped :: "dnslib \<Rightarrow> gotime \<Rightarrow> rr list \<Rightarrow> groups \<Rightarrow> groups \<Rightarrow> bool" where
  "grouped L now rrs rrsets sigs \<longleftrightarrow> distinct (map fst rrsets) \<and>
     (\<forall>k. map_of rrsets k = (if filter (in_rrset L k) rrs = [] then None else Some (filter (in_rrset L k) rrs))) \<and>
     (\<forall>k. map_of sigs k = (if filter (covering L k) rrs = [] then None else Some (kept_signatures L now k rrs)))"

section \<open>Grouping\<close>

lemma kvD:
  assumes "kv_ok K"
  shows kv_Get_same: "kv_Get K (kv_Add K k e s) k = Some e"
    and kv_Get_other: "k' \<noteq> k \<Longrightarrow> kv_Get K (kv_Add K k e s) k' \<in> {kv_Get K s k', None}"
    and kv_Get_Remove: "kv_Get K (kv_Remove K k s) k' = (if k' = k then None else kv_Get K s k')"
    and kv_Get_New: "kv_Get K (kv_New K n) k = None"
  using assms unfolding kv_ok_def by blast+

lemma kept_signatures_snoc:
  "kept_signatures L now k (rrs @ [r]) =
     (if covering L k r then (if sig_valid L now r then kept_signatures L now k rrs @ [r] else [])
      else kept_signatures L now k rrs)"
  by (simp add: kept_signatures_def)

lemma kept_signatures_none: "filter (covering L k) rrs = [] \<Longrightarrow> kept_signatures L now k rrs = []"
  by (simp add: kept_signatures_def)

lemma group_at_grouped:
  assumes "grouped L now rrs rrsets sigs"
  shows "group_at rrsets k = filter (in_rrset L k) rrs" and "group_at sigs k = kept_signatures L now k rrs"
  using assms by (auto simp: grouped_def group_at_def kept_signatures_none)

lemma grouped_distinct: "grouped L now rrs rrsets sigs \<Longrightarrow> distinct (map fst rrsets)"
  by (simp add: grouped_def)

lemma grouped_nonempty: "grouped L now rrs rrsets sigs \<Longrightarrow> map_of rrsets k = Some rs \<Longrightarrow> rs \<noteq> []"
  by (auto simp: grouped_def split: if_split_asm)

lemma grouped_signature:
  assumes g: "grouped L now rrs rrsets sigs" and t: "rr_type r = TypeRRSIG" and s: "r = RRSIG sig"
  shows "grouped L now (rrs @ [r]) rrsets
     (if ValidityPeriod L sig now then append_at (Key L (rr_name r) (TypeCovered sig)) r sigs
      else AList.update (Key L (rr_name r) (TypeCovered sig)) [] sigs)"
proof -
  have "\<not> in_rrset L k r" for k using t by (simp add: in_rrset_def)
  moreover have "covering L k r \<longleftrightarrow> k = Key L (rr_name r) (TypeCovered sig)" for k
    using t s by (auto simp: covering_def)
  moreover have "sig_valid L now r = ValidityPeriod L sig now" using s by (simp add: sig_valid_def)
  ultimately show ?thesis
    using g group_at_grouped(2) [OF g] unfolding grouped_def
    by (auto simp: append_at_def update_conv' kept_signatures_snoc)
qed

lemma grouped_record:
  assumes g: "grouped L now rrs rrsets sigs" and t: "rr_type r \<noteq> TypeRRSIG" "\<not> ignored_type (rr_type r)"
  shows "grouped L now (rrs @ [r]) (append_at (Key L (rr_name r) (rr_type r)) r rrsets) sigs"
proof -
  have "\<not> covering L k r" for k using t by (simp add: covering_def)
  moreover have "in_rrset L k r \<longleftrightarrow> k = Key L (rr_name r) (rr_type r)" for k using t by (auto simp: in_rrset_def)
  ultimately show ?thesis
    using g group_at_grouped(1) [OF g] unfolding grouped_def
    by (auto simp: append_at_def update_conv' kept_signatures_snoc distinct_update)
qed

lemma grouped_ignored:
  assumes "grouped L now rrs rrsets sigs" "rr_type r \<noteq> TypeRRSIG" "ignored_type (rr_type r)"
  shows "grouped L now (rrs @ [r]) rrsets sigs"
  using assms by (simp add: grouped_def in_rrset_def covering_def kept_signatures_snoc)

lemma group_loop_spec:
  assumes "grouped L now pre rrsets sigs" "typed_signatures rs"
  shows "\<exists>rrsets' sigs'. group_loop L now rs rrsets sigs = Inr (rrsets', sigs') \<and> grouped L now (pre @ rs) rrsets' sigs'"
  using assms
proof (induction rs arbitrary: pre rrsets sigs)
  case (Cons r rs)
  have rest: "typed_signatures rs" using Cons.prems(2) by (simp add: typed_signatures_def)
  note step = Cons.IH [OF _ rest, of "pre @ [r]", simplified]
  show ?case
  proof (cases "rr_type r = TypeRRSIG")
    case True
    then obtain sig where s: "r = RRSIG sig" using Cons.prems(2) by (auto simp: typed_signatures_def)
    from step [OF grouped_signature [OF Cons.prems(1) True s]] True s show ?thesis
      by (cases "ValidityPeriod L sig now") (simp_all add: Let_def)
  next
    case nsig: False
    show ?thesis
    proof (cases "ignored_type (rr_type r)")
      case True
      from step [OF grouped_ignored [OF Cons.prems(1) nsig True]] nsig True show ?thesis by simp
    next
      case False
      from step [OF grouped_record [OF Cons.prems(1) nsig False]] nsig False show ?thesis by simp
    qed
  qed
qed simp

lemma group_loop_panics:
  "\<not> typed_signatures rs \<Longrightarrow> \<not> returns (group_loop L now rs rrsets sigs)"
proof (induction rs arbitrary: rrsets sigs)
  case (Cons r rs)
  show ?case
  proof (cases "rr_type r = TypeRRSIG \<and> as_RRSIG r = None")
    case False
    with Cons.prems have "\<not> typed_signatures rs" by (auto simp: typed_signatures_def)
    with Cons.IH False show ?thesis by (simp add: Let_def split: option.split)
  qed simp
qed (simp add: typed_signatures_def)

lemma entry_for_iff:
  assumes g: "grouped L now rrs rrsets sigs"
  shows "entry_for L now rrs k =
     (case map_of rrsets k of None \<Rightarrow> None
      | Some records \<Rightarrow>
          if signatures_usable sigs k \<and> rr_ttl (hd records) > 0 then
            Some \<lparr>e_Name = rr_name (hd records), e_Type = rr_type (hd records), e_Status = VIndeterminate, e_Rcode = 0,
              e_Records = records, e_Signatures = group_at sigs k, e_TTL = rr_ttl (hd records),
              e_Expires = now + uint (rr_ttl (hd records)) * Second\<rparr>
          else None)"
proof -
  have u: "signatures_usable sigs k \<longleftrightarrow> kept_signatures L now k rrs \<noteq> [] \<or> filter (covering L k) rrs = []"
    using g group_at_grouped(2) [OF g] by (simp add: signatures_usable_def grouped_def)
  have m: "map_of rrsets k = (if filter (in_rrset L k) rrs = [] then None else Some (filter (in_rrset L k) rrs))"
    using g by (simp add: grouped_def)
  show ?thesis
    unfolding entry_for_def Let_def u m group_at_grouped(2) [OF g]
    by (cases "filter (in_rrset L k) rrs") auto
qed

section \<open>Storing\<close>

text \<open>The entry that a visited group makes, if any.\<close>

lemma store_loop_Cons:
  assumes "records \<noteq> []"
  shows "store_loop K now sigs ((k, records) # rest) s =
     store_loop K now sigs rest
       (if signatures_usable sigs k \<and> rr_ttl (hd records) > 0 then
          kv_Add K k \<lparr>e_Name = rr_name (hd records), e_Type = rr_type (hd records), e_Status = VIndeterminate,
            e_Rcode = 0, e_Records = records, e_Signatures = group_at sigs k, e_TTL = rr_ttl (hd records),
            e_Expires = now + uint (rr_ttl (hd records)) * Second\<rparr> s
        else s)"
  using assms by (cases records) (simp_all add: Let_def)

declare store_loop.simps(2) [simp del]

lemma store_loop_spec:
  assumes kv: "kv_ok K" and g: "grouped L now rrs rrsets sigs"
    and gs: "distinct (map fst gs)" "\<And>k rs. (k, rs) \<in> set gs \<Longrightarrow> map_of rrsets k = Some rs \<and> rs \<noteq> []"
  shows "\<exists>s'. store_loop K now sigs gs s = Inr s' \<and>
     (\<forall>k. kv_Get K s' k \<in>
        {if k \<in> fst ` set gs \<and> entry_for L now rrs k \<noteq> None then entry_for L now rrs k else kv_Get K s k, None}) \<and>
     (kv_roomy K \<longrightarrow> (\<forall>k. kv_Get K s' k =
        (if k \<in> fst ` set gs \<and> entry_for L now rrs k \<noteq> None then entry_for L now rrs k else kv_Get K s k)))"
  using gs
proof (induction gs arbitrary: s)
  case (Cons x gs)
  obtain k rs where x: "x = (k, rs)" by (cases x)
  have rs: "rs \<noteq> []" "map_of rrsets k = Some rs" using Cons.prems(2) [of k rs] x by auto
  have gs: "distinct (map fst gs)" "\<And>k rs. (k, rs) \<in> set gs \<Longrightarrow> map_of rrsets k = Some rs \<and> rs \<noteq> []"
    and new: "k \<notin> fst ` set gs" using Cons.prems x by auto
  let ?e = "entry_for L now rrs k"
  let ?s = "case ?e of None \<Rightarrow> s | Some e \<Rightarrow> kv_Add K k e s"
  have "store_loop K now sigs (x # gs) s = store_loop K now sigs gs ?s"
    unfolding x store_loop_Cons [OF rs(1)] entry_for_iff [OF g] rs(2) by simp
  moreover obtain s' where s': "store_loop K now sigs gs ?s = Inr s'"
    "\<And>j. kv_Get K s' j \<in>
        {if j \<in> fst ` set gs \<and> entry_for L now rrs j \<noteq> None then entry_for L now rrs j else kv_Get K ?s j, None}"
    "\<And>j. kv_roomy K \<Longrightarrow> kv_Get K s' j =
        (if j \<in> fst ` set gs \<and> entry_for L now rrs j \<noteq> None then entry_for L now rrs j else kv_Get K ?s j)"
    using Cons.IH [OF gs, of ?s] by blast
  moreover have "kv_Get K s' j \<in> {if j \<in> fst ` set (x # gs) \<and> entry_for L now rrs j \<noteq> None
        then entry_for L now rrs j else kv_Get K s j, None}" for j
    using s'(2) [of j] new kv_Get_same [OF kv, of k _ s] kv_Get_other [OF kv, of j k "the ?e" s]
    by (cases "j = k") (auto simp: x split: option.split_asm if_split_asm)
  moreover have "kv_Get K s' j = (if j \<in> fst ` set (x # gs) \<and> entry_for L now rrs j \<noteq> None
        then entry_for L now rrs j else kv_Get K s j)" if "kv_roomy K" for j
    using s'(3) [OF that, of j] new kv_Get_same [OF kv, of k _ s] that [unfolded kv_roomy_def, rule_format, of j k _ s]
    by (cases "j = k") (auto simp: x split: option.split)
  ultimately show ?case by (intro exI [of _ s']) simp
qed simp

text \<open>
  What an update leaves in the store: for each key the entry of the message, where it has one,
  and otherwise what was there; the store may evict.
\<close>

lemma UpdateWithTime_spec:
  assumes kv: "kv_ok K" and visit: "\<And>g. mset (visit g) = mset g"
    and t: "\<not> Truncated m" "typed_signatures (Answer m @ Ns m @ Extra m)"
  shows "\<exists>s'. UpdateWithTime L K visit zone q m now s = Inr (None, s') \<and>
     (\<forall>k. kv_Get K s' k \<in> {case entry_for L now (Answer m @ Ns m @ Extra m) k of Some e \<Rightarrow> Some e | None \<Rightarrow> kv_Get K s k, None}) \<and>
     (kv_roomy K \<longrightarrow> (\<forall>k. kv_Get K s' k =
        (case entry_for L now (Answer m @ Ns m @ Extra m) k of Some e \<Rightarrow> Some e | None \<Rightarrow> kv_Get K s k)))"
proof -
  let ?all = "Answer m @ Ns m @ Extra m"
  have "grouped L now [] [] []" by (simp add: grouped_def)
  from group_loop_spec [OF this t(2)] obtain rrsets sigs where
    g: "group_loop L now ?all [] [] = Inr (rrsets, sigs)" "grouped L now ?all rrsets sigs" by auto
  have same: "set (visit rrsets) = set rrsets" "distinct (map fst (visit rrsets))"
  proof -
    show "set (visit rrsets) = set rrsets" using visit by (metis set_mset_mset)
    have "mset (map fst (visit rrsets)) = mset (map fst rrsets)" using visit by simp
    from mset_eq_imp_distinct_iff [OF this] show "distinct (map fst (visit rrsets))" using g(2) by (simp add: grouped_def)
  qed
  have gs: "map_of rrsets k = Some rs \<and> rs \<noteq> []" if "(k, rs) \<in> set (visit rrsets)" for k rs
    using map_of_is_SomeI [of rrsets k rs] that same(1) g(2) grouped_nonempty [OF g(2), of k rs] grouped_distinct [OF g(2)] by simp
  have dom: "k \<in> fst ` set (visit rrsets)" if "entry_for L now ?all k \<noteq> None" for k
    using that same(1) unfolding entry_for_iff [OF g(2)] by (auto split: option.split_asm dest!: map_of_SomeD intro!: rev_image_eqI)
  from store_loop_spec [OF kv g(2) same(2) gs, of s] obtain s' where
    s': "store_loop K now sigs (visit rrsets) s = Inr s'"
    "\<And>k. kv_Get K s' k \<in> {if k \<in> fst ` set (visit rrsets) \<and> entry_for L now ?all k \<noteq> None
        then entry_for L now ?all k else kv_Get K s k, None}"
    "\<And>k. kv_roomy K \<Longrightarrow> kv_Get K s' k = (if k \<in> fst ` set (visit rrsets) \<and> entry_for L now ?all k \<noteq> None
        then entry_for L now ?all k else kv_Get K s k)" by blast
  have eq: "(if k \<in> fst ` set (visit rrsets) \<and> entry_for L now ?all k \<noteq> None then entry_for L now ?all k else kv_Get K s k) =
      (case entry_for L now ?all k of Some e \<Rightarrow> Some e | None \<Rightarrow> kv_Get K s k)" for k
    using dom [of k] by (auto split: option.split)
  show ?thesis
    using g(1) s'(1) s'(2,3) [unfolded eq] t(1) by (intro exI [of _ s']) (simp add: UpdateWithTime_def)
qed

text \<open>A lookup answers from an entry under the key of the question that has not expired.\<close>

lemma GetWithTime_answers:
  assumes "GetWithTime L K zone (Some qmsg) now s = ((Some m, None), s')"
  shows "\<exists>q qs e. Question qmsg = q # qs \<and> kv_Get K s (Key L (qName q) (Qtype q)) = Some e \<and>
     now \<le> e_Expires e \<and> m = reply_of L qmsg e \<and> s' = s"
  using assms by (auto simp: GetWithTime_def Let_def split: list.splits option.splits if_split_asm)

lemma group_loop_ends [nofuel_intros]: "nofuel (group_loop L now rs rrsets sigs)"
  by (induction rs arbitrary: rrsets sigs) (auto simp: Let_def split: option.split)

lemma store_loop_ends [nofuel_intros]: "nofuel (store_loop K now sigs gs s)"
proof (induction gs arbitrary: s)
  case (Cons x gs)
  then show ?case by (cases x) (auto simp: store_loop.simps(2) Let_def intro!: nofuel_intros)
qed simp

lemma UpdateWithTime_ends [nofuel_intros]: "nofuel (UpdateWithTime L K visit zone q m now s)"
  by (auto simp: UpdateWithTime_def Let_def split: prod.split intro!: nofuel_intros)

end
