(* ===== verification/Zone_Impl.thy ===== *)
theory Zone_Impl
  imports Zone_Factory Cache
begin

text \<open>
  zone.go: the implementation \<open>zoneImpl\<close> of the interface \<open>zone\<close>. The fields that never
  change (the names and the pointer to the pool) are kept in the reference \<open>zone_ref\<close>, the
  mutable ones in a cell of the heap. Clones share the pool of their original through the
  pointer. The state \<open>world\<close> holds the heap of cells and pools, the cache of the
  configuration, the IPv6 flags and the state of the network.

  The goroutine that updates the cache runs to its end where the source starts it; log
  messages are left out.
\<close>

section \<open>State\<close>

record zone_ref =
  zoneName :: string
  parentName :: string
  zpool :: "nat option"
  zid :: nat

record zone_cell =
  calls :: u64
  dnskeyRecords :: "rr list"
  dnskeyExpiry :: "gotime option"

record ('s, 'n) world =
  cells :: "zone_cell list"
  pools :: "nameserverPool list"
  w_cache :: "'s option"
  w_ipv6 :: ipv6_state
  net :: 'n

text \<open>The library, the package variables, the configuration, the network and the store.\<close>

record ('s, 'n) platform =
  lib :: dnslib
  vars :: resolver_vars
  config :: Config
  transport :: "'n transport"
  store :: "'s kvstore"
  visit :: "groups \<Rightarrow> groups"
  uuid :: "'n \<Rightarrow> string \<times> 'n"

definition Now :: "('s, 'n) platform \<Rightarrow> ('s, 'n) world \<Rightarrow> gotime" where
  "Now P w = t_now (transport P) (net w)"

definition check_IPv6 :: "('s, 'n) platform \<Rightarrow> ('s, 'n) world \<Rightarrow> bool \<times> ('s, 'n) world" where
  "check_IPv6 P w =
     (let (b, s, started) = IPv6Available (w_ipv6 w) in
      if started then
        let (s, n) = UpdateIPv6Availability (lib P) (transport P) s (net w) in (b, w\<lparr>w_ipv6 := s, net := n\<rparr>)
      else (b, w\<lparr>w_ipv6 := s\<rparr>))"

definition new_uuid :: "('s, 'n) platform \<Rightarrow> ('s, 'n) world \<Rightarrow> string \<times> ('s, 'n) world" where
  "new_uuid P w = (let (i, n) = uuid P (net w) in (i, w\<lparr>net := n\<rparr>))"

definition zone_runtime :: "('s, 'n) platform \<Rightarrow> ('s, 'n) world runtime" where
  "zone_runtime P = \<lparr>rt_now = Now P, rt_uuid = new_uuid P, rt_ip6 = check_IPv6 P\<rparr>"

section \<open>zone.go\<close>

definition new_cell :: zone_cell where
  "new_cell = \<lparr>calls = 0, dnskeyRecords = [], dnskeyExpiry = None\<rparr>"

definition zone_new :: "string \<Rightarrow> string \<Rightarrow> nameserverPool \<Rightarrow> ('s, 'n) world \<Rightarrow> zone_ref \<times> ('s, 'n) world" where
  "zone_new name parent pool w =
     (\<lparr>zoneName = name, parentName = parent, zpool = Some (length (pools w)), zid = length (cells w)\<rparr>,
      w\<lparr>cells := cells w @ [new_cell], pools := pools w @ [pool]\<rparr>)"

definition zone_expired :: "('s, 'n) platform \<Rightarrow> zone_ref \<Rightarrow> ('s, 'n) world \<Rightarrow> bool go" where
  "zone_expired P z w =
     (case zpool z of
        None \<Rightarrow> Inl NilDereference
      | Some i \<Rightarrow> bindG (go_nth (pools w) i) (\<lambda>pool. Inr (pool_expired (Now P w) pool)))"

definition zone_clone ::
  "('s, 'n) platform \<Rightarrow> zone_ref \<Rightarrow> string \<Rightarrow> string \<Rightarrow> ('s, 'n) world \<Rightarrow> (zone_ref \<times> ('s, 'n) world) go" where
  "zone_clone P z name parent w =
     (if canonicalName (lib P) name = canonicalName (lib P) parent \<or> \<not> IsSubDomain (lib P) parent name
      then Inl (Panic ''invalid clone'')
      else Inr (\<lparr>zoneName = canonicalName (lib P) name, parentName = canonicalName (lib P) parent,
                  zpool = zpool z, zid = length (cells w)\<rparr>,
                w\<lparr>cells := cells w @ [new_cell]\<rparr>))"

definition set_cell :: "zone_ref \<Rightarrow> (zone_cell \<Rightarrow> zone_cell) \<Rightarrow> ('s, 'n) world \<Rightarrow> ('s, 'n) world" where
  "set_cell z f w = w\<lparr>cells := (cells w)[zid z := f (cells w ! zid z)]\<rparr>"

definition cache_lookup ::
  "('s, 'n) platform \<Rightarrow> zone_ref \<Rightarrow> msg \<Rightarrow> ('s, 'n) world \<Rightarrow> msg option \<times> ('s, 'n) world" where
  "cache_lookup P z m w =
     (case w_cache w of
        None \<Rightarrow> (None, w)
      | Some s \<Rightarrow>
          let ((r, err), s) = Get (lib P) (store P) (Now P) w (zoneName z) (Some m) s;
              w = w\<lparr>w_cache := Some s\<rparr>
          in if err \<noteq> None then (None, w) else (r, w))"

definition cache_update ::
  "('s, 'n) platform \<Rightarrow> zone_ref \<Rightarrow> msg \<Rightarrow> Response \<Rightarrow> ('s, 'n) world \<Rightarrow> ('s, 'n) world go" where
  "cache_update P z m response w =
     (case (w_cache w, Msg response) of
        (Some s, Some rm) \<Rightarrow>
          if Err response = None then
            bindG (go_nth (Question m) 0) (\<lambda>q.
              let rm = rm\<lparr>Extra := removeRecordsOfType (Extra rm) TypeOPT\<rparr> in
              bindG (Update (lib P) (store P) (visit P) (Now P) w (zoneName z) q rm s)
                (\<lambda>(err, s). Inr (w\<lparr>w_cache := Some s\<rparr>)))
          else Inr w
      | _ \<Rightarrow> Inr w)"

definition zone_exchange ::
  "('s, 'n) platform \<Rightarrow> zone_ref \<Rightarrow> msg \<Rightarrow> ('s, 'n) world \<Rightarrow> (Response option \<times> msg \<times> ('s, 'n) world) go" where
  "zone_exchange P z m w =
     (let w = set_cell z (\<lambda>c. c\<lparr>calls := calls c + 1\<rparr>) w;
          (cached, w) = cache_lookup P z m w
      in case cached of
           Some r \<Rightarrow> Inr (Some (zero_Response\<lparr>Msg := Some r\<rparr>), m, w)
         | None \<Rightarrow>
             (case zpool z of
                None \<Rightarrow> Inr (Some (newResponseError (Wrap [RErr ErrNoPoolConfiguredForZone])), m, w)
              | Some i \<Rightarrow>
                  bindG (go_nth (pools w) i) (\<lambda>pool.
                    let (ip6, w) = (if hasIPv6 pool then check_IPv6 P w else (False, w)) in
                    bindG (pool_exchange (lib P) (transport P) (config P) ip6 pool m (net w)) (\<lambda>(r, pool, m, n).
                      let w = w\<lparr>pools := (pools w)[i := pool], net := n\<rparr> in
                      bindG (cache_update P z m r w) (\<lambda>w. Inr (Some r, m, w))))))"

definition zone_soa ::
  "('s, 'n) platform \<Rightarrow> zone_ref \<Rightarrow> string \<Rightarrow> ('s, 'n) world \<Rightarrow>
     ((rr_hdr option \<times> goerr option) \<times> ('s, 'n) world) go" where
  "zone_soa P z name w =
     (let soaMsg = SetQuestion (lib P) new_Msg (Fqdn (lib P) name) TypeSOA;
          soaMsg = soaMsg\<lparr>RecursionDesired := False\<rparr>
      in bindG (zone_exchange P z soaMsg w) (\<lambda>(response, _, w).
           case response of
             None \<Rightarrow> Inr ((None, Some (RErr ErrEmptyResponse)), w)
           | Some r \<Rightarrow>
               (case Msg r of
                  None \<Rightarrow> Inr ((None, Some (RErr ErrEmptyResponse)), w)
                | Some m \<Rightarrow>
                    if Err r \<noteq> None then Inr ((None, Err r), w)
                    else if \<not> recordsOfTypeExist (Answer m) TypeSOA then Inr ((None, None), w)
                    else
                      let soas = extractRecords as_SOA (Answer m) in
                      if length soas \<noteq> 1 then Inr ((None, Some MsgErr), w)
                      else Inr ((Some (hd soas), None), w))))"

definition keys_fresh :: "gotime \<Rightarrow> zone_cell \<Rightarrow> bool" where
  "keys_fresh now c = (case dnskeyExpiry c of None \<Rightarrow> False | Some t \<Rightarrow> \<not> t < now)"

definition keys_ttl :: "resolver_vars \<Rightarrow> rr list \<Rightarrow> u32" where
  "keys_ttl v rrs = fold (\<lambda>r t. min t (rr_ttl r)) rrs (rv_MaxAllowedTTL v)"

definition zone_dnskeys ::
  "('s, 'n) platform \<Rightarrow> zone_ref \<Rightarrow> ('s, 'n) world \<Rightarrow> ((rr list \<times> goerr option) \<times> ('s, 'n) world) go" where
  "zone_dnskeys P z w =
     (let c = cells w ! zid z in
      if keys_fresh (Now P w) c then Inr ((dnskeyRecords c, None), w)
      else
        let m = SetQuestion (lib P) new_Msg (Fqdn (lib P) (zoneName z)) TypeDNSKEY;
            m = SetEdns0 (lib P) m (udpsize (config P)) True;
            m = m\<lparr>RecursionDesired := False\<rparr>
        in bindG (zone_exchange P z m w) (\<lambda>(response, _, w).
             if HasError response then
               Inr (([], Some (Wrap (RErr ErrFailedToGetDNSKEYs # (case response of Some r \<Rightarrow> (case Err r of Some e \<Rightarrow> [e] | None \<Rightarrow> []) | None \<Rightarrow> [])))), w)
             else case response of
                    None \<Rightarrow> Inr (([], Some (Wrap [RErr ErrFailedToGetDNSKEYs])), w)
                  | Some r \<Rightarrow>
                      (case Msg r of
                         None \<Rightarrow> Inr (([], Some (Wrap [RErr ErrFailedToGetDNSKEYs])), w)
                       | Some rm \<Rightarrow>
                           if length (Answer rm) = 0 then
                             Inr (([], None), set_cell z (\<lambda>c. c\<lparr>dnskeyExpiry := Some (Now P w + 60 * Second)\<rparr>) w)
                           else
                             Inr ((Answer rm, None),
                               set_cell z (\<lambda>c. c\<lparr>dnskeyRecords := Answer rm,
                                 dnskeyExpiry := Some (Now P w + uint (keys_ttl (vars P) (Answer rm)) * Second)\<rparr>) w))))"

text \<open>The interface. A zone without a pool cannot be asked whether it has expired.\<close>

definition zone_impl :: "('s, 'n) platform \<Rightarrow> (zone_ref, ('s, 'n) world) zone_env" where
  "zone_impl P = \<lparr>zm_name = zoneName, zm_parent = parentName,
     zm_expired = (\<lambda>z w. case zone_expired P z w of Inr b \<Rightarrow> b | Inl _ \<Rightarrow> False),
     zm_clone = zone_clone P, zm_exchange = zone_exchange P, zm_soa = zone_soa P, zm_dnskeys = zone_dnskeys P,
     zm_new = zone_new\<rparr>"

definition world_inv :: "('s, 'n) world \<Rightarrow> bool" where
  "world_inv w \<longleftrightarrow> (\<forall>p \<in> set (pools w). pool_inv p)"

definition ref_ok :: "('s, 'n) world \<Rightarrow> zone_ref \<Rightarrow> bool" where
  "ref_ok w z \<longleftrightarrow> zid z < length (cells w) \<and> (\<exists>i. zpool z = Some i \<and> i < length (pools w))"

text \<open>The records of a message that the library has unpacked have the type of their header.\<close>

definition typed_message :: "msg \<Rightarrow> bool" where
  "typed_message m \<longleftrightarrow> typed_signatures (Answer m @ Ns m @ Extra m)"

definition network_ok :: "'n transport \<Rightarrow> bool" where
  "network_ok T \<longleftrightarrow> transport_ok T \<and> replies T typed_message"

section \<open>Specification vocabulary\<close>

section \<open>The interface\<close>

lemma zone_impl_simps [simp]:
  "zm_name (zone_impl P) = zoneName" "zm_parent (zone_impl P) = parentName"
  "zm_clone (zone_impl P) = zone_clone P" "zm_exchange (zone_impl P) = zone_exchange P"
  "zm_soa (zone_impl P) = zone_soa P" "zm_dnskeys (zone_impl P) = zone_dnskeys P" "zm_new (zone_impl P) = zone_new"
  by (simp_all add: zone_impl_def)

lemma cache_update_ends [nofuel_intros]: "nofuel (cache_update P z m r w)"
  by (auto simp: cache_update_def Update_def Let_def split: option.split prod.split intro!: nofuel_intros)

lemma zone_exchange_ends [nofuel_intros]: "nofuel (zone_exchange P z m w)"
  unfolding zone_exchange_def Let_def
  by (auto split: option.split prod.split intro!: nofuel_intros)

lemma zone_soa_ends [nofuel_intros]: "nofuel (zone_soa P z n w)"
  unfolding zone_soa_def Let_def
  by (auto split: option.split prod.split intro!: nofuel_intros)

lemma zone_dnskeys_ends [nofuel_intros]: "nofuel (zone_dnskeys P z w)"
  unfolding zone_dnskeys_def Let_def
  by (auto split: option.split prod.split intro!: nofuel_intros)

lemma zone_exchange_query:
  assumes "zone_exchange P z m w = Inr (r, m', w')"
  shows "same_query m m'"
proof -
  have pool: "wpG (\<lambda>_. True) (pool_exchange L T cfg ip6 p m n) (\<lambda>(r, p', m', n'). same_query m m')" for L T cfg ip6 p n
    by (rule wpG_I) (auto simp: replies_def dest: pool_exchange_frame [where Q = "\<lambda>_. True"])
  have "wpG (\<lambda>_. True) (zone_exchange P z m w) (\<lambda>(r, m', w'). same_query m m')"
    by (auto simp: zone_exchange_def Let_def wp_simps split: option.split prod.split intro!: wpG_mono [OF pool] wpG_I)
  from wpG_Inr [OF this assms] show ?thesis by simp
qed

interpretation zimpl: zone_provider "lib P" "zone_impl P" for P
proof
  fix n p pool w z w'
  assume "zm_new (zone_impl P) n p pool w = (z, w')"
  then show "zm_name (zone_impl P) z = n \<and> zm_parent (zone_impl P) z = p" by (auto simp: zone_new_def)
next
  fix z n p w z' w'
  assume "zm_clone (zone_impl P) z n p w = Inr (z', w')"
  then show "zm_name (zone_impl P) z' = canonicalName (lib P) n \<and> zm_parent (zone_impl P) z' = canonicalName (lib P) p"
    by (auto simp: zone_clone_def split: if_split_asm)
qed (auto simp: zone_clone_def zone_exchange_ends zone_soa_ends zone_dnskeys_ends dest: zone_exchange_query)

section \<open>The heap\<close>

lemma set_cell_frame [simp]:
  "pools (set_cell z f w) = pools w" "w_cache (set_cell z f w) = w_cache w" "net (set_cell z f w) = net w"
  "length (cells (set_cell z f w)) = length (cells w)" "w_ipv6 (set_cell z f w) = w_ipv6 w" "Now P (set_cell z f w) = Now P w"
  by (simp_all add: set_cell_def Now_def)

lemma check_IPv6_frame:
  "check_IPv6 P w = (b, w') \<Longrightarrow> pools w' = pools w \<and> cells w' = cells w \<and> w_cache w' = w_cache w"
  by (auto simp: check_IPv6_def Let_def split: prod.split_asm if_split_asm)

lemma cache_lookup_frame:
  "cache_lookup P z m w = (r, w') \<Longrightarrow>
     pools w' = pools w \<and> cells w' = cells w \<and> net w' = net w \<and> (w_cache w' = None \<longleftrightarrow> w_cache w = None)"
  by (auto simp: cache_lookup_def Let_def split: option.split_asm prod.split_asm if_split_asm)

lemma cache_update_ok:
  assumes "kv_ok (store P)" "\<And>g. mset (visit P g) = mset g" "Question m \<noteq> []" "\<forall>x. Msg r = Some x \<longrightarrow> typed_message x"
  shows "\<exists>w'. cache_update P z m r w = Inr w' \<and> pools w' = pools w \<and> cells w' = cells w \<and> net w' = net w"
proof (cases "w_cache w = None \<or> Msg r = None \<or> Err r \<noteq> None")
  case True
  then show ?thesis by (auto simp: cache_update_def split: option.split)
next
  case False
  then obtain s rm where s: "w_cache w = Some s" "Msg r = Some rm" "Err r = None" by auto
  let ?rm = "rm\<lparr>Extra := removeRecordsOfType (Extra rm) TypeOPT\<rparr>"
  have t: "typed_signatures (Answer ?rm @ Ns ?rm @ Extra ?rm)"
    using assms(4) s(2) by (auto simp: typed_message_def typed_signatures_def removeRecordsOfType_filter)
  have "\<exists>e s'. UpdateWithTime (lib P) (store P) (visit P) (zoneName z) q ?rm (Now P w) s = Inr (e, s')" for q
  proof (cases "Truncated ?rm")
    case True
    then show ?thesis by (simp add: UpdateWithTime_def)
  next
    case False
    from UpdateWithTime_spec [OF assms(1,2) False t, of "lib P" "zoneName z" q "Now P w" s] show ?thesis by blast
  qed
  then obtain e s' where "UpdateWithTime (lib P) (store P) (visit P) (zoneName z) (Question m ! 0) ?rm (Now P w) s = Inr (e, s')"
    by blast
  with s assms(3) show ?thesis by (simp add: cache_update_def Update_def)
qed

text \<open>
  An exchange returns a response without a panic, keeps the heap well-formed, and answers
  from the cache or with the outcome of the pool.
\<close>

lemma zone_exchange_ok:
  assumes env: "network_ok (transport P)" "kv_ok (store P)" "\<And>g. mset (visit P g) = mset g"
    and w: "world_inv w" "ref_ok w z" and q: "Question m \<noteq> []"
  shows "\<exists>r m' w'. zone_exchange P z m w = Inr (Some r, m', w') \<and> world_inv w' \<and> Question m' = Question m \<and>
     length (cells w') = length (cells w) \<and> length (pools w') = length (pools w) \<and>
     (Err r = None \<longrightarrow> Msg r \<noteq> None) \<and>
     (\<forall>j < length (cells w). dnskeyRecords (cells w' ! j) = dnskeyRecords (cells w ! j))"
proof -
  let ?w0 = "set_cell z (\<lambda>c. c\<lparr>calls := calls c + 1\<rparr>) w"
  have keys: "dnskeyRecords (cells ?w0 ! j) = dnskeyRecords (cells w ! j)" if "j < length (cells w)" for j
    using that by (cases "j = zid z") (auto simp: set_cell_def)
  obtain c w1 where c: "cache_lookup P z m ?w0 = (c, w1)" by fastforce
  note f1 = cache_lookup_frame [OF c]
  obtain i where i: "zpool z = Some i" "i < length (pools w)" using w(2) by (auto simp: ref_ok_def)
  show ?thesis
  proof (cases c)
    case (Some r)
    with c f1 keys w(1) show ?thesis by (simp add: zone_exchange_def Let_def world_inv_def zero_Response_def)
  next
    case None
    let ?p = "pools w ! i"
    obtain ip6 w2 where ip6: "(if hasIPv6 ?p then check_IPv6 P w1 else (False, w1)) = (ip6, w2)" by fastforce
    have f2: "pools w2 = pools w \<and> cells w2 = cells ?w0"
      using f1 ip6 check_IPv6_frame [of P w1 ip6 w2] by (auto split: if_split_asm)
    have p: "pool_inv ?p" using w(1) i(2) by (simp add: world_inv_def)
    from pool_exchange_ok [OF _ p q, of "transport P" "lib P" "config P" ip6 "net w2"] env(1)
    obtain r p' m' n' where x: "pool_exchange (lib P) (transport P) (config P) ip6 ?p m (net w2) = Inr (r, p', m', n')"
      "same_shape ?p p'" "Err r = None \<longrightarrow> Msg r \<noteq> None" by (auto simp: network_ok_def)
    have fr: "Question m' = Question m" "\<forall>x. Msg r = Some x \<longrightarrow> typed_message x"
      using pool_exchange_frame [OF x(1), of typed_message] env(1) by (simp_all add: network_ok_def)
    have "Question m' \<noteq> []" using fr(1) q by simp
    from cache_update_ok [OF env(2,3) this fr(2), of z "w2\<lparr>pools := (pools w2)[i := p'], net := n'\<rparr>"]
    obtain w3 where w3: "cache_update P z m' r (w2\<lparr>pools := (pools w2)[i := p'], net := n'\<rparr>) = Inr w3"
      "pools w3 = (pools w)[i := p']" "cells w3 = cells ?w0" using f2 by auto
    have "zone_exchange P z m w = Inr (Some r, m', w3)"
      using c None i f1 ip6 x(1) w3(1) by (simp add: zone_exchange_def Let_def)
    moreover have "world_inv w3"
      using w(1) same_shape_inv [OF x(2) p] w3(2) by (auto simp: world_inv_def dest!: set_update_subset_insert [THEN subsetD])
    ultimately show ?thesis using fr(1) x(3) w3(2,3) keys by simp
  qed
qed

section \<open>DNSKEY records\<close>

text \<open>Keys that are fresh are handed out without an exchange.\<close>

lemma dnskeys_fresh:
  "keys_fresh (Now P w) (cells w ! zid z) \<Longrightarrow> zone_dnskeys P z w = Inr ((dnskeyRecords (cells w ! zid z), None), w)"
  by (simp add: zone_dnskeys_def Let_def)

lemma keys_ttl_Min: "keys_ttl v rrs = Min (insert (rv_MaxAllowedTTL v) (rr_ttl ` set rrs))"
  unfolding keys_ttl_def by (rule fold_min_eq_Min)

lemma keys_ttl_le: "keys_ttl v rrs \<le> rv_MaxAllowedTTL v" "r \<in> set rrs \<Longrightarrow> keys_ttl v rrs \<le> rr_ttl r"
  by (simp_all add: keys_ttl_Min)

end
