(* ===== verification/Resolver.thy ===== *)
theory Resolver
  imports Resolver_Store Resolver_Bounds Resolver_Validation Zone_Impl
begin

text \<open>
  resolver.go and the file part of \<open>LoadAnchors\<close> (dnssec/config.go): building a resolver. The
  file system and the zone file parser are the record \<open>files\<close>. The resolver is the one of
  Resolver\_Exchange on the zones of Zone\_Impl; the interpretations of the interfaces on it
  are here, with the invariant that the pool of the root zone never expires.
\<close>

section \<open>dnssec/config.go: LoadAnchors\<close>

record files =
  open_anchors :: "string \<Rightarrow> (goerr + KeyDigest list) option"
  ReadFile :: "string \<Rightarrow> goerr + string"
  parse_zone :: "string \<Rightarrow> rr list \<times> goerr option"

definition LoadAnchorsFile :: "files \<Rightarrow> (nat \<Rightarrow> gotime) \<Rightarrow> string \<Rightarrow> dnssec_cfg \<Rightarrow> dnssec_cfg go" where
  "LoadAnchorsFile F now anchorfile dcfg =
     (case open_anchors F anchorfile of
        None \<Rightarrow> Inl (Panic ''Root anchors file not found'')
      | Some (Inl e) \<Rightarrow> Inl (Panic ''Failed to decode root anchors'')
      | Some (Inr kds) \<Rightarrow> Inr (dcfg\<lparr>RootTrustAnchors := LoadAnchors now 0 kds []\<rparr>))"

section \<open>resolver.go\<close>

fun root_pool_loop :: "rr list \<Rightarrow> nameserverPool \<Rightarrow> nameserverPool" where
  "root_pool_loop [] pool = pool"
| "root_pool_loop (r # rs) pool =
     (case r of
        A h a \<Rightarrow> root_pool_loop rs (pool\<lparr>ipv4 := ipv4 pool @ [newNameserver (Name h) a]\<rparr>)
      | AAAA h a \<Rightarrow> root_pool_loop rs (pool\<lparr>ipv6 := ipv6 pool @ [newNameserver (Name h) a]\<rparr>)
      | _ \<Rightarrow> root_pool_loop rs pool)"

definition buildRootServerPool :: "files \<Rightarrow> string \<Rightarrow> goerr + nameserverPool" where
  "buildRootServerPool F rootZone =
     (let (rrs, err) = parse_zone F rootZone;
          pool = root_pool_loop rrs empty_pool
      in case err of Some e \<Rightarrow> Inl e | None \<Rightarrow> Inr (updateIPCount pool))"

definition new_world :: "('s, 'n) platform \<Rightarrow> 'n \<Rightarrow> ('s, 'n) world" where
  "new_world P n = \<lparr>cells = [], pools = [],
     w_cache = (case cfg_cache (config P) of
                  None \<Rightarrow> None | Some sz \<Rightarrow> c_cache (NewCache (store P) [WithCapacity sz])),
     w_ipv6 = \<lparr>ipv6Check = False, ipv6Answered = False, ipv6Available = False\<rparr>, net = n\<rparr>"

type_synonym ('s, 'n) real_state = "(zone_ref, ('s, 'n) world) state"
type_synonym ('s, 'n) real_resolver = "(zone_ref, ('s, 'n) world) resolver"

definition build_resolver ::
  "('s, 'n) platform \<Rightarrow> dnssec_cfg \<Rightarrow> (('s, 'n) real_state \<Rightarrow> nat \<Rightarrow> nat \<Rightarrow> sigclock) \<Rightarrow> ('s, 'n) real_resolver" where
  "build_resolver P dcfg clk = \<lparr>rs_lib = lib P, rs_vars = vars P, rs_config = config P, rs_dnssec = dcfg,
     rs_clock = clk, rs_runtime = zone_runtime P, rs_env = zone_impl P\<rparr>"

definition NewResolver ::
  "('s, 'n) platform \<Rightarrow> files \<Rightarrow> (nat \<Rightarrow> gotime) \<Rightarrow> (('s, 'n) real_state \<Rightarrow> nat \<Rightarrow> nat \<Rightarrow> sigclock) \<Rightarrow> dnssec_cfg \<Rightarrow>
     'n \<Rightarrow> (('s, 'n) real_resolver \<times> ('s, 'n) real_state) go" where
  "NewResolver P F now clk dcfg n =
     bindG (LoadAnchorsFile F now (rootAnchorFile (config P)) dcfg) (\<lambda>dcfg.
       case ReadFile F (rootZoneFile (config P)) of
         Inl e \<Rightarrow> Inl (Panic ''root zone file'')
       | Inr rootZoneStr \<Rightarrow>
           (case buildRootServerPool F rootZoneStr of
              Inl e \<Rightarrow> Inl (Panic ''root zone'')
            | Inr pool \<Rightarrow>
                let (z, w) = zone_new ''.'' '''' pool (new_world P n)
                in Inr (build_resolver P dcfg clk, (zones_add (lib P) (zone_impl P) z [], w))))"

definition CountZones :: "('s, 'n) real_state \<Rightarrow> nat" where
  "CountZones s = zones_count (fst s)"

section \<open>Specification vocabulary\<close>

text \<open>The pool at index 0, which is the root's, never expires.\<close>

definition root_alive :: "('s, 'n) world \<Rightarrow> bool" where
  "root_alive w \<longleftrightarrow> pools w \<noteq> [] \<and> expires (pools w ! 0) = 0"

text \<open>The reference to the root zone of a new resolver.\<close>

definition root_ref :: zone_ref where
  "root_ref = \<lparr>zoneName = ''.'', parentName = '''', zpool = Some 0, zid = 0\<rparr>"

section \<open>The interfaces hold\<close>

lemma build_resolver_simps [simp]:
  "rs_lib (build_resolver P dcfg clk) = lib P" "rs_vars (build_resolver P dcfg clk) = vars P"
  "rs_env (build_resolver P dcfg clk) = zone_impl P" "rs_runtime (build_resolver P dcfg clk) = zone_runtime P"
  "rs_config (build_resolver P dcfg clk) = config P" "rs_dnssec (build_resolver P dcfg clk) = dcfg"
  by (simp_all add: build_resolver_def)

interpretation real_zones: resolver_zones "build_resolver P dcfg clk" for P dcfg clk
proof -
  have "zone_provider (lib P) (zone_impl P)" ..
  then show "resolver_zones (build_resolver P dcfg clk)" by (simp add: resolver_zones_def)
qed

lemma try_expires:
  "ok (try_IPv4 L T cfg ro p m n) (\<lambda>(ro', p', m', n'). expires p' = expires p)"
  "ok (try_IPv6 L T cfg ro p m n) (\<lambda>(ro', p', m', n'). expires p' = expires p)"
proof -
  have one: "ok (nameserver_exchange L T cfg s (Some m) n) (\<lambda>(r, server, mo, w). Q r server mo w)"
    if "\<And>r server mo w. Q r server mo w" for s Q by (rule ok_trivial) (use that in auto)
  show "ok (try_IPv4 L T cfg ro p m n) (\<lambda>(ro', p', m', n'). expires p' = expires p)"
    using get_shape(1) [of p] by (cases "getIPv4 p")
      (auto simp: try_IPv4_def same_shape_def wpG_bindG case_prod_unfold split: option.split intro!: ok_trivial)
  show "ok (try_IPv6 L T cfg ro p m n) (\<lambda>(ro', p', m', n'). expires p' = expires p)"
    using get_shape(2) [of p] by (cases "getIPv6 p")
      (auto simp: try_IPv6_def same_shape_def wpG_bindG case_prod_unfold split: option.split intro!: ok_trivial)
qed

lemma pool_exchange_expires: "ok (pool_exchange L T cfg ip6 p m n) (\<lambda>(r, p', m', n'). expires p' = expires p)"
proof (cases "\<not> hasIPv4 p \<and> \<not> hasIPv6 p")
  case False
  let ?Q = "\<lambda>(r, p', m', n'). expires p' = expires p"
  have last: "ok (bindG (wrap_failure m ro) (\<lambda>r. Inr (r, q, m, n))) ?Q" if "expires q = expires p" for ro q m n
    using that by (auto simp: wpG_bindG intro!: ok_trivial)
  have second: "ok (bindG (if unsuccessful ro then (if hasIPv4 p then try_IPv4 L T cfg ro q m n else try_IPv6 L T cfg ro q m n)
        else Inr (ro, q, m, n)) (\<lambda>(ro, q, m, n). bindG (wrap_failure m ro) (\<lambda>r. Inr (r, q, m, n)))) ?Q"
    if "expires q = expires p" for ro q m n
  proof -
    have "ok (if unsuccessful ro then (if hasIPv4 p then try_IPv4 L T cfg ro q m n else try_IPv6 L T cfg ro q m n)
        else Inr (ro, q, m, n)) ?Q"
      using that try_expires [of L T cfg ro q m n] by auto
    then show ?thesis unfolding wpG_bindG [of _ "if unsuccessful ro then x else y" for x y]
      by (rule wpG_mono) (auto intro!: last)
  qed
  have "ok (if hasIPv6 p \<and> ip6 then try_IPv6 L T cfg None p m n else try_IPv4 L T cfg None p m n) ?Q"
    using try_expires [of L T cfg None p m n] by auto
  then show ?thesis
    unfolding pool_exchange_def Let_def if_not_P [OF False] wpG_bindG [of _ "if hasIPv6 p \<and> ip6 then x else y" for x y]
    by (rule wpG_mono) (auto intro!: second)
qed (simp add: pool_exchange_def)

lemma cache_update_frame: "ok (cache_update P z m r w) (\<lambda>w'. pools w' = pools w \<and> cells w' = cells w)"
proof -
  have "ok (Update L K v nw w1 zn q rm s) (\<lambda>(e, s'). True)" for L K v nw w1 zn q rm s by (rule ok_trivial) simp
  then show ?thesis
    by (auto simp: cache_update_def Let_def wp_simps case_prod_unfold split: option.split)
qed

lemma root_alive_set_cell [simp]: "root_alive (set_cell z f w) = root_alive w"
  by (simp add: root_alive_def)

lemma root_alive_update:
  "root_alive w \<Longrightarrow> pools w' = (pools w)[i := p] \<Longrightarrow> i < length (pools w) \<Longrightarrow> expires p = expires (pools w ! i) \<Longrightarrow> root_alive w'"
  by (cases i) (auto simp: root_alive_def)

lemma root_alive_exchange:
  assumes alive: "root_alive w"
  shows "ok (zone_exchange P z m w) (\<lambda>(r, m', w'). root_alive w')"
proof -
  let ?w0 = "set_cell z (\<lambda>c. c\<lparr>calls := calls c + 1\<rparr>) w"
  obtain c w1 where c: "cache_lookup P z m ?w0 = (c, w1)" by fastforce
  have w1: "pools w1 = pools w" using cache_lookup_frame [OF c] by simp
  then have alive1: "root_alive w1" using alive by (simp add: root_alive_def)
  have "ok (bindG (go_nth (pools w1) i) (\<lambda>pool.
      let (ip6, w) = (if hasIPv6 pool then check_IPv6 P w1 else (False, w1)) in
      bindG (pool_exchange (lib P) (transport P) (config P) ip6 pool m (net w)) (\<lambda>(r, pool, m, n).
        let w = w\<lparr>pools := (pools w)[i := pool], net := n\<rparr> in
        bindG (cache_update P z m r w) (\<lambda>w. Inr (Some r, m, w))))) (\<lambda>(r, m', w'). root_alive w')" for i
  proof (cases "i < length (pools w1)")
    case True
    obtain ip6 w2 where ip6: "(if hasIPv6 (pools w1 ! i) then check_IPv6 P w1 else (False, w1)) = (ip6, w2)" by fastforce
    have w2: "pools w2 = pools w1" using ip6 check_IPv6_frame [of P w1 ip6 w2] by (auto split: if_split_asm)
    show ?thesis
    proof (cases "pool_exchange (lib P) (transport P) (config P) ip6 (pools w1 ! i) m (net w2)")
      case (Inr v)
      obtain r p' m' n' where v: "v = (r, p', m', n')" by (metis prod.exhaust)
      have e: "expires p' = expires (pools w1 ! i)" using wpG_Inr [OF pool_exchange_expires Inr] v by simp
      have "root_alive w3" if "pools w3 = (pools w2)[i := p']" for w3 :: "('a, 'b) world"
        using root_alive_update [OF alive1 _ True e] that w2 by simp
      then show ?thesis
        using True ip6 Inr v by (auto simp: Let_def wpG_bindG intro!: wpG_mono [OF cache_update_frame])
    qed (use True ip6 in \<open>simp add: Let_def\<close>)
  qed (simp add: go_nth_def)
  with c alive1 show ?thesis
    by (auto simp: zone_exchange_def Let_def split: option.split)
qed

lemma root_alive_pools: "root_alive w \<Longrightarrow> pools w' = pools w \<Longrightarrow> root_alive w'"
  by (simp add: root_alive_def)

interpretation real_inv: resolver_inv "build_resolver P dcfg clk" root_alive for P dcfg clk
proof (unfold_locales, unfold build_resolver_simps zone_impl_simps)
  fix w :: "('a, 'b) world" and z :: zone_ref and m :: msg and n p :: string and pool
  assume w: "root_alive w"
  show "ok (zone_exchange P z m w) (\<lambda>(r, m', w'). root_alive w')" by (rule root_alive_exchange [OF w])
  show "ok (zone_soa P z n w) (\<lambda>(x, w'). root_alive w')"
    unfolding zone_soa_def Let_def wpG_bindG
    by (rule wpG_mono [OF root_alive_exchange [OF w]]) (auto split: option.split)
  show "ok (zone_dnskeys P z w) (\<lambda>(x, w'). root_alive w')"
    using w unfolding zone_dnskeys_def Let_def
    by (auto simp: wpG_bindG split: option.split intro!: wpG_mono [OF root_alive_exchange [OF w]] intro: root_alive_pools)
  show "ok (zone_clone P z n p w) (\<lambda>(x, w'). root_alive w')" using w by (auto simp: zone_clone_def root_alive_def)
  show "root_alive (snd (zone_new n p pool w))" using w by (cases "pools w") (auto simp: zone_new_def root_alive_def)
  show "root_alive (snd (rt_ip6 (zone_runtime P) w))"
    using check_IPv6_frame [of P w] w by (cases "check_IPv6 P w") (auto simp: zone_runtime_def intro: root_alive_pools)
  show "root_alive (snd (rt_uuid (zone_runtime P) w))"
    using w by (auto simp: zone_runtime_def new_uuid_def root_alive_def split: prod.split)
qed

section \<open>A new resolver\<close>

lemma root_pool_loop_frame: "expires (root_pool_loop rrs p) = expires p"
  by (induction rrs arbitrary: p) (auto split: rr.split)

lemma root_pool_expires: "buildRootServerPool F zt = Inr pool \<Longrightarrow> expires pool = 0"
  by (auto simp: buildRootServerPool_def updateIPCount_def root_pool_loop_frame empty_pool_def
      split: prod.split_asm option.split_asm)

lemma NewResolver_state:
  assumes "lib_names (lib P)"
  shows "ok (NewResolver P F now clk dcfg n) (\<lambda>(V, s). state_inv V root_alive (Some root_ref) s)"
proof -
  have "state_inv (build_resolver P d clk) root_alive (Some root_ref) (zones_add (lib P) (zone_impl P) z [], w)"
    if "buildRootServerPool F zt = Inr pool" "zone_new ''.'' '''' pool (new_world P n) = (z, w)" for d zt pool z w
  proof -
    have "z = root_ref" "pools w = [pool]" using that(2) by (auto simp: zone_new_def new_world_def root_ref_def)
    with root_pool_expires [OF that(1)] assms show ?thesis
      by (simp add: state_inv_def store_inv_def root_alive_def zenv_def zones_add_def canonicalName_def root_ref_def lib_names_def)
  qed
  then show ?thesis
    by (auto simp: NewResolver_def wpG_bindG split: sum.split prod.split intro!: ok_trivial)
qed

end
