(* ===== verification/Resolver_Examples.thy ===== *)
theory Resolver_Examples
  imports Resolver Dns_Instance Dnssec_Examples
begin

text \<open>
  Concrete data for the witnesses of the resolver's properties: a store, a network that
  answers from a table, a platform on the reference library, and a delegation that makes the
  resolver panic.
\<close>

section \<open>A store and a network\<close>

definition ex_kv :: "(u64 \<times> Entry) list kvstore" where
  "ex_kv = \<lparr>kv_New = (\<lambda>n. []), kv_Add = AList.update, kv_Get = map_of,
     kv_Remove = (\<lambda>k. AList.delete k), kv_Len = length\<rparr>"

text \<open>The answers of the network, by address, name and type of the question.\<close>

type_synonym script = "(string \<times> string \<times> u16 \<times> msg) list"

fun ex_reply :: "script \<Rightarrow> string \<Rightarrow> question list \<Rightarrow> exchange_result" where
  "ex_reply [] a qs = (None, 0, Some (ExtErr ''no route''))"
| "ex_reply ((b, n, t, m) # rest) a [] = (None, 0, Some (ExtErr ''no question''))"
| "ex_reply ((b, n, t, m) # rest) a (q # qs) =
     (if a = b @ '':53'' \<and> qName q = n \<and> Qtype q = t then (Some (m\<lparr>Question := [q]\<rparr>), 1, None)
      else ex_reply rest a (q # qs))"

definition ex_transport :: "script \<Rightarrow> gotime transport" where
  "ex_transport sc = \<lparr>t_now = (\<lambda>n. n), t_classic = (\<lambda>c m a n. (ex_reply sc a (Question m), n)),
     t_dial = (\<lambda>a c t n. (Some (ExtErr ''no quic''), n)), t_pack = (\<lambda>m. Inl (ExtErr ''no quic'')),
     t_open = (\<lambda>n. (None, n)), t_write = (\<lambda>b n. (None, n)), t_close = (\<lambda>n. (None, n)),
     t_read = (\<lambda>t n. (None, n)), t_unpack = (\<lambda>b. Inl (ExtErr ''no quic''))\<rparr>"

definition ex_platform :: "Config \<Rightarrow> script \<Rightarrow> ((u64 \<times> Entry) list, gotime) platform" where
  "ex_platform cfg sc = \<lparr>lib = ref_lib, vars = default_resolver_vars, config = cfg, transport = ex_transport sc,
     store = ex_kv, visit = (\<lambda>g. g), uuid = (\<lambda>n. (replicate 36 CHR ''0'', n))\<rparr>"

section \<open>Messages\<close>

definition ex_rr_hdr :: "string \<Rightarrow> u16 \<Rightarrow> u32 \<Rightarrow> rr_hdr" where
  "ex_rr_hdr n t l = \<lparr>Name = n, Rrtype = t, Class = ClassINET, Ttl = l\<rparr>"

definition ex_A :: "string \<Rightarrow> string \<Rightarrow> rr" where
  "ex_A n a = A (ex_rr_hdr n TypeA 300) a"

definition ex_NS :: "string \<Rightarrow> string \<Rightarrow> rr" where
  "ex_NS n h = NS (ex_rr_hdr n TypeNS 300) h"

definition ex_ask :: "string \<Rightarrow> u16 \<Rightarrow> msg" where
  "ex_ask n t = ref_SetQuestion new_Msg n t"

text \<open>A root server that answers by itself.\<close>

definition ex_one :: script where
  "ex_one = [(''1'', ''a.'', TypeA, new_Msg\<lparr>Answer := [ex_A ''a.'' ''9'']\<rparr>)]"

text \<open>
  A referral from the zone \<open>c.\<close> for the query name \<open>w.a.b.b.c.\<close>: it skips a label, and a
  record with a longer name hides that from \<open>checkForMissingZones\<close>.
\<close>

definition ex_script :: script where
  "ex_script = [
     (''1'', ''w.a.b.b.c.'', TypeA, new_Msg\<lparr>Ns := [ex_NS ''c.'' ''n.c.''], Extra := [ex_A ''n.c.'' ''2'']\<rparr>),
     (''2'', ''w.a.b.b.c.'', TypeA, new_Msg\<lparr>Ns := [ex_NS ''a.b.b.c.'' ''m.c.'', ex_NS ''x.x.x.x.c.'' ''m.c.''],
        Extra := [ex_A ''m.c.'' ''3'']\<rparr>),
     (''3'', ''w.a.b.b.c.'', TypeA, new_Msg\<lparr>Answer := [ex_A ''w.a.b.b.c.'' ''4'']\<rparr>),
     (''3'', ''b.b.c.'', TypeSOA, new_Msg\<lparr>Answer := [SOA (ex_rr_hdr ''b.b.c.'' TypeSOA 300)]\<rparr>)]"

definition ex_files :: files where
  "ex_files = \<lparr>open_anchors = (\<lambda>_. Some (Inr [])), ReadFile = (\<lambda>_. Inr []), parse_zone = (\<lambda>_. ([ex_A ''r.'' ''1''], None))\<rparr>"

definition ex_resolver :: "Config \<Rightarrow> script \<Rightarrow>
    (((u64 \<times> Entry) list, gotime) real_resolver \<times> ((u64 \<times> Entry) list, gotime) real_state) go" where
  "ex_resolver cfg sc = NewResolver (ex_platform cfg sc) ex_files (\<lambda>_. 0) (\<lambda>_. ex_clk) default_dnssec_cfg 0"

definition ex_run :: "Config \<Rightarrow> script \<Rightarrow> msg \<Rightarrow> Response option go" where
  "ex_run cfg sc q = bindG (ex_resolver cfg sc) (\<lambda>(V, s). bindG (Exchange V Background q s) (\<lambda>(r, s). Inr r))"

section \<open>Signed zones\<close>

text \<open>A signed root and a signed zone \<open>a.\<close> on the servers 1 and 2.\<close>

definition ex_signed :: script where
  "ex_signed = [
     (''1'', ''a.'', TypeA, ex_root_msg\<lparr>Extra := [ex_A ''ns.a.'' ''2'']\<rparr>),
     (''1'', ''.'', TypeDNSKEY, new_Msg\<lparr>Answer := [DNSKEY (ex_key ''.''), RRSIG (ex_sig ''.'' ''.'' 48)]\<rparr>),
     (''2'', ''a.'', TypeA, ex_leaf_msg),
     (''2'', ''a.'', TypeDNSKEY, new_Msg\<lparr>Answer := [DNSKEY (ex_key ''a.''), RRSIG (ex_sig ''a.'' ''a.'' 48)]\<rparr>)]"

definition ex_ask_DO :: "string \<Rightarrow> u16 \<Rightarrow> msg" where
  "ex_ask_DO n t = ref_SetEdns0 (ex_ask n t) 4096 True"

definition ex_secure_run :: "script \<Rightarrow> msg \<Rightarrow> (Response option \<times> ((u64 \<times> Entry) list, gotime) real_state) go" where
  "ex_secure_run sc q = bindG (ex_resolver DefaultConfig sc) (\<lambda>(V, s).
     Exchange (build_resolver (ex_platform DefaultConfig sc) ex_cfg (\<lambda>_. ex_clk)) Background q s)"

definition ex_bogus_auth :: "authenticator go" where
  "ex_bogus_auth = bindG (add_all ref_lib ex_cfg (NewAuth ref_lib ex_cfg ex_clk (ex_query ''a.'' 1)) ex_forged_inputs)
     (\<lambda>d. Inr \<lparr>au_auth = d, au_errors = [], au_finished = False\<rparr>)"

text \<open>An alias, and an exchanger that answers for its target.\<close>

definition ex_alias :: msg where
  "ex_alias = new_Msg\<lparr>Answer := [CNAME (ex_rr_hdr ''a.'' TypeCNAME 300) ''b.'']\<rparr>"

definition ex_target :: "unit exchanger" where
  "ex_target cx m w = Inr (Some (zero_Response\<lparr>Msg := Some (new_Msg\<lparr>Answer := [ex_A ''b.'' ''9'']\<rparr>)\<rparr>), cx, w)"

section \<open>The example platform\<close>

lemma ex_platform_simps [simp]:
  "lib (ex_platform cfg sc) = ref_lib" "vars (ex_platform cfg sc) = default_resolver_vars"
  "config (ex_platform cfg sc) = cfg" "transport (ex_platform cfg sc) = ex_transport sc" "store (ex_platform cfg sc) = ex_kv"
  "visit (ex_platform cfg sc) = (\<lambda>g. g)"
  by (simp_all add: ex_platform_def)

lemma ex_kv_ok: "kv_ok ex_kv" "kv_roomy ex_kv"
  by (auto simp: kv_ok_def kv_roomy_def ex_kv_def update_conv' delete_conv')

end
