(* ===== verification/Resolver_Properties.thy ===== *)
theory Resolver_Properties
  imports Resolver_Examples
begin

text \<open>
  The properties of the resolver as a whole: that a request ends, what it may spend, what its
  zone store always is, and what it makes of the answers.
\<close>

section \<open>Serving requests\<close>

text \<open>
  The states of a resolver between requests: a new resolver, the state after a request, and
  what the network and the clock have become in between.
\<close>

inductive serving ::
  "('s, 'n) platform \<Rightarrow> files \<Rightarrow> (nat \<Rightarrow> gotime) \<Rightarrow> (('s, 'n) real_state \<Rightarrow> nat \<Rightarrow> nat \<Rightarrow> sigclock) \<Rightarrow> dnssec_cfg \<Rightarrow>
     ('s, 'n) real_resolver \<Rightarrow> ('s, 'n) real_state \<Rightarrow> bool"
  for P F now clk dcfg where
  started: "NewResolver P F now clk dcfg n = Inr (V, s) \<Longrightarrow> serving P F now clk dcfg V s"
| served: "serving P F now clk dcfg V s \<Longrightarrow> Exchange V cx q s = Inr (r, s') \<Longrightarrow> serving P F now clk dcfg V s'"
| waited: "serving P F now clk dcfg V (zs, w) \<Longrightarrow> serving P F now clk dcfg V (zs, w\<lparr>net := n\<rparr>)"

lemma NewResolver_built:
  assumes "NewResolver P F now clk dcfg n = Inr (V, s)"
  shows "\<exists>dcfg'. V = build_resolver P dcfg' clk"
  using assms unfolding NewResolver_def bindG_eq_Inr_iff Let_def
  by (fastforce split: sum.split_asm prod.split_asm)




lemma ex_resolver_returns: "returns (ex_resolver DefaultConfig sc)"
  by (simp add: ex_resolver_def NewResolver_def LoadAnchorsFile_def ex_files_def buildRootServerPool_def split: prod.split)

section \<open>The resolver\<close>

text \<open>
  C17. A request always comes to an end: with room in the 32-bit query counter for the
  configured limits, neither the depth of the recursion (name servers without addresses,
  CNAME targets) nor the iterations of the main loop reach their bounds, whatever the network
  answers. The limit on the queries of a request is what ends the recursion.
\<close>

theorem exchange_terminates:
  assumes "M = unat (MaxQueriesPerRequest (vars P))" "B = 2 * DesireNumberOfNameserversPerZone (vars P)"
    and "M + (B + 1) * (M + 2) \<le> top_count" and "queries cx \<le> top_count"
  shows "Exchange (build_resolver P dcfg clk) cx q s \<noteq> Inl OutOfFuel"
proof -
  let ?V = "build_resolver P dcfg clk"
  have "within M ((B + 1) * (Suc M + 1)) (M + 1 - (M + 1)) (resolver_exchange ?V (M + 1))"
    using real_zones.resolver_exchange_within [where P = P and B = B and M = M and n = "M + 1"] assms(1-3) by simp
  from withinD [OF this _ assms(4)] have "nofuel (resolver_exchange ?V (M + 1) cx q s)"
    unfolding wpG_nofuel by (rule wpG_mono) simp_all
  then show ?thesis
    unfolding Exchange_def nofuel_def [symmetric]
    by (auto simp: assms(1) simp del: resolver_exchange.simps intro!: nofuel_bindG split: option.split)
qed

theorem exchange_terminates_witness:
  "Exchange (build_resolver (ex_platform DefaultConfig ex_script) default_dnssec_cfg (\<lambda>_. ex_clk)) Background
     (ex_ask ''w.a.b.b.c.'' 1) ([], new_world (ex_platform DefaultConfig ex_script) 0) \<noteq> Inl OutOfFuel"
proof (rule exchange_terminates [OF refl refl])
  show "unat (MaxQueriesPerRequest (vars (ex_platform DefaultConfig ex_script))) +
      (2 * DesireNumberOfNameserversPerZone (vars (ex_platform DefaultConfig ex_script)) + 1) *
      (unat (MaxQueriesPerRequest (vars (ex_platform DefaultConfig ex_script))) + 2) \<le> top_count"
    by (simp add: default_resolver_vars_def)
qed (simp add: queries_def Background_def)

text \<open>
  C18. A request spends at most the allowed queries when it succeeds: a response without an
  error comes with a counter of at most \<open>MaxQueriesPerRequest\<close>. With an error, the excess
  is at most one query for each call that was under way and its enrichment queries.
\<close>

theorem query_limit:
  assumes "M = unat (MaxQueriesPerRequest (vars P))" "B = 2 * DesireNumberOfNameserversPerZone (vars P)"
    and "M + (B + 1) * (M + 2) \<le> top_count" and "queries cx \<le> M"
    and "resolver_exchange (build_resolver P dcfg clk) (M + 1) cx q s = Inr (r, cx', s')"
  shows "(HasError r \<or> queries cx' \<le> M) \<and> queries cx \<le> queries cx' \<and> queries cx' \<le> M + (B + 1) * (M + 2)"
proof -
  have w: "within M ((B + 1) * (Suc M + 1)) (M + 1 - (M + 1)) (resolver_exchange (build_resolver P dcfg clk) (M + 1))"
    using real_zones.resolver_exchange_within [where P = P and B = B and M = M and n = "M + 1"] assms(1-3) by simp
  have "queries cx \<le> top_count" using assms(3,4) by linarith
  from wpG_Inr [OF withinD [OF w _ this] assms(5)] assms(4) show ?thesis by auto
qed

lemma ex_one_run:
  "map_sum id (\<lambda>(r, cx, s). (map_option (\<lambda>r. (Err r, map_option Answer (Msg r))) r, ctxSessionQueries cx))
     (bindG (ex_resolver DefaultConfig ex_one) (\<lambda>(V, s). resolver_exchange V 101 Background (ex_ask ''a.'' 1) s))
   = Inr (Some (None, Some [ex_A ''a.'' ''9'']), Some 2)"
  by code_simp

text \<open>The resolver of the example serves.\<close>

lemma ex_serving:
  obtains V s where "ex_resolver DefaultConfig sc = Inr (V, s)"
    "serving (ex_platform DefaultConfig sc) ex_files (\<lambda>_. 0) (\<lambda>_. ex_clk) default_dnssec_cfg V s"
proof (cases "ex_resolver DefaultConfig sc")
  case (Inr v)
  obtain V s where "v = (V, s)" by (cases v)
  with Inr have "ex_resolver DefaultConfig sc = Inr (V, s)" by simp
  from this serving.started [OF this [unfolded ex_resolver_def]] show ?thesis by (rule that)
qed (use ex_resolver_returns [of sc] in simp)

theorem query_limit_witness:
  "\<exists>V s r cx' s'. ex_resolver DefaultConfig ex_one = Inr (V, s) \<and>
     resolver_exchange V 101 Background (ex_ask ''a.'' 1) s = Inr (r, cx', s') \<and> \<not> HasError r \<and> queries cx' \<le> 100"
proof -
  obtain V s where V: "ex_resolver DefaultConfig ex_one = Inr (V, s)"
    by (rule ex_serving)
  obtain dcfg where built: "V = build_resolver (ex_platform DefaultConfig ex_one) dcfg (\<lambda>_. ex_clk)"
    using NewResolver_built [OF V [unfolded ex_resolver_def]] by (elim exE)
  obtain r cx' s' where r: "resolver_exchange V 101 Background (ex_ask ''a.'' 1) s = Inr (r, cx', s')" "\<not> HasError r"
    using ex_one_run by (cases "resolver_exchange V 101 Background (ex_ask ''a.'' 1) s")
      (auto simp: V HasError_def simp del: resolver_exchange.simps split: option.split_asm)
  have "100 = unat (MaxQueriesPerRequest (vars (ex_platform DefaultConfig ex_one)))"
    by (simp add: default_resolver_vars_def)
  moreover have "resolver_exchange V (100 + 1) Background (ex_ask ''a.'' 1) s = Inr (r, cx', s')" using r(1) by simp
  ultimately have "HasError r \<or> queries cx' \<le> 100"
    unfolding built by (intro query_limit [OF _ refl, THEN conjunct1])
      (simp_all add: default_resolver_vars_def queries_def Background_def)
  with r V show ?thesis by blast
qed








section \<open>The verdict\<close>



text \<open>
  C23. A response that is \<open>Bogus\<close> is refused: unless the client has set CD, the message has the
  response code SERVFAIL and no AD bit and, in the default setting, no records at all.
\<close>

theorem bogus_response_is_refused:
  assumes "finaliseResponse V ex (Some a) qmsg r cx s = Inr (r', cx', s')"
    and "\<not> CheckingDisabled qmsg" "Msg r' = Some m" "Auth r' = Bogus"
  shows "Rcode m = RcodeServerFailure \<and> \<not> AuthenticatedData m \<and>
     (SuppressBogusResponseSections (rs_vars V) \<longrightarrow> Answer m = [] \<and> Ns m = [] \<and> Extra m = [])"
proof -
  have fin: "Auth (finish_response V (Some a) qmsg r1 m1 cx1 s1) = Bogus \<Longrightarrow> Msg (finish_response V (Some a) qmsg r1 m1 cx1 s1) = Some m \<Longrightarrow>
      \<not> AuthenticatedData m \<and> bogus_refused (rs_vars V) m" for r1 m1 cx1 s1 m
    using assms(2) by (auto simp: finish_response_def Let_def apply_verdict_def bogus_refused_def split: if_split_asm)
  have "ok (finaliseResponse V ex (Some a) qmsg r cx s)
     (\<lambda>(x, cx, s). Auth x = Bogus \<longrightarrow> (\<forall>m. Msg x = Some m \<longrightarrow> \<not> AuthenticatedData m \<and> bogus_refused (rs_vars V) m))"
    by (auto simp: finaliseResponse_def wp_simps zero_Response_def split: option.split
        intro!: ok_trivial [where m = "authenticate_response V (Some a) r x" for x] ok_trivial [where m = "cname L sz ex qmsg x cx s" for L sz x])
       (drule (1) fin, simp)+
  from wpG_Inr [OF this assms(1)] assms(3,4) show ?thesis by (simp add: bogus_refused_def)
qed

lemma ex_bogus_final:
  "map_sum id (\<lambda>(r, cx, s). (Auth r, map_option (\<lambda>m. ()) (Msg r)))
     (bindG ex_bogus_auth (\<lambda>a. finaliseResponse (build_resolver (ex_platform DefaultConfig []) ex_cfg (\<lambda>_. ex_clk))
        (\<lambda>cx m s. Inr (None, cx, s)) (Some a) (ex_ask_DO ''a.'' 1) (zero_Response\<lparr>Msg := Some ex_leaf_msg\<rparr>) Background
        ([], new_world (ex_platform DefaultConfig []) 0))) = Inr (Bogus, Some ())"
  by code_simp

theorem bogus_response_is_refused_witness:
  "\<exists>a r' cx' s' m. finaliseResponse (build_resolver (ex_platform DefaultConfig []) ex_cfg (\<lambda>_. ex_clk))
        (\<lambda>cx m s. Inr (None, cx, s)) (Some a) (ex_ask_DO ''a.'' 1) (zero_Response\<lparr>Msg := Some ex_leaf_msg\<rparr>) Background
        ([], new_world (ex_platform DefaultConfig []) 0) = Inr (r', cx', s') \<and>
     Msg r' = Some m \<and> Auth r' = Bogus \<and> Rcode m = RcodeServerFailure \<and> Answer m = []"
proof -
  let ?F = "\<lambda>a. finaliseResponse (build_resolver (ex_platform DefaultConfig []) ex_cfg (\<lambda>_. ex_clk))
        (\<lambda>cx m s. Inr (None, cx, s)) (Some a) (ex_ask_DO ''a.'' 1) (zero_Response\<lparr>Msg := Some ex_leaf_msg\<rparr>) Background
        ([], new_world (ex_platform DefaultConfig []) 0)"
  have "returns ex_bogus_auth" by code_simp
  then obtain a where a: "ex_bogus_auth = Inr a" by (auto simp: returns_iff)
  obtain v where v: "?F a = Inr v" "Auth (fst v) = Bogus" "Msg (fst v) \<noteq> None"
    using ex_bogus_final by (cases "?F a") (auto simp: a)
  obtain r' cx' s' where "v = (r', cx', s')" by (metis prod.exhaust)
  with v obtain m where r: "?F a = Inr (r', cx', s')" "Auth r' = Bogus" "Msg r' = Some m" by auto
  have "\<not> CheckingDisabled (ex_ask_DO ''a.'' 1)" by code_simp
  from bogus_response_is_refused [OF r(1) this r(3,2)] have "Rcode m = RcodeServerFailure \<and> Answer m = []"
    by (simp add: default_resolver_vars_def)
  with r show ?thesis by blast
qed


text \<open>
  C25. The loop that lowers the TTLs of a section, with its cache of the values per type, is the
  record-wise minimum with the TTL that the authenticator hands out for the type of the record.
\<close>

theorem limit_ttls_is_map:
  "limit_ttls lookup [] rrs = map (\<lambda>r. let (t, found) = lookup (rr_type r) in if found then set_ttl (min t (rr_ttl r)) r else r) rrs"
proof -
  have "limit_ttls lookup ttls rrs = map (\<lambda>r. let (t, found) = lookup (rr_type r) in if found then set_ttl (min t (rr_ttl r)) r else r) rrs"
    if "\<And>t v. map_of ttls t = Some v \<Longrightarrow> v = lookup t" for ttls
    using that
  proof (induction rrs arbitrary: ttls)
    case (Cons r rrs)
    have *: "v = lookup t" if "map_of ((rr_type r, lookup (rr_type r)) # ttls) t = Some v" for t v
      using that Cons.prems [of t v] by (auto split: if_split_asm)
    show ?case
    proof (cases "map_of ttls (rr_type r)")
      case None
      with Cons.IH [of "(rr_type r, lookup (rr_type r)) # ttls", OF *] show ?thesis by (simp add: Let_def split_beta)
    next
      case (Some v)
      with Cons.IH [OF Cons.prems] Cons.prems [OF Some] show ?thesis by (simp add: Let_def split_beta)
    qed
  qed simp
  from this [of "[]"] show ?thesis by simp
qed

text \<open>
  C26. Following CNAME records: on success the response still begins with the records it had,
  the verdict has only become worse, and for each CNAME record the answer holds a record of the
  type of the question (or another CNAME record) at its target, or the whole answer of the
  exchange for the target, whose verdict is part of the result.
\<close>

theorem cname_records_are_followed:
  assumes "cname L udpsz ex qmsg r cx w = Inr (None, r', cx', w')" "Msg r = Some m" "Question qmsg = q # qs"
    and "CNAME h t \<in> set (Answer m)"
  shows "\<exists>m'. Msg r' = Some m' \<and> prefix (Answer m) (Answer m') \<and> Auth r \<le> Auth r' \<and>
     cname_followed L udpsz ex qmsg (Qtype q) m' (Auth r') t"
proof -
  obtain m' where loop: "cname_loop L udpsz ex qmsg (Qtype q) (extractRecords as_CNAME (Answer m)) m (Auth r) cx w =
      Inr (None, m', Auth r', cx', w')" and r': "Msg r' = Some m'"
    using assms(1-3) by (auto simp: cname_def bindG_eq_Inr_iff go_nth_def)
  have "(h, t) \<in> set (extractRecords as_CNAME (Answer m))"
    using assms(4) by (force simp: set_extractRecords)
  from cname_loop_follows [OF loop this] cname_loop_grows [OF loop] r' show ?thesis by simp
qed

theorem cname_records_are_followed_witness:
  "\<exists>r' m'. cname ref_lib 4096 ex_target (ex_ask ''a.'' 1) (zero_Response\<lparr>Msg := Some ex_alias\<rparr>) Background () =
       Inr (None, r', Background, ()) \<and> Msg r' = Some m' \<and> prefix (Answer ex_alias) (Answer m')"
proof -
  obtain r' where r: "cname ref_lib 4096 ex_target (ex_ask ''a.'' 1) (zero_Response\<lparr>Msg := Some ex_alias\<rparr>) Background () =
      Inr (None, r', Background, ())"
  proof -
    have "map_sum id (\<lambda>(e, r, cx, w). (e, cx)) (cname ref_lib 4096 ex_target (ex_ask ''a.'' 1)
        (zero_Response\<lparr>Msg := Some ex_alias\<rparr>) Background ()) = Inr (None, Background)" by code_simp
    then show thesis using that
      by (cases "cname ref_lib 4096 ex_target (ex_ask ''a.'' 1) (zero_Response\<lparr>Msg := Some ex_alias\<rparr>) Background ()") auto
  qed
  have q: "Question (ex_ask ''a.'' 1) = [\<lparr>qName = ''a.'', Qtype = 1, Qclass = ClassINET\<rparr>]" by code_simp
  have c: "CNAME (ex_rr_hdr ''a.'' TypeCNAME 300) ''b.'' \<in> set (Answer ex_alias)" by (simp add: ex_alias_def)
  from cname_records_are_followed [OF r _ q c] r show ?thesis by auto
qed

end
