(* ===== verification/Auth_Properties.thy ===== *)
theory Auth_Properties
  imports Resolver_Examples
begin

text \<open>
  The properties of the resolver's authenticator: its queue on every schedule of the
  goroutines, the end of \<open>result\<close>, and what becomes of errors.
\<close>

text \<open>A schedule that processes two inputs in the other order than they were accepted.\<close>

definition ex_state :: "'i list \<Rightarrow> int \<Rightarrow> 'i link list \<Rightarrow> 'i caller \<Rightarrow> 'i server \<Rightarrow> 'i list \<Rightarrow> 'i list \<Rightarrow> 'i conc" where
  "ex_state q n ls c sv ac pr = \<lparr>queue = q, closed = (c = Closed), finished = (c = Waiting \<or> c = Closed), processing = n,
     links = ls, caller = c, server = sv, accepted = ac, processed = pr, panicked = False\<rparr>"

lemma ex_overtaking: "reachable (ex_state [] 0 [] Closed Ready [i, j] [j, i])"
proof -
  have s0: "reachable (ex_state [] 0 [] Idle Ready [] [] :: 'a conc)"
    using reachable.init by (simp add: conc_init_def ex_state_def)
  have s1: "reachable (ex_state [] 1 [Asking] Idle Ready [] [] :: 'a conc)"
    using reachable.next_state [OF s0 step.link_start] by (simp add: ex_state_def)
  have s2: "reachable (ex_state [] 2 [Sending i] Idle Ready [i] [])"
    using reachable.next_state [OF s1 step.link_answer [where k = 0 and i = i]] by (simp add: ex_state_def)
  have s3: "reachable (ex_state [] 3 [Sending i] (Adding j) Ready [i, j] [])"
    using reachable.next_state [OF s2 step.add_start [where i = j]] by (simp add: ex_state_def)
  have s4: "reachable (ex_state [j] 3 [Sending i] Idle Ready [i, j] [])"
    using reachable.next_state [OF s3 step.add_send [where i = j]] by (simp add: ex_state_def send_def can_send_def)
  have s5: "reachable (ex_state [] 3 [Sending i] Idle (Busy j) [i, j] [])"
    using reachable.next_state [OF s4 step.take_input [where i = j and q = "[]"]] by (simp add: ex_state_def)
  have s6: "reachable (ex_state [] 2 [Sending i] Idle Ready [i, j] [j])"
    using reachable.next_state [OF s5 step.input_done [where i = j]] by (simp add: ex_state_def wg_Done_def)
  have s7: "reachable (ex_state [i] 2 [Leaving] Idle Ready [i, j] [j])"
    using reachable.next_state [OF s6 step.link_send [where k = 0 and i = i]] by (simp add: ex_state_def send_def can_send_def)
  have s8: "reachable (ex_state [i] 1 [] Idle Ready [i, j] [j])"
    using reachable.next_state [OF s7 step.link_done [where k = 0]] by (simp add: ex_state_def wg_Done_def)
  have s9: "reachable (ex_state [] 1 [] Idle (Busy i) [i, j] [j])"
    using reachable.next_state [OF s8 step.take_input [where i = i and q = "[]"]] by (simp add: ex_state_def)
  have s10: "reachable (ex_state [] 0 [] Idle Ready [i, j] [j, i])"
    using reachable.next_state [OF s9 step.input_done [where i = i]] by (simp add: ex_state_def wg_Done_def)
  have s11: "reachable (ex_state [] 0 [] Waiting Ready [i, j] [j, i])"
    using reachable.next_state [OF s10 step.finish] by (simp add: ex_state_def)
  show ?thesis using reachable.next_state [OF s11 step.close] by (simp add: ex_state_def)
qed

section \<open>The queue\<close>

text \<open>
  C27. The queue of the authenticator is safe on every schedule of the calling goroutine, the
  worker and the goroutines that look for DS records: no send on the closed channel, no negative
  wait group, never more inputs than the capacity of the channel; and once \<open>result\<close> has closed
  the queue, exactly the accepted inputs have been processed.
\<close>

theorem auth_queue_is_safe:
  assumes "reachable s"
  shows "\<not> panicked s \<and> length (queue s) \<le> 8 \<and> (closed s \<longrightarrow> mset (processed s) = mset (accepted s))"
proof -
  note inv = reachable_inv [OF assms]
  have "closed s \<longrightarrow> mset (processed s) = mset (accepted s)" using closed_processed [OF inv] by (rule impI)
  with inv show ?thesis by (simp add: conc_inv_def)
qed

theorem auth_queue_is_safe_witness:
  "\<not> panicked (ex_state [] 0 [] Closed Ready [1, 2 :: nat] [2, 1]) \<and>
   mset (processed (ex_state [] 0 [] Closed Ready [1, 2 :: nat] [2, 1])) = mset (accepted (ex_state [] 0 [] Closed Ready [1, 2 :: nat] [2, 1]))"
  using auth_queue_is_safe [OF ex_overtaking [of 1 "2 :: nat"]] by (simp add: ex_state_def)

text \<open>
  C28. \<open>result\<close> returns: from every reachable state in which it waits, no schedule runs forever,
  some schedule closes the queue and ends the worker, and no schedule gets stuck before that.
\<close>

theorem auth_result_returns:
  assumes "reachable s" "caller s = Waiting"
  shows "(\<nexists>f. f 0 = s \<and> (\<forall>n. step (f n) (f (Suc n)))) \<and>
     (\<forall>t. step\<^sup>*\<^sup>* s t \<longrightarrow> (\<nexists>u. step t u) \<longrightarrow> caller t = Closed \<and> server t = Exited) \<and>
     (\<exists>t. step\<^sup>*\<^sup>* s t \<and> caller t = Closed \<and> server t = Exited)"
proof (intro conjI allI impI)
  show "\<nexists>f. f 0 = s \<and> (\<forall>n. step (f n) (f (Suc n)))" using no_infinite_run [of s] assms(2) by blast
  show "\<exists>t. step\<^sup>*\<^sup>* s t \<and> caller t = Closed \<and> server t = Exited"
    using run_ends [OF reachable_inv [OF assms(1)]] assms(2) by simp
  fix t
  assume t: "step\<^sup>*\<^sup>* s t" and stuck: "\<nexists>u. step t u"
  have "conc_inv t" using reachable_inv [OF reachable_steps [OF t assms(1)]] .
  with stuck show "caller t = Closed" "server t = Exited" using progress by blast+
qed

definition ex_waiting :: "nat conc" where
  "ex_waiting = conc_init\<lparr>processing := 1, links := [Asking], finished := True, caller := Waiting\<rparr>"

theorem auth_result_returns_witness: "\<exists>t. step\<^sup>*\<^sup>* ex_waiting t \<and> caller t = Closed \<and> server t = Exited"
proof -
  have 1: "reachable (conc_init\<lparr>processing := 1, links := [Asking]\<rparr> :: nat conc)"
    using reachable.next_state [OF reachable.init step.link_start [of conc_init]] by (simp add: conc_init_def)
  have "reachable ex_waiting"
    using reachable.next_state [OF 1 step.finish] by (simp add: conc_init_def ex_waiting_def)
  from auth_result_returns [OF this] show ?thesis by (simp add: ex_waiting_def)
qed




end
