(* ===== verification/Network_Properties.thy ===== *)
theory Network_Properties
  imports Resolver_Examples
begin

text \<open>
  The properties of the parts below the resolver: the cache, the zones, the pools of name
  servers, the name servers with their clients, and the configuration.
\<close>

definition ex_cached :: msg where
  "ex_cached = new_Msg\<lparr>Answer := [ex_A ''a.'' ''9'']\<rparr>"

section \<open>Histories of the cache\<close>






section \<open>The cache\<close>

text \<open>
  C31. What a message puts into the cache comes out again: after an update at the time \<open>now\<close>,
  with a store that evicts nothing, a question for the name and type of an RRset of the message
  is answered until the TTL of its first record has passed, with exactly the records of the
  message under that key and the signatures that were kept for them.
\<close>

theorem cache_round_trip:
  assumes "kv_ok K" "kv_roomy K" "\<forall>g. mset (vis g) = mset g"
    and "\<not> Truncated m" "typed_signatures (Answer m @ Ns m @ Extra m)"
    and "Question qmsg = q # qs" "entry_for L now (Answer m @ Ns m @ Extra m) (Key L (qName q) (Qtype q)) = Some e"
    and "t \<le> now + uint (e_TTL e) * Second"
  shows "\<exists>s'. UpdateWithTime L K vis zone q' m now s = Inr (None, s') \<and>
     GetWithTime L K zone (Some qmsg) t s' = ((Some (reply_of L qmsg e), None), s') \<and>
     e_Records e = filter (in_rrset L (Key L (qName q) (Qtype q))) (Answer m @ Ns m @ Extra m) \<and>
     e_Signatures e = kept_signatures L now (Key L (qName q) (Qtype q)) (Answer m @ Ns m @ Extra m)"
proof -
  have vis: "mset (vis g) = mset g" for g using assms(3) by simp
  obtain s' where s': "UpdateWithTime L K vis zone q' m now s = Inr (None, s')"
    "kv_Get K s' (Key L (qName q) (Qtype q)) = Some e"
    using UpdateWithTime_spec [OF assms(1) vis assms(4,5)] assms(2,7) by fastforce
  have "e_Expires e = now + uint (e_TTL e) * Second"
    "e_Records e = filter (in_rrset L (Key L (qName q) (Qtype q))) (Answer m @ Ns m @ Extra m)"
    "e_Signatures e = kept_signatures L now (Key L (qName q) (Qtype q)) (Answer m @ Ns m @ Extra m)"
    using assms(7) by (auto simp: entry_for_def Let_def split: list.split_asm if_split_asm)
  with s' assms(6,8) show ?thesis by (auto simp: GetWithTime_def Let_def)
qed

lemma ex_cache_entry:
  "map_option e_TTL (entry_for ref_lib 0 (Answer ex_cached @ Ns ex_cached @ Extra ex_cached) (Key ref_lib ''a.'' 1)) = Some 300"
  by code_simp

lemma ex_cached_props:
  "\<not> Truncated ex_cached" "typed_signatures (Answer ex_cached @ Ns ex_cached @ Extra ex_cached)"
  "Question (ex_ask ''a.'' 1) = [ex_query ''a.'' 1]" by code_simp+

theorem cache_round_trip_witness:
  "\<exists>s' a. UpdateWithTime ref_lib ex_kv (\<lambda>g. g) ''.'' (ex_query ''a.'' 1) ex_cached 0 [] = Inr (None, s') \<and>
     GetWithTime ref_lib ex_kv ''.'' (Some (ex_ask ''a.'' 1)) (299 * Second) s' = ((Some a, None), s')"
proof -
  obtain e where e: "entry_for ref_lib 0 (Answer ex_cached @ Ns ex_cached @ Extra ex_cached)
      (Key ref_lib (qName (ex_query ''a.'' 1)) (Qtype (ex_query ''a.'' 1))) = Some e" "e_TTL e = 300"
    using ex_cache_entry by (auto simp: ex_query_def)
  have "299 * Second \<le> 0 + uint (e_TTL e) * Second" by (simp add: e(2) Second_def)
  from cache_round_trip [OF ex_kv_ok _ ex_cached_props e(1) this, of "\<lambda>g. g" "''.''" "ex_query ''a.'' 1" "[]"]
  show ?thesis by blast
qed




section \<open>Zones\<close>








section \<open>Pools and name servers\<close>


definition ex_pool :: nameserverPool where
  "ex_pool = updateIPCount (empty_pool\<lparr>ipv4 := [newNameserver ''n.'' ''1'', newNameserver ''m.'' ''2''],
     ipv6 := [newNameserver ''n.'' ''3''], ipv4Next := 7, hostsWithoutAddresses := [''h.''], expires := 5\<rparr>)"



text \<open>
  C37. A pool built from a referral: the hosts without an address record in the additional
  section, in the order of the NS records, are kept for enrichment, the servers are the
  address records of the others, and the pool expires no later than the TTL of any NS record
  and of any address record that it uses.
\<close>

theorem new_pool_from_referral:
  "hostsWithoutAddresses (newNameserverPool L v now nss extra) =
       filter (\<lambda>h. addresses L h extra = []) (map (\<lambda>(hdr, ns). canonicalName L ns) nss) \<and>
   pool_servers (newNameserverPool L v now nss extra) = (\<Union>(hdr, ns) \<in> set nss. servers_of L (canonicalName L ns) extra) \<and>
   (\<exists>t. expires (newNameserverPool L v now nss extra) = Unix (now + uint t * Second) \<and>
      t \<le> Min (insert (rv_MaxAllowedTTL v) ((\<lambda>(hdr, ns). Ttl hdr) ` set nss \<union>
            rr_ttl ` (\<Union>(hdr, ns) \<in> set nss. set (addresses L (canonicalName L ns) extra)))))"
proof -
  obtain t where t: "expires (newNameserverPool L v now nss extra) = Unix (now + uint t * Second)" "t \<le> rv_MaxAllowedTTL v"
    "\<And>hdr ns. (hdr, ns) \<in> set nss \<Longrightarrow> t \<le> Ttl hdr \<and> (\<forall>r \<in> set (addresses L (canonicalName L ns) extra). t \<le> rr_ttl r)"
    "hostsWithoutAddresses (newNameserverPool L v now nss extra) =
       filter (\<lambda>h. addresses L h extra = []) (map (\<lambda>(hdr, ns). canonicalName L ns) nss)"
    "pool_servers (newNameserverPool L v now nss extra) = (\<Union>(hdr, ns) \<in> set nss. servers_of L (canonicalName L ns) extra)"
    by (rule newNameserverPool_spec [OF refl]) blast
  have "t \<le> Min (insert (rv_MaxAllowedTTL v) ((\<lambda>(hdr, ns). Ttl hdr) ` set nss \<union>
            rr_ttl ` (\<Union>(hdr, ns) \<in> set nss. set (addresses L (canonicalName L ns) extra))))"
    using t(2,3) by (intro Min.boundedI) auto
  with t show ?thesis by blast
qed

text \<open>
  C38. Enriching a pool with records that hold no address for it extends its life to the maximum
  TTL from now, whatever the TTLs of the referral were.
\<close>

theorem useless_enrichment_extends_pool:
  assumes "recs \<noteq> []" "expires p > 0" "\<forall>h \<in> set (hostsWithoutAddresses p). addresses L h recs = []"
  shows "expires (enrich L v now recs p) = Unix (now + uint (rv_MaxAllowedTTL v) * Second) \<and>
     pool_servers (enrich L v now recs p) = pool_servers p"
proof -
  have none: "(\<Union>h \<in> set (hostsWithoutAddresses p). servers_of L h recs) = {}"
    using assms(3) by (auto simp: servers_of_none)
  show ?thesis by (rule enrich_spec [OF assms(1), where p = p and L = L and vars = v and now = now]) (use assms none in auto)
qed

theorem useless_enrichment_extends_pool_witness:
  "expires ex_pool = 5 \<and> expires (enrich ref_lib default_resolver_vars 0 [ex_A ''x.'' ''9''] ex_pool) = 172800"
proof -
  have "\<forall>h \<in> set (hostsWithoutAddresses ex_pool). addresses ref_lib h [ex_A ''x.'' ''9''] = []" "expires ex_pool = 5" by code_simp+
  with useless_enrichment_extends_pool [of "[ex_A ''x.'' ''9'']" ex_pool ref_lib default_resolver_vars 0] show ?thesis
    by (simp add: default_resolver_vars_def Unix_def Second_def)
qed



section \<open>Configuration\<close>

text \<open>
  C40. Every configuration that the options of the package build is usable: it has at least one
  protocol, no protocol twice, only protocols that the client factory knows, and no cache of
  size 0.
\<close>

theorem built_configs_are_valid:
  assumes "\<forall>opt \<in> set options. config_option opt" "ConfigBuilder options = Inr c"
  shows "protocols c \<noteq> [] \<and> distinct (protocols c) \<and> set (protocols c) \<subseteq> {''udp'', ''tcp'', ''dot'', ''doq''} \<and>
     tlsCache c \<noteq> Some 0 \<and> cfg_cache c \<noteq> Some 0"
proof -
  have "protocols_ok DefaultConfig" "caches_ok DefaultConfig"
    by (simp_all add: protocols_ok_def caches_ok_def DefaultConfig_def)
  from apply_options_ok [OF assms(1) _ this] assms(2) show ?thesis
    by (auto simp: ConfigBuilder_def protocols_ok_def caches_ok_def)
qed

theorem built_configs_are_valid_witness:
  "\<exists>c. ConfigBuilder [WithClient ''doq'' True, WithCache 0] = Inr c \<and> distinct (protocols c) \<and> cfg_cache c \<noteq> Some 0"
proof -
  obtain c where c: "ConfigBuilder [WithClient ''doq'' True, WithCache 0] = Inr c"
    by (auto simp: ConfigBuilder_def WithClient_def WithCache_def)
  have "\<forall>opt \<in> set [WithClient ''doq'' True, WithCache 0]. config_option opt" by (auto intro: config_option.intros)
  from built_configs_are_valid [OF this c] c show ?thesis by blast
qed

end
