(* ===== verification/Spec2Isabelle.thy ===== *)
theory Spec2Isabelle
  imports Dnssec_Properties Resolver_Properties Auth_Properties Network_Properties
begin

text \<open>
  A verification development of a recursive DNS resolver library in Go: the package
  \<^verbatim>\<open>resolver\<close> in the root of the repository, with \<^verbatim>\<open>clients\<close> and \<^verbatim>\<open>cache\<close>, and the package
  \<^verbatim>\<open>dnssec\<close> with \<^verbatim>\<open>dnssec/doe\<close>.

  \<^bold>\<open>The program.\<close> \<open>Resolver.Exchange\<close> takes a query and walks down the labels of its name. It
  starts from the deepest zone it knows (\<^verbatim>\<open>zones.go\<close>), asks the name servers of the zone
  (\<^verbatim>\<open>zone.go\<close>, \<^verbatim>\<open>pool.go\<close>, \<^verbatim>\<open>nameserver.go\<close>, \<^verbatim>\<open>clients\<close>, with \<^verbatim>\<open>cache\<close> in front), and either
  gets an answer or a referral, from which it makes the next zone (\<^verbatim>\<open>zone_factory.go\<close>). Name
  servers without addresses and CNAME targets (\<^verbatim>\<open>cname.go\<close>) are resolved by the resolver itself,
  recursively, within one limit on the queries of a request. If the client asks for DNSSEC, each
  response goes through a queue (\<^verbatim>\<open>auth.go\<close>) to an authenticator of the package \<^verbatim>\<open>dnssec\<close>, which
  verifies the chain from the root trust anchors to the answer.

  \<^bold>\<open>Foundations.\<close>
  \<^item> Prelude: results of Go code as values (\<open>'a go\<close>, a panic on the left), bounds-checked
    indexing, the clock, and the rules for outcomes (\<open>wpG\<close>, \<open>nofuel\<close>).
  \<^item> Errors, Dns\_Types: the error values of all packages; records, messages and the record
    \<open>dnslib\<close> of the functions of the DNS library, which is a parameter everywhere.
  \<^item> Dns\_Names: the documented laws of the name functions (\<open>dns_names\<close>) and the ancestors of a
    name. Dns\_Instance: a reference library that satisfies them, for the witnesses.

  \<^bold>\<open>The package dnssec.\<close>
  \<^item> Dnssec\_Types: \<^verbatim>\<open>const.go\<close>, \<^verbatim>\<open>config.go\<close>, \<^verbatim>\<open>types.go\<close>, \<^verbatim>\<open>functions.go\<close>; the order of the
    verdicts as an instance of the library's orders, with \<open>Combine\<close> as its maximum.
  \<^item> Dnssec\_Signatures: \<^verbatim>\<open>authenticate_rrset.go\<close> and \<^verbatim>\<open>signatures.go\<close>.
  \<^item> Doe\_Order, Doe\_Nsec, Doe\_Nsec3: \<^verbatim>\<open>dnssec/doe\<close>, with the canonical order of names and the
    soundness of the proofs of nonexistence.
  \<^item> Dnssec\_Verify: \<^verbatim>\<open>verify*.go\<close>. Dnssec\_Authenticator: \<^verbatim>\<open>authenticator.go\<close> and \<^verbatim>\<open>result.go\<close>,
    its invariant, the verifier interface, the chain of trust and the refinement of the ordered
    chain. Dnssec\_Ends: no call of the package runs out of its bounds.
  \<^item> Dnssec\_Examples, Dnssec\_Properties: examples and the properties C1 to C16.

  \<^bold>\<open>The resolver, from below.\<close>
  \<^item> Resolver\_Functions: \<^verbatim>\<open>functions.go\<close>, \<^verbatim>\<open>response.go\<close>. Config: \<^verbatim>\<open>config.go\<close>, with the package
    variables as the record \<open>resolver_vars\<close>. Domain: \<^verbatim>\<open>domain.go\<close>, with what \<open>windTo\<close> reaches
    and the names that \<open>gap\<close> lists.
  \<^item> Clients: \<^verbatim>\<open>clients/*.go\<close> over the parameter \<open>transport\<close>, with the round trip of the frames of
    DNS over QUIC. Nameserver: \<^verbatim>\<open>nameserver.go\<close>. Pool: \<^verbatim>\<open>pool.go\<close> and \<^verbatim>\<open>pool_exchange.go\<close>, with the
    round robin interface interpreted for both address families.
  \<^item> Cache: \<^verbatim>\<open>cache/cache.go\<close> over the parameter \<open>kvstore\<close>, with the entry that a message makes
    for a key as its specification.
  \<^item> Session: \<^verbatim>\<open>ctx.go\<close>, \<^verbatim>\<open>trace.go\<close>, \<^verbatim>\<open>ipv6.go\<close>. A context is a record of the values that the
    code looks up; the shared counters are part of it, so functions return it. Cname:
    \<^verbatim>\<open>cname.go\<close>.
  \<^item> Zones: \<^verbatim>\<open>zones.go\<close> for any implementation of the interface \<open>zone\<close>; Zone\_Factory:
    \<^verbatim>\<open>zone_factory.go\<close>, and the contract \<open>zone_provider\<close> of zones; Zone\_Impl: \<^verbatim>\<open>zone.go\<close>, where a zone
    is a reference into a heap of cells and pools (clones share the pool), and the
    interpretation of the contract.
  \<^item> Auth: \<^verbatim>\<open>auth.go\<close>, once as the operations the resolver sees, on the schedule in which every
    goroutine runs where it is started, and once as a step relation over the channel, the wait
    group and the goroutines, with its invariant, progress and termination.
  \<^item> Resolver\_Exchange: \<^verbatim>\<open>resolver_exchange.go\<close>. Resolver: \<^verbatim>\<open>resolver.go\<close>, and the interpretations
    of the resolver's interfaces on the zones of Zone\_Impl.

  \<^bold>\<open>What is shown of the resolver.\<close>
  \<^item> Resolver\_Store: what every run keeps of the zone store and of the world.
  \<^item> Resolver\_Auth: the authenticator of a request is only fed. It is used by Resolver\_Bounds,
    the end of every request, and by Resolver\_Validation, the meaning of the verdict.
  \<^item> Resolver\_Examples: a network that answers from a table, signed zones and a crafted
    referral. Resolver\_Properties: C17 to C26. Auth\_Properties: C27 to C30.
    Network\_Properties: C31 to C40.

  \<^bold>\<open>Bounds.\<close> The main loop has \<open>MaxQueriesPerRequest + 2\<close> iterations of fuel and the recursion of
  the resolver a depth of \<open>MaxQueriesPerRequest + 1\<close>. Every iteration increments the counter of
  the request and stops above the limit, and every nested exchange starts from an iteration below
  it, so neither bound is reached (C17); this needs room in the 32-bit counter for the excess
  of refused calls, which holds for the default settings. Words keep their width where the code
  counts (\<open>uint32\<close> counters and positions, TTLs, the hash of the cache key); times and Go's
  \<open>int\<close> are unbounded integers.

  \<^bold>\<open>Parameters.\<close> The DNS library, the network with the message codec and QUIC, the store of the
  coredns cache, the iteration order of Go maps (a permutation), the clock, UUIDs, files, the zone
  parser and the XML decoder are arguments of the definitions. What the properties rely on is
  stated as hypotheses (\<open>dns_names\<close>, \<open>lib_names\<close>, \<open>network_ok\<close>, \<open>kv_ok\<close>), which the reference
  instances satisfy.

  \<^bold>\<open>Not modelled.\<close> Logging (an index expression in an argument of a log call is kept, since it
  can panic), the command line tool and the printing of the cache, which are pure output; the root data of \<^verbatim>\<open>root.go\<close>, which are constants; the identity of message
  objects that goroutines share; interleavings of several requests on one resolver (each
  operation of the zone store is atomic, and a request is one step of \<open>serving\<close>); the timeout
  of an enrichment that would still succeed later.
\<close>

end
